(* ===== verification/Prelude.thy ===== *)
theory Prelude
  imports Main "HOL-Library.Word" "HOL-Library.Monad_Syntax" "HOL-Library.Signed_Division"
begin

text \<open>
  What every component shares: the machine types, the reading of a C function as a HOL
  function into \<open>option\<close>, the pieces of the C standard library that the sources use on
  strings and integers, and a generic account of reachable states.

  Conventions of the whole development.
  \<^item> A C function that writes memory takes the memory it reads and returns the memory it
    leaves; the result type is \<open>'a option\<close>. \<open>None\<close> means that the call has no defined
    result: it dereferences a null pointer, leaves an array, overflows a buffer or a signed
    integer, shifts by too much, or never returns. An error code that the C function returns
    is an ordinary value under \<open>Some\<close>. That a function returns is therefore part of every
    statement of the form \<open>f x = Some y\<close>.
  \<^item> \<open>unsigned\<close> is \<open>32 word\<close>, \<open>unsigned long\<close> and \<open>unsigned long long\<close> are \<open>64 word\<close>;
    \<open>int\<close> is \<open>int\<close> with \<open>c_int\<close> at each arithmetic step that could overflow.
  \<^item> A C array is a total function; every access checks the index against the declared
    length first.
  \<^item> A C string is the list of its characters before the terminating zero.
\<close>

unbundle bit_operations_syntax

type_synonym u32 = "32 word"
type_synonym u64 = "64 word"
type_synonym cstring = string

named_theorems consts_simps \<open>values of the configuration constants\<close>
named_theorems op_defs \<open>definitions of the small operations, unfolded in component proofs\<close>
named_theorems frame_simps \<open>fields that an operation leaves unchanged\<close>

subsection \<open>Partial operations\<close>

definition ensure :: "bool \<Rightarrow> unit option" where
  "ensure b = (if b then Some () else None)"

lemma ensure_True [simp]: "ensure True = Some ()"
  by (simp add: ensure_def)

lemma ensure_False [simp]: "ensure False = None"
  by (simp add: ensure_def)

lemma ensure_eq_Some [simp]: "ensure b = Some u \<longleftrightarrow> b"
  by (simp add: ensure_def)

lemma bind_ensure [simp]: "b \<Longrightarrow> Option.bind (ensure b) f = f ()"
  by (simp add: ensure_def)

lemma bind_ensure_None [simp]: "\<not> b \<Longrightarrow> Option.bind (ensure b) f = None"
  by (simp add: ensure_def)

text \<open>A signed 32 bit value: arithmetic outside the range has no defined result.\<close>

definition c_int :: "int \<Rightarrow> int option" where
  "c_int x = (if - (2 ^ 31) \<le> x \<and> x < 2 ^ 31 then Some x else None)"

lemma c_int_Some [simp]: "- (2 ^ 31) \<le> x \<Longrightarrow> x < 2 ^ 31 \<Longrightarrow> c_int x = Some x"
  by (simp add: c_int_def)

subsection \<open>Strings\<close>

text \<open>
  \<open>strcpy\<close> into a buffer of \<open>cap\<close> bytes is defined when the characters and the terminating
  zero fit. \<open>strcmp\<close> is zero on equal strings; \<open>strncmp a b n\<close> is zero when the first
  \<open>n\<close> characters agree, where a string that ends earlier must end in both.
\<close>

definition strcpy :: "nat \<Rightarrow> cstring \<Rightarrow> cstring option" where
  "strcpy cap src = (if length src < cap then Some src else None)"

definition strcmp_zero :: "cstring \<Rightarrow> cstring \<Rightarrow> bool" where
  "strcmp_zero a b \<longleftrightarrow> a = b"

definition strncmp_zero :: "cstring \<Rightarrow> cstring \<Rightarrow> nat \<Rightarrow> bool" where
  "strncmp_zero a b n \<longleftrightarrow> take n a = take n b"

lemma strcpy_Some [simp]: "length src < cap \<Longrightarrow> strcpy cap src = Some src"
  by (simp add: strcpy_def)

lemma strcpy_None [simp]: "\<not> length src < cap \<Longrightarrow> strcpy cap src = None"
  by (simp add: strcpy_def)

lemma strncmp_zero_self [simp]: "strncmp_zero a a n"
  by (simp add: strncmp_zero_def)

text \<open>What \<open>printf\<close> and \<open>sprintf\<close> make of \<open>%u\<close> and \<open>%d\<close>.\<close>

definition digit :: "nat \<Rightarrow> char" where
  "digit n = char_of (48 + n mod 10)"

fun decimal :: "nat \<Rightarrow> cstring" where
  "decimal n = (if n < 10 then [digit n] else decimal (n div 10) @ [digit n])"

declare decimal.simps [simp del]

definition signed_decimal :: "int \<Rightarrow> cstring" where
  "signed_decimal x = (if x < 0 then CHR ''-'' # decimal (nat (- x)) else decimal (nat x))"

lemma decimal_length: "n < 10 ^ Suc k \<Longrightarrow> length (decimal n) \<le> Suc k"
proof (induction k arbitrary: n)
  case (Suc k)
  have "n div 10 < 10 ^ Suc k" using Suc.prems by simp
  with Suc.IH show ?case by (subst decimal.simps) auto
qed (simp add: decimal.simps)

lemma digit_code: "of_char (digit n) = 48 + n mod (10 :: nat)"
proof -
  have "48 + n mod 10 < 256" using mod_less_divisor [of 10 n] by linarith
  then show ?thesis by (simp add: digit_def)
qed

lemma decimal_digits: "c \<in> set (decimal n) \<Longrightarrow> of_char c \<in> {48..57 :: nat}"
proof (induction n rule: decimal.induct)
  case (1 n)
  show ?case
  proof (cases "n < 10")
    case True
    then show ?thesis using 1 by (simp add: decimal.simps digit_code)
  next
    case False
    then show ?thesis
      using 1 mod_less_divisor [of 10 n] by (auto simp: decimal.simps [of n] digit_code)
  qed
qed

text \<open>Reading a number back gives the number: two numbers never print alike.\<close>

definition read_decimal :: "cstring \<Rightarrow> nat" where
  "read_decimal s = foldl (\<lambda>a c. 10 * a + (of_char c - 48)) 0 s"

lemma read_decimal: "read_decimal (decimal n) = n"
proof (induction n rule: decimal.induct)
  case (1 n)
  show ?case
  proof (cases "n < 10")
    case True
    then show ?thesis by (simp add: decimal.simps read_decimal_def digit_code)
  next
    case False
    then have "read_decimal (decimal (n div 10)) = n div 10" by (rule 1)
    with False show ?thesis by (subst decimal.simps) (simp add: read_decimal_def digit_code)
  qed
qed

subsection \<open>Lists, maps and words\<close>

lemma option_eqI:
  assumes "\<And>x. a = Some x \<longleftrightarrow> b = Some x"
  shows "a = b"
  by (metis assms not_Some_eq)

lemma distinct_split: "x \<in> set xs \<Longrightarrow> distinct xs \<Longrightarrow>
  \<exists>as bs. xs = as @ x # bs \<and> x \<notin> set as \<and> x \<notin> set bs"
  by (metis distinct.simps(2) distinct_append not_distinct_conv_prefix split_list_first)

lemma remove1_middle [simp]: "x \<notin> set as \<Longrightarrow> remove1 x (as @ x # bs) = as @ bs"
  by (simp add: remove1_append)

lemma unat_of_nat_lt_len: "n < 2 ^ 32 \<Longrightarrow> unat (of_nat n :: u32) = n"
  by (simp add: unat_of_nat)

lemma unat_lt: "unat (x :: u32) < 4294967296"
  using unsigned_less [of x, where 'a = nat] by simp

lemma word_pred_measure: "(x :: u32) \<noteq> 0 \<Longrightarrow> unat (x - 1) < unat x"
  by (simp add: unat_minus_one unat_gt_0)

lemma sum_upd:
  fixes f :: "'b \<Rightarrow> nat" and n :: nat
  assumes "i < n"
  shows "(\<Sum>j<n. f ((g(i := x)) j)) + f (g i) = (\<Sum>j<n. f (g j)) + f x"
proof -
  have "(\<Sum>j<n. f (g j)) = f (g i) + (\<Sum>j \<in> {..<n} - {i}. f (g j))"
    using assms by (subst sum.remove [of _ i]) simp_all
  moreover have "(\<Sum>j<n. f ((g(i := x)) j)) = f x + (\<Sum>j \<in> {..<n} - {i}. f (g j))"
    using assms by (subst sum.remove [of _ i]) simp_all
  ultimately show ?thesis by simp
qed

lemma sum_le_count:
  fixes f :: "'b \<Rightarrow> nat" and n :: nat
  assumes "\<And>x. f x \<le> 1"
  shows "(\<Sum>j<n. f (g j)) \<le> n"
  using sum_bounded_above [of "{..<n}" "\<lambda>j. f (g j)" 1] assms by simp

lemma finite_u32 [simp]: "finite (A :: u32 set)"
  by (rule finite_subset [OF subset_UNIV]) simp

lemma card_below: "card {i :: u32. i < n} = unat n"
proof -
  have "bij_betw unat {i :: u32. i < n} {..<unat n}"
  proof (rule bij_betw_imageI)
    show "inj_on unat {i :: u32. i < n}"
      by (rule inj_onI) (simp add: unsigned_word_eqI)
    show "unat ` {i :: u32. i < n} = {..<unat n}"
    proof (intro equalityI subsetI)
      fix k
      assume "k \<in> {..<unat n}"
      then have lt: "k < unat n" by simp
      then have "k < 2 ^ 32" using unat_lt [of n] by simp
      then have "unat (of_nat k :: u32) = k" by (rule unat_of_nat_lt_len)
      with lt show "k \<in> unat ` {i :: u32. i < n}"
        by (auto simp: word_less_nat_alt intro!: image_eqI [where x = "of_nat k"])
    qed (auto simp: word_less_nat_alt)
  qed
  then show ?thesis using bij_betw_same_card by fastforce
qed

subsection \<open>Reachable states and invariants\<close>

text \<open>
  The states that a set of initial states reaches under a step relation, and the interface
  of an invariant: it holds at the start and every step from a reachable state keeps it.
\<close>

inductive reach :: "('s \<Rightarrow> bool) \<Rightarrow> ('s \<Rightarrow> 's \<Rightarrow> bool) \<Rightarrow> 's \<Rightarrow> bool"
  for start :: "'s \<Rightarrow> bool" and step :: "'s \<Rightarrow> 's \<Rightarrow> bool" where
  reach_start: "start s \<Longrightarrow> reach start step s"
| reach_step: "reach start step s \<Longrightarrow> step s t \<Longrightarrow> reach start step t"

locale step_invariant =
  fixes start :: "'s \<Rightarrow> bool" and step :: "'s \<Rightarrow> 's \<Rightarrow> bool" and inv :: "'s \<Rightarrow> bool"
  assumes inv_start: "start s \<Longrightarrow> inv s"
    and inv_step: "inv s \<Longrightarrow> step s t \<Longrightarrow> inv t"
begin

lemma reach_inv: "reach start step s \<Longrightarrow> inv s"
  by (induction rule: reach.induct) (auto intro: inv_start inv_step)

lemma steps_inv: "step\<^sup>*\<^sup>* s t \<Longrightarrow> inv s \<Longrightarrow> inv t"
  by (induction rule: rtranclp_induct) (auto intro: inv_step)

end

end
