(* ===== verification/Config.thy ===== *)
theory Config
  imports Prelude
begin

text \<open>
  The constants and enumerations of \<^verbatim>\<open>inc/config.h\<close> and the queue types of
  \<^verbatim>\<open>inc/spdk.h\<close>, with their values as rewrite rules in \<open>consts_simps\<close>.
\<close>

datatype operate = READ | WRITE | DISCARD

datatype mg_type = PROMOTION | DEMOTION | WRITEBACK

datatype queue_type = IO_QUEUE | MG_QUEUE

definition CBLOCK_SHIFT :: nat where
  "CBLOCK_SHIFT = 15"

definition CACHE_BLOCK_SIZE :: u32 where
  "CACHE_BLOCK_SIZE = push_bit CBLOCK_SHIFT 1"

definition CACHE_BLOCK_NUMBER :: u32 where
  "CACHE_BLOCK_NUMBER = push_bit 15 1"

definition BUCKETS_NUMBER :: u32 where
  "BUCKETS_NUMBER = push_bit 2 CACHE_BLOCK_NUMBER"

definition PAGE_SHIFT :: nat where
  "PAGE_SHIFT = 12"

definition PAGE_SIZE :: u32 where
  "PAGE_SIZE = push_bit PAGE_SHIFT 1"

definition MOD_PAGE_PER_CBLOCK_SHIFT :: u32 where
  "MOD_PAGE_PER_CBLOCK_SHIFT = 0b111"

definition MAX_PATH_SIZE :: nat where
  "MAX_PATH_SIZE = push_bit 5 1"

definition MAX_WORKQUEUE_SIZE :: int where
  "MAX_WORKQUEUE_SIZE = push_bit 4 1"

definition QPAIR_COUNT :: u32 where
  "QPAIR_COUNT = 2"

lemma CBLOCK_SHIFT_val [consts_simps]: "CBLOCK_SHIFT = 15"
  by (simp add: CBLOCK_SHIFT_def)

lemma CACHE_BLOCK_SIZE_val [consts_simps]: "CACHE_BLOCK_SIZE = 32768"
  by (simp add: CACHE_BLOCK_SIZE_def CBLOCK_SHIFT_def push_bit_eq_mult)

lemma CACHE_BLOCK_NUMBER_val [consts_simps]: "CACHE_BLOCK_NUMBER = 32768"
  by (simp add: CACHE_BLOCK_NUMBER_def push_bit_eq_mult)

lemma BUCKETS_NUMBER_val [consts_simps]: "BUCKETS_NUMBER = 131072"
  by (simp add: BUCKETS_NUMBER_def CACHE_BLOCK_NUMBER_val push_bit_eq_mult)

lemma PAGE_SIZE_val [consts_simps]: "PAGE_SIZE = 4096"
  by (simp add: PAGE_SIZE_def PAGE_SHIFT_def push_bit_eq_mult)

lemma MOD_PAGE_PER_CBLOCK_SHIFT_val [consts_simps]: "MOD_PAGE_PER_CBLOCK_SHIFT = 7"
  by (simp add: MOD_PAGE_PER_CBLOCK_SHIFT_def)

lemma MAX_PATH_SIZE_val [consts_simps]: "MAX_PATH_SIZE = 32"
  by (simp add: MAX_PATH_SIZE_def push_bit_eq_mult)

lemma MAX_WORKQUEUE_SIZE_val [consts_simps]: "MAX_WORKQUEUE_SIZE = 16"
  by (simp add: MAX_WORKQUEUE_SIZE_def push_bit_eq_mult)

lemma QPAIR_COUNT_val [consts_simps]: "QPAIR_COUNT = 2"
  by (simp add: QPAIR_COUNT_def)

end
