(* ===== verification/Atomic.thy ===== *)
theory Atomic
  imports Config
begin

text \<open>
  The spinlock of \<^verbatim>\<open>lib/atomic.c\<close>. The functions are first read as one thread
  executes them: taking a free lock returns, taking a held one spins forever (no other thread
  runs in between). Then the same compare-and-exchange is the atomic step of a system of
  threads, in which the lock gives mutual exclusion.
\<close>

subsection \<open>The operations\<close>

record spinlock =
  locked :: u32

text \<open>The strong compare-and-exchange: whether it succeeded, and the value it leaves.\<close>

definition atomic_compare_exchange :: "u32 \<Rightarrow> u32 \<Rightarrow> u32 \<Rightarrow> bool \<times> u32" where
  "atomic_compare_exchange v compare exchange =
     (if v = compare then (True, exchange) else (False, v))"

text \<open>\<open>atomic_fetch_add\<close>: the result is the value before the addition.\<close>

definition atomic_add_fetch :: "u32 \<Rightarrow> u32 \<Rightarrow> u32 \<times> u32" where
  "atomic_add_fetch v d = (v, v + d)"

definition spinlock_init :: "spinlock \<Rightarrow> spinlock" where
  "spinlock_init l = l\<lparr>locked := 0\<rparr>"

partial_function (option) spinlock_lock :: "spinlock \<Rightarrow> spinlock option" where
  "spinlock_lock l =
     (if fst (atomic_compare_exchange (locked l) 0 1)
      then Some (l\<lparr>locked := snd (atomic_compare_exchange (locked l) 0 1)\<rparr>)
      else spinlock_lock (l\<lparr>locked := snd (atomic_compare_exchange (locked l) 0 1)\<rparr>))"

definition spinlock_unlock :: "spinlock \<Rightarrow> spinlock" where
  "spinlock_unlock l = l\<lparr>locked := 0\<rparr>"

lemma lock_free [simp]: "locked l = 0 \<Longrightarrow> spinlock_lock l = Some (l\<lparr>locked := 1\<rparr>)"
  by (subst spinlock_lock.simps) (simp add: atomic_compare_exchange_def)

lemma lock_returns_free: "spinlock_lock l = Some l' \<Longrightarrow> locked l = 0"
proof (rule spinlock_lock.raw_induct [where P = "\<lambda>l l'. locked l = 0"])
  fix f :: "spinlock \<Rightarrow> spinlock option" and l l'
  assume IH: "\<And>l l'. f l = Some l' \<Longrightarrow> locked l = 0"
    and eq: "(if fst (atomic_compare_exchange (locked l) 0 1)
      then Some (l\<lparr>locked := snd (atomic_compare_exchange (locked l) 0 1)\<rparr>)
      else f (l\<lparr>locked := snd (atomic_compare_exchange (locked l) 0 1)\<rparr>)) = Some l'"
  show "locked l = 0"
  proof (cases "locked l = 0")
    case False
    with eq have "f l = Some l'" by (simp add: atomic_compare_exchange_def)
    then show ?thesis by (rule IH)
  qed
qed

lemma lock_held: "locked l \<noteq> 0 \<Longrightarrow> spinlock_lock l = None"
  using lock_returns_free by (cases "spinlock_lock l") auto

lemma unlock_simps [simp]:
  "locked (spinlock_unlock l) = 0"
  "locked l = 0 \<Longrightarrow> spinlock_unlock (l\<lparr>locked := v\<rparr>) = l"
  by (simp_all add: spinlock_unlock_def)

lemma init_unlocked [simp]: "locked (spinlock_init l) = 0"
  by (simp add: spinlock_init_def)

subsection \<open>The contract of a lock\<close>

text \<open>
  What the critical sections rely on: a free lock can be taken, a held one blocks, and
  releasing restores what was taken. A body that runs between the two and leaves the lock
  alone is then as good as the body itself.
\<close>

locale lock_contract =
  fixes acquire :: "'l \<Rightarrow> 'l option" and release :: "'l \<Rightarrow> 'l" and is_free :: "'l \<Rightarrow> bool"
  assumes acquire_blocks: "\<not> is_free l \<Longrightarrow> acquire l = None"
    and acquire_free: "is_free l \<Longrightarrow> \<exists>l'. acquire l = Some l' \<and> \<not> is_free l' \<and> release l' = l"
    and release_free: "is_free (release l)"
begin

lemma acquire_Some: "acquire l = Some l' \<Longrightarrow> is_free l \<and> \<not> is_free l' \<and> release l' = l"
  using acquire_blocks [of l] acquire_free [of l] by (cases "is_free l") auto

lemma bracket: "is_free l \<Longrightarrow> Option.bind (acquire l) (\<lambda>l'. f (release l')) = f l"
  using acquire_free [of l] by auto

lemma no_reentry: "acquire l = Some l' \<Longrightarrow> acquire l' = None"
  using acquire_Some acquire_blocks by blast

end

interpretation spin: lock_contract spinlock_lock spinlock_unlock "\<lambda>l. locked l = 0"
  by unfold_locales (auto simp: lock_held)

subsection \<open>Threads that share one lock\<close>

text \<open>
  A thread is outside, spinning in \<open>spinlock_lock\<close>, or in the critical section. Each step is
  one atomic operation of one thread on the shared word: a compare-and-exchange that fails
  (the thread spins on), one that succeeds, or the store of \<open>spinlock_unlock\<close>.
\<close>

datatype pc = Outside | Spinning | Critical

record threads =
  pcs :: "nat \<Rightarrow> pc"
  shared_lock :: spinlock

definition threads_start :: "threads \<Rightarrow> bool" where
  "threads_start s \<longleftrightarrow> (\<forall>t. pcs s t = Outside) \<and> locked (shared_lock s) = 0"

inductive spin_step :: "threads \<Rightarrow> threads \<Rightarrow> bool" where
  enter: "pcs s t = Outside \<Longrightarrow> spin_step s (s\<lparr>pcs := (pcs s)(t := Spinning)\<rparr>)"
| cas_fail: "pcs s t = Spinning \<Longrightarrow> atomic_compare_exchange (locked (shared_lock s)) 0 1 = (False, v) \<Longrightarrow>
    spin_step s (s\<lparr>shared_lock := (shared_lock s)\<lparr>locked := v\<rparr>\<rparr>)"
| cas_win: "pcs s t = Spinning \<Longrightarrow> atomic_compare_exchange (locked (shared_lock s)) 0 1 = (True, v) \<Longrightarrow>
    spin_step s (s\<lparr>pcs := (pcs s)(t := Critical), shared_lock := (shared_lock s)\<lparr>locked := v\<rparr>\<rparr>)"
| leave: "pcs s t = Critical \<Longrightarrow>
    spin_step s (s\<lparr>pcs := (pcs s)(t := Outside), shared_lock := spinlock_unlock (shared_lock s)\<rparr>)"

definition spin_inv :: "threads \<Rightarrow> bool" where
  "spin_inv s \<longleftrightarrow> (\<forall>t u. pcs s t = Critical \<longrightarrow> pcs s u = Critical \<longrightarrow> t = u) \<and>
     (locked (shared_lock s) \<noteq> 0 \<longleftrightarrow> (\<exists>t. pcs s t = Critical))"

lemma spin_inv_step:
  assumes "spin_inv s" and "spin_step s s'"
  shows "spin_inv s'"
  using assms(2,1)
proof (cases rule: spin_step.cases)
  case (cas_win t v)
  with assms(1) show ?thesis
    by (auto simp: spin_inv_def atomic_compare_exchange_def split: if_splits)
next
  case (enter t)
  with assms(1) show ?thesis
    by (simp add: spin_inv_def) (metis pc.distinct(3))
next
  case (leave t)
  with assms(1) show ?thesis
    unfolding spin_inv_def by (auto split: if_splits)
qed (auto simp: spin_inv_def atomic_compare_exchange_def split: if_splits)

interpretation spin_sys: step_invariant threads_start spin_step spin_inv
proof (unfold_locales, goal_cases)
  case (1 s)
  then show ?case by (simp add: threads_start_def spin_inv_def)
qed (rule spin_inv_step)

subsection \<open>Properties\<close>

text \<open>
  A call of \<open>spinlock_lock\<close> by a thread that runs alone returns exactly when the lock is
  free; then the lock is held, a second call by the same thread never returns, and
  \<open>spinlock_unlock\<close> gives the lock back as it was.
\<close>

lemma lock_call:
  "(if locked l = 0
    then spinlock_lock l = Some (l\<lparr>locked := 1\<rparr>) \<and> spinlock_lock (l\<lparr>locked := 1\<rparr>) = None \<and>
      spinlock_unlock (l\<lparr>locked := 1\<rparr>) = l
    else spinlock_lock l = None)"
  using spin.no_reentry [of l "l\<lparr>locked := 1\<rparr>"] spin.acquire_blocks [of l] by auto

text \<open>
  C40: whatever the interleaving of the compare-and-exchange attempts and releases of
  any number of threads, no two threads are in the critical section at once, and while one is
  there the lock word is set.
\<close>

theorem spin_mutual_exclusion:
  assumes "reach threads_start spin_step s" and "pcs s t = Critical"
  shows "locked (shared_lock s) \<noteq> 0 \<and> (pcs s u = Critical \<longrightarrow> u = t)"
  using spin_sys.reach_inv [OF assms(1)] assms(2) by (auto simp: spin_inv_def)

theorem spin_mutual_exclusion_witness:
  "\<exists>s. reach threads_start spin_step s \<and> pcs s 1 = Critical \<and> locked (shared_lock s) \<noteq> 0 \<and>
    pcs s 2 \<noteq> Critical"
proof -
  let ?s = "\<lparr>pcs = (\<lambda>_. Outside), shared_lock = \<lparr>locked = 0\<rparr>\<rparr>"
  let ?s1 = "?s\<lparr>pcs := (pcs ?s)(1 := Spinning)\<rparr>"
  let ?s2 = "?s1\<lparr>pcs := (pcs ?s1)(1 := Critical), shared_lock := (shared_lock ?s1)\<lparr>locked := 1\<rparr>\<rparr>"
  have "reach threads_start spin_step ?s" by (rule reach_start) (simp add: threads_start_def)
  then have "reach threads_start spin_step ?s1" by (rule reach_step) (rule enter, simp)
  then have r: "reach threads_start spin_step ?s2"
    by (rule reach_step) (rule cas_win, simp_all add: atomic_compare_exchange_def)
  moreover have c: "pcs ?s2 1 = Critical" by simp
  moreover have "pcs ?s2 2 \<noteq> Critical" using spin_mutual_exclusion [OF r c, of 2] by auto
  ultimately show ?thesis using spin_mutual_exclusion [OF r c, of 2] by blast
qed

end
