(* ===== verification/Work_Queue.thy ===== *)
theory Work_Queue
  imports Atomic
begin

text \<open>
  The promotion queue of \<^verbatim>\<open>lib/work_queue.c\<close>: a ring of \<open>MAX_WORKQUEUE_SIZE\<close> works under
  its own spinlock. The abstraction \<open>items\<close> reads the ring as a list from front to rear;
  under \<open>wq_inv\<close> every operation returns, releases the lock and is a list operation on
  \<open>items\<close>. One slot stays empty, so the ring holds at most 15 works and \<open>front = rear\<close>
  means empty.
\<close>

subsection \<open>State\<close>

record work =
  work_path :: cstring
  work_index :: u32

record work_queue =
  works :: "int \<Rightarrow> work"
  front :: int
  rear :: int
  wq_size :: int
  wq_lock :: spinlock

definition work_at :: "work_queue \<Rightarrow> int \<Rightarrow> work option" where
  "work_at wq i = (if 0 \<le> i \<and> i < MAX_WORKQUEUE_SIZE then Some (works wq i) else None)"

definition put_work :: "work_queue \<Rightarrow> int \<Rightarrow> work \<Rightarrow> work_queue option" where
  "put_work wq i w =
     (if 0 \<le> i \<and> i < MAX_WORKQUEUE_SIZE then Some (wq\<lparr>works := (works wq)(i := w)\<rparr>) else None)"

definition lock_wq :: "work_queue \<Rightarrow> work_queue option" where
  "lock_wq wq = do { l \<leftarrow> spinlock_lock (wq_lock wq); Some (wq\<lparr>wq_lock := l\<rparr>) }"

definition unlock_wq :: "work_queue \<Rightarrow> work_queue" where
  "unlock_wq wq = wq\<lparr>wq_lock := spinlock_unlock (wq_lock wq)\<rparr>"

subsection \<open>Operations\<close>

definition init_work_queue :: "work_queue \<Rightarrow> work_queue" where
  "init_work_queue wq = wq\<lparr>front := 0, rear := 0, wq_size := 0,
     wq_lock := spinlock_init (wq_lock wq)\<rparr>"

definition is_full :: "work_queue \<Rightarrow> (bool \<times> work_queue) option" where
  "is_full wq = do {
     wq \<leftarrow> lock_wq wq;
     Some (wq_size wq = MAX_WORKQUEUE_SIZE, unlock_wq wq)
   }"

definition is_empty :: "work_queue \<Rightarrow> (bool \<times> work_queue) option" where
  "is_empty wq = do {
     wq \<leftarrow> lock_wq wq;
     Some (wq_size wq = 0, unlock_wq wq)
   }"

text \<open>
  The loop \<open>for (i = front; i != rear; i = (i + 1) % MAX_WORKQUEUE_SIZE)\<close> that
  \<open>contains_work\<close> and \<open>insert_work\<close> run with different tests: whether a work passes it.
\<close>

partial_function (option) scan_works :: "(work \<Rightarrow> bool) \<Rightarrow> work_queue \<Rightarrow> int \<Rightarrow> bool option" where
  "scan_works test wq i =
     (if i = rear wq then Some False
      else do {
        w \<leftarrow> work_at wq i;
        if test w then Some True
        else do {
          j \<leftarrow> c_int (i + 1);
          scan_works test wq (j smod MAX_WORKQUEUE_SIZE)
        }
      })"

definition contains_work :: "work_queue \<Rightarrow> cstring \<Rightarrow> u32 \<Rightarrow> (bool \<times> work_queue) option" where
  "contains_work wq full_path_name cache_page_index = do {
     wq \<leftarrow> lock_wq wq;
     found \<leftarrow> scan_works (\<lambda>w. work_index w = cache_page_index \<and>
       strncmp_zero (work_path w) full_path_name (length (work_path w))) wq (front wq);
     Some (found, unlock_wq wq)
   }"

definition insert_work :: "work_queue \<Rightarrow> cstring \<Rightarrow> u32 \<Rightarrow> (bool \<times> work_queue) option" where
  "insert_work wq full_path_name cache_page_index = do {
     wq \<leftarrow> lock_wq wq;
     if wq_size wq = MAX_WORKQUEUE_SIZE - 1 then Some (False, unlock_wq wq)
     else do {
       queued \<leftarrow> scan_works (\<lambda>w. work_index w = cache_page_index \<and>
         strcmp_zero (work_path w) full_path_name) wq (front wq);
       if queued then Some (False, unlock_wq wq)
       else do {
         path \<leftarrow> strcpy (MAX_PATH_SIZE + 1) full_path_name;
         wq \<leftarrow> put_work wq (rear wq) \<lparr>work_path = path, work_index = cache_page_index\<rparr>;
         r \<leftarrow> c_int (rear wq + 1);
         n \<leftarrow> c_int (wq_size wq + 1);
         Some (True, unlock_wq (wq\<lparr>rear := r smod MAX_WORKQUEUE_SIZE, wq_size := n\<rparr>))
       }
     }
   }"

definition remove_work :: "work_queue \<Rightarrow> (bool \<times> work_queue) option" where
  "remove_work wq = do {
     wq \<leftarrow> lock_wq wq;
     if wq_size wq = 0 then Some (False, unlock_wq wq)
     else do {
       f \<leftarrow> c_int (front wq + 1);
       n \<leftarrow> c_int (wq_size wq - 1);
       Some (True, unlock_wq (wq\<lparr>front := f smod MAX_WORKQUEUE_SIZE, wq_size := n\<rparr>))
     }
   }"

text \<open>
  The result pointers of \<open>peak_work\<close>: \<open>cap\<close> is the size of the caller's path buffer,
  \<open>path\<close> and \<open>index\<close> are what the two locations hold before, and the results after.
\<close>

definition peak_work :: "work_queue \<Rightarrow> nat \<Rightarrow> cstring \<Rightarrow> u32 \<Rightarrow>
    (bool \<times> cstring \<times> u32 \<times> work_queue) option" where
  "peak_work wq cap path index = do {
     wq \<leftarrow> lock_wq wq;
     if wq_size wq = 0 then Some (False, path, index, unlock_wq wq)
     else do {
       w \<leftarrow> work_at wq (front wq);
       p \<leftarrow> strcpy cap (work_path w);
       Some (True, p, work_index w, unlock_wq wq)
     }
   }"

subsection \<open>The ring as a list\<close>

definition items :: "work_queue \<Rightarrow> work list" where
  "items wq = map (\<lambda>k. works wq ((front wq + int k) mod MAX_WORKQUEUE_SIZE)) [0..<nat (wq_size wq)]"

definition wq_inv :: "work_queue \<Rightarrow> bool" where
  "wq_inv wq \<longleftrightarrow> 0 \<le> front wq \<and> front wq < MAX_WORKQUEUE_SIZE \<and>
     0 \<le> wq_size wq \<and> wq_size wq < MAX_WORKQUEUE_SIZE \<and>
     rear wq = (front wq + wq_size wq) mod MAX_WORKQUEUE_SIZE \<and>
     locked (wq_lock wq) = 0 \<and> distinct (items wq) \<and>
     (\<forall>w \<in> set (items wq). length (work_path w) \<le> MAX_PATH_SIZE)"

lemmas wq_defs = lock_wq_def unlock_wq_def work_at_def put_work_def

lemma lock_wq_free [simp]:
  "locked (wq_lock wq) = 0 \<Longrightarrow> lock_wq wq = Some (wq\<lparr>wq_lock := (wq_lock wq)\<lparr>locked := 1\<rparr>\<rparr>)"
  by (simp add: lock_wq_def)

lemma smod_16 [simp]: "0 \<le> i \<Longrightarrow> i smod 16 = i mod (16 :: int)"
  by (cases "i = 0") (auto simp: smod_int_alt_def)

lemma length_items: "length (items wq) = nat (wq_size wq)"
  by (simp add: items_def)


lemma mod_16_inj:
  "0 \<le> a \<Longrightarrow> a < 16 \<Longrightarrow> 0 \<le> b \<Longrightarrow> b < 16 \<Longrightarrow>
   (f + a) mod 16 = (f + b) mod 16 \<longleftrightarrow> a = (b :: int)"
  by (auto simp: mod_eq_dvd_iff dvd_def) presburger

lemma items_nth:
  "k < nat (wq_size wq) \<Longrightarrow> items wq ! k = works wq ((front wq + int k) mod MAX_WORKQUEUE_SIZE)"
  by (simp add: items_def)

lemma items_lock [simp]: "items (wq\<lparr>wq_lock := l\<rparr>) = items wq"
  by (simp add: items_def)

lemma items_front:
  assumes "wq_inv wq" and "wq_size wq \<noteq> 0"
  shows "items wq = works wq (front wq) # tl (items wq)"
proof -
  have "0 < nat (wq_size wq)" and "0 \<le> front wq" and "front wq < MAX_WORKQUEUE_SIZE"
    using assms by (simp_all add: wq_inv_def)
  then show ?thesis by (simp add: items_def upt_conv_Cons)
qed

text \<open>
  The scan visits the works in queue order and stops at \<open>rear\<close>: from the \<open>k\<close>-th work it
  tells whether one of the works from there on passes the test.
\<close>

lemma scan_works_items:
  assumes "wq_inv (wq\<lparr>wq_lock := l\<rparr>)" and "k \<le> nat (wq_size wq)"
  shows "scan_works test wq ((front wq + int k) mod MAX_WORKQUEUE_SIZE) =
    Some (\<exists>w \<in> set (drop k (items wq)). test w)"
  using assms(2)
proof (induction "nat (wq_size wq) - k" arbitrary: k)
  case 0
  then have k: "int k = wq_size wq" and "drop k (items wq) = []"
    using assms(1) by (auto simp: wq_inv_def length_items)
  then show ?case
    using assms(1) by (subst scan_works.simps) (simp add: wq_inv_def)
next
  case (Suc n)
  let ?i = "(front wq + int k) mod MAX_WORKQUEUE_SIZE"
  have k: "k < nat (wq_size wq)" and step: "n = nat (wq_size wq) - Suc k"
    using Suc.hyps(2) by simp_all
  have ne: "?i \<noteq> rear wq"
    using k assms(1) mod_16_inj [of "int k" "wq_size wq"]
    by (auto simp: wq_inv_def consts_simps)
  have at: "work_at wq ?i = Some (items wq ! k)"
    using k by (simp add: work_at_def items_nth consts_simps)
  have next_i: "c_int (?i + 1) = Some (?i + 1)"
    by (simp add: consts_simps)
  have wrap: "(?i + 1) smod MAX_WORKQUEUE_SIZE = (front wq + int (Suc k)) mod MAX_WORKQUEUE_SIZE"
    by (simp add: consts_simps mod_simps algebra_simps)
  have rest: "drop k (items wq) = items wq ! k # drop (Suc k) (items wq)"
    using k by (simp add: Cons_nth_drop_Suc length_items)
  show ?case
    using Suc.hyps(1) [OF step] k ne
    by (subst scan_works.simps) (simp add: at next_i wrap rest)
qed

lemma scan_from_front:
  assumes "wq_inv (wq\<lparr>wq_lock := l\<rparr>)"
  shows "scan_works test wq (front wq) = Some (\<exists>w \<in> set (items wq). test w)"
  using scan_works_items [OF assms, of 0 test] assms
  by (simp add: wq_inv_def consts_simps)


subsection \<open>Every operation is a list operation\<close>

lemma wq_inv_locked [simp]:
  "wq_inv wq \<Longrightarrow> locked (wq_lock wq) = 0"
  "wq_inv wq \<Longrightarrow> wq_inv (wq\<lparr>wq_lock := (wq_lock wq)\<lparr>locked := 1\<rparr>, wq_lock := wq_lock wq\<rparr>)"
  by (simp_all add: wq_inv_def)

lemma unlock_lock_wq [simp]:
  "wq_inv wq \<Longrightarrow> unlock_wq (wq\<lparr>wq_lock := (wq_lock wq)\<lparr>locked := 1\<rparr>\<rparr>) = wq"
  by (simp add: unlock_wq_def)

lemma scan_locked:
  assumes "wq_inv wq"
  shows "scan_works test (wq\<lparr>wq_lock := l\<rparr>) (front wq) = Some (\<exists>w \<in> set (items wq). test w)"
  using scan_from_front [where wq = "wq\<lparr>wq_lock := l\<rparr>" and l = "wq_lock wq"] assms by simp

lemma init_work_queue_inv: "wq_inv (init_work_queue wq)" "items (init_work_queue wq) = []"
  by (simp_all add: wq_inv_def init_work_queue_def items_def consts_simps)

lemma items_bound: "wq_inv wq \<Longrightarrow> length (items wq) \<le> 15"
  by (auto simp: length_items wq_inv_def consts_simps)

lemma is_empty_law: "wq_inv wq \<Longrightarrow> is_empty wq = Some (items wq = [], wq)"
  by (auto simp: is_empty_def items_def wq_inv_def unlock_wq_def)

lemma is_full_law: "wq_inv wq \<Longrightarrow> is_full wq = Some (False, wq)"
  by (auto simp: is_full_def) (simp add: wq_inv_def)

lemma contains_work_law:
  "wq_inv wq \<Longrightarrow> contains_work wq p i =
     Some (\<exists>w \<in> set (items wq). work_index w = i \<and> strncmp_zero (work_path w) p (length (work_path w)), wq)"
  by (simp add: contains_work_def scan_locked)

lemma peak_work_empty: "wq_inv wq \<Longrightarrow> items wq = [] \<Longrightarrow> peak_work wq cap p i = Some (False, p, i, wq)"
  by (auto simp: peak_work_def items_def wq_inv_def unlock_wq_def)

lemma peak_work_front:
  assumes "wq_inv wq" and "items wq = w # ws"
  shows "peak_work wq cap p i =
    (if length (work_path w) < cap then Some (True, work_path w, work_index w, wq) else None)"
proof -
  have "wq_size wq \<noteq> 0"
    using assms(2) by (auto simp: items_def)
  moreover from this have "works wq (front wq) = w"
    using items_front [OF assms(1)] assms(2) by simp
  ultimately show ?thesis
    using assms(1) by (simp add: peak_work_def work_at_def) (simp add: wq_inv_def)
qed

lemma items_dequeue:
  assumes "wq_inv wq" and "wq_size wq \<noteq> 0"
  shows "items (wq\<lparr>front := (front wq + 1) mod MAX_WORKQUEUE_SIZE, wq_size := wq_size wq - 1\<rparr>) =
    tl (items wq)"
proof -
  have "nat (wq_size wq) = Suc (nat (wq_size wq - 1))"
    using assms by (auto simp: wq_inv_def)
  then have "tl (items wq) = map (\<lambda>k. works wq ((front wq + int (Suc k)) mod MAX_WORKQUEUE_SIZE))
      [0..<nat (wq_size wq - 1)]"
    by (simp add: items_def map_Suc_upt [symmetric] upt_conv_Cons del: upt_Suc)
  then show ?thesis
    by (simp add: items_def mod_simps algebra_simps)
qed

lemma remove_work_law:
  assumes "wq_inv wq"
  shows "\<exists>wq'. remove_work wq = Some (items wq \<noteq> [], wq') \<and> wq_inv wq' \<and> items wq' = tl (items wq)"
proof (cases "wq_size wq = 0")
  case True
  then show ?thesis
    using assms by (auto simp: remove_work_def items_def)
next
  case False
  let ?wq = "wq\<lparr>front := (front wq + 1) mod MAX_WORKQUEUE_SIZE, wq_size := wq_size wq - 1\<rparr>"
  have r: "remove_work wq = Some (True, ?wq)"
    using assms False
    by (simp add: remove_work_def unlock_wq_def wq_inv_def consts_simps)
  have ne: "items wq \<noteq> []"
    using items_front [OF assms False] by auto
  have inv: "wq_inv ?wq"
    using assms False items_dequeue [OF assms False]
    by (auto simp: wq_inv_def consts_simps mod_simps distinct_tl ne dest: list.set_sel(2) [OF ne])
  with ne r inv items_dequeue [OF assms False] show ?thesis by auto
qed

lemma items_enqueue:
  assumes "wq_inv wq" and "wq_size wq \<noteq> MAX_WORKQUEUE_SIZE - 1"
  shows "items (wq\<lparr>works := (works wq)(rear wq := w), rear := r, wq_size := wq_size wq + 1\<rparr>) =
    items wq @ [w]"
proof -
  let ?n = "nat (wq_size wq)"
  have n: "nat (wq_size wq + 1) = Suc ?n"
    and pos: "(front wq + int ?n) mod MAX_WORKQUEUE_SIZE = rear wq"
    using assms(1) by (auto simp: wq_inv_def)
  have "(front wq + int k) mod MAX_WORKQUEUE_SIZE \<noteq> rear wq" if "k < ?n" for k
    using that assms(1) mod_16_inj [of "int k" "wq_size wq"]
    by (auto simp: wq_inv_def consts_simps)
  with pos show ?thesis
    by (simp add: items_def n)
qed

lemma insert_work_law:
  fixes wq :: work_queue and p :: cstring and i :: u32
  assumes "wq_inv wq" and "length p \<le> MAX_PATH_SIZE"
  defines "w \<equiv> \<lparr>work_path = p, work_index = i\<rparr>"
  defines "b \<equiv> length (items wq) < 15 \<and> w \<notin> set (items wq)"
  shows "\<exists>wq'. insert_work wq p i = Some (b, wq') \<and> wq_inv wq' \<and>
    items wq' = (if b then items wq @ [w] else items wq)"
proof -
  have full: "length (items wq) < 15 \<longleftrightarrow> wq_size wq \<noteq> MAX_WORKQUEUE_SIZE - 1"
    using assms(1) by (auto simp: length_items wq_inv_def consts_simps)
  have dup: "(\<exists>w' \<in> set (items wq). work_index w' = i \<and> strcmp_zero (work_path w') p) \<longleftrightarrow>
      w \<in> set (items wq)"
    unfolding strcmp_zero_def w_def by (metis (full_types) work.cases work.select_convs(1,2))
  show ?thesis
  proof (cases b)
    case True
    let ?wq = "wq\<lparr>works := (works wq)(rear wq := w), rear := (rear wq + 1) mod MAX_WORKQUEUE_SIZE,
      wq_size := wq_size wq + 1\<rparr>"
    have r: "insert_work wq p i = Some (True, ?wq)"
      using assms(1,2) True full dup
      by (simp add: insert_work_def scan_locked b_def put_work_def unlock_wq_def wq_inv_def
          consts_simps w_def [symmetric])
    have it: "items ?wq = items wq @ [w]"
      using True full by (intro items_enqueue [OF assms(1)]) (simp add: b_def)
    moreover have "wq_inv ?wq"
      using assms(1,2) True full it
      by (auto simp: wq_inv_def b_def w_def consts_simps mod_simps algebra_simps)
    ultimately show ?thesis using r True by auto
  next
    case False
    then have "insert_work wq p i = Some (False, wq)"
      using assms(1) full dup
      by (auto simp: insert_work_def scan_locked b_def consts_simps)
    with False assms(1) show ?thesis by auto
  qed
qed


lemma insert_work_overflow:
  assumes "wq_inv wq" and "length (items wq) < 15" and "MAX_PATH_SIZE < length p"
  shows "insert_work wq p i = None"
proof -
  have "wq_size wq \<noteq> MAX_WORKQUEUE_SIZE - 1"
    using assms(1,2) by (auto simp: length_items wq_inv_def consts_simps)
  moreover have "\<not> (\<exists>w \<in> set (items wq). work_index w = i \<and> strcmp_zero (work_path w) p)"
    using assms(1,3) by (auto simp: wq_inv_def strcmp_zero_def)
  ultimately show ?thesis
    using assms by (simp add: insert_work_def scan_locked)
qed

subsection \<open>The queue contract\<close>

text \<open>
  What a client of a bounded queue without duplicates relies on. From the two laws any
  sequence of insertions and removals is the same sequence on a plain list.
\<close>

datatype 'w queue_op = Enq 'w | Deq

fun list_queue_op :: "nat \<Rightarrow> 'w queue_op \<Rightarrow> 'w list \<Rightarrow> 'w list" where
  "list_queue_op room (Enq w) xs = (if length xs < room \<and> w \<notin> set xs then xs @ [w] else xs)"
| "list_queue_op room Deq xs = tl xs"

fun run_queue :: "('w \<Rightarrow> 'q \<Rightarrow> (bool \<times> 'q) option) \<Rightarrow> ('q \<Rightarrow> (bool \<times> 'q) option) \<Rightarrow>
    'w queue_op list \<Rightarrow> 'q \<Rightarrow> 'q option" where
  "run_queue enq deq [] q = Some q"
| "run_queue enq deq (Enq w # ops) q = do { (b, q) \<leftarrow> enq w q; run_queue enq deq ops q }"
| "run_queue enq deq (Deq # ops) q = do { (b, q) \<leftarrow> deq q; run_queue enq deq ops q }"

locale bounded_queue =
  fixes contents :: "'q \<Rightarrow> 'w list" and ok :: "'q \<Rightarrow> bool" and fits :: "'w \<Rightarrow> bool" and room :: nat
    and enq :: "'w \<Rightarrow> 'q \<Rightarrow> (bool \<times> 'q) option" and deq :: "'q \<Rightarrow> (bool \<times> 'q) option"
  assumes enq_law: "ok q \<Longrightarrow> fits w \<Longrightarrow>
      \<exists>q'. enq w q = Some (length (contents q) < room \<and> w \<notin> set (contents q), q') \<and> ok q' \<and>
        contents q' = list_queue_op room (Enq w) (contents q)"
    and deq_law: "ok q \<Longrightarrow>
      \<exists>q'. deq q = Some (contents q \<noteq> [], q') \<and> ok q' \<and> contents q' = list_queue_op room Deq (contents q)"
begin

lemma run_refines:
  "ok q \<Longrightarrow> (\<forall>w. Enq w \<in> set ops \<longrightarrow> fits w) \<Longrightarrow>
    \<exists>q'. run_queue enq deq ops q = Some q' \<and> ok q' \<and>
      contents q' = fold (list_queue_op room) ops (contents q)"
proof (induction ops arbitrary: q)
  case (Cons op ops)
  show ?case
  proof (cases op)
    case (Enq w)
    with Cons.prems enq_law [of q w] obtain b q' where "enq w q = Some (b, q')" and "ok q'"
      and "contents q' = list_queue_op room op (contents q)"
      by auto
    with Cons.IH [of q'] Cons.prems Enq show ?thesis by auto
  next
    case Deq
    with Cons.prems deq_law [of q] obtain b q' where "deq q = Some (b, q')" and "ok q'"
      and "contents q' = list_queue_op room op (contents q)"
      by auto
    with Cons.IH [of q'] Cons.prems Deq show ?thesis by auto
  qed
qed simp

end

lemma work_eta [simp]: "\<lparr>work_path = work_path w, work_index = work_index w\<rparr> = w"
  by (cases w) simp

interpretation wq: bounded_queue items wq_inv "\<lambda>w. length (work_path w) \<le> MAX_PATH_SIZE" 15
  "\<lambda>w q. insert_work q (work_path w) (work_index w)" remove_work
proof (unfold_locales, goal_cases)
  case (1 q w)
  then show ?case
    using insert_work_law [of q "work_path w" "work_index w"] by (auto split: if_splits)
next
  case (2 q)
  then show ?case
    using remove_work_law [of q] by simp
qed

lemma list_queue_bounded:
  "length xs \<le> room \<Longrightarrow> distinct xs \<Longrightarrow>
   length (fold (list_queue_op room) ops xs) \<le> room \<and> distinct (fold (list_queue_op room) ops xs)"
proof (induction ops arbitrary: xs)
  case (Cons op ops)
  then show ?case by (cases op) (auto simp: distinct_tl)
qed simp

subsection \<open>Properties\<close>

text \<open>
  C28: from any state of the ring that satisfies \<open>wq_inv\<close>, a sequence of insertions
  and removals returns and does to the works what the same sequence does to a plain list that
  takes at most 15 works and no work twice: first in, first out, with wrap-around invisible.
\<close>

theorem queue_is_bounded_list:
  assumes "wq_inv q" and "\<forall>w. Enq w \<in> set ops \<longrightarrow> length (work_path w) \<le> MAX_PATH_SIZE"
  shows "\<exists>q'. run_queue (\<lambda>w q. insert_work q (work_path w) (work_index w)) remove_work ops q = Some q' \<and>
    wq_inv q' \<and> items q' = fold (list_queue_op 15) ops (items q) \<and>
    length (items q') \<le> 15 \<and> distinct (items q')"
proof -
  obtain q' where q': "run_queue (\<lambda>w q. insert_work q (work_path w) (work_index w)) remove_work ops q = Some q'"
      "wq_inv q'" "items q' = fold (list_queue_op 15) ops (items q)"
    using wq.run_refines [OF assms] by blast
  then show ?thesis using items_bound [OF q'(2)] by (auto simp: wq_inv_def)
qed

definition sample_queue :: work_queue where
  "sample_queue = init_work_queue \<lparr>works = (\<lambda>_. \<lparr>work_path = [], work_index = 0\<rparr>), front = 3, rear = 5,
     wq_size = 2, wq_lock = \<lparr>locked = 1\<rparr>\<rparr>"

lemma sample_queue_inv: "wq_inv sample_queue" "items sample_queue = []"
  by (simp_all add: sample_queue_def init_work_queue_inv)

theorem queue_is_bounded_list_witness:
  "\<exists>q'. run_queue (\<lambda>w q. insert_work q (work_path w) (work_index w)) remove_work
      [Enq \<lparr>work_path = ''a'', work_index = 1\<rparr>, Enq \<lparr>work_path = ''b'', work_index = 2\<rparr>,
       Enq \<lparr>work_path = ''a'', work_index = 1\<rparr>, Deq] sample_queue = Some q' \<and>
    items q' = [\<lparr>work_path = ''b'', work_index = 2\<rparr>]"
  using queue_is_bounded_list [OF sample_queue_inv(1), of
      "[Enq \<lparr>work_path = ''a'', work_index = 1\<rparr>, Enq \<lparr>work_path = ''b'', work_index = 2\<rparr>,
        Enq \<lparr>work_path = ''a'', work_index = 1\<rparr>, Deq]"]
  by (auto simp: sample_queue_inv(2) consts_simps)

text \<open>
  With 15 works the ring refuses every further work and stays as it is, and yet
  \<open>is_full\<close> answers false, as it does in every state.
\<close>

lemma full_queue_refuses:
  assumes "wq_inv q" and "length (items q) = 15" and "length p \<le> MAX_PATH_SIZE"
  shows "(\<exists>q'. insert_work q p i = Some (False, q') \<and> wq_inv q' \<and> items q' = items q) \<and>
    is_full q = Some (False, q)"
  using insert_work_law [OF assms(1,3), of i] is_full_law [OF assms(1)] assms(2) by auto

text \<open>
  \<open>contains_work\<close> reports a path as queued when only a work with a shorter path and
  the same cache page is: it compares as many characters as the queued path has.
\<close>

theorem queued_prefix_blocks:
  assumes "wq_inv q" and "w \<in> set (items q)"
  shows "contains_work q (work_path w @ suffix) (work_index w) = Some (True, q)"
  using contains_work_law [OF assms(1), of "work_path w @ suffix" "work_index w"] assms(2)
  by (auto simp: strncmp_zero_def)

theorem queued_prefix_blocks_witness:
  "\<exists>q. items q = [\<lparr>work_path = ''/dev/a'', work_index = 4\<rparr>] \<and>
    contains_work q ''/dev/ab'' 4 = Some (True, q)"
proof -
  let ?w = "\<lparr>work_path = ''/dev/a'', work_index = 4\<rparr>"
  obtain q where q: "wq_inv q" "items q = [?w]"
    using insert_work_law [OF sample_queue_inv(1), of "''/dev/a''" 4]
    by (auto simp: sample_queue_inv(2) consts_simps)
  then have "?w \<in> set (items q)" by simp
  from queued_prefix_blocks [OF q(1) this, of "''b''"] q(2) show ?thesis by auto
qed

end
