(* ===== verification/Entry_List.thy ===== *)
theory Entry_List
  imports Work_Queue
begin

text \<open>
  The cache entries and the intrusive doubly linked lists of \<^verbatim>\<open>lib/ssd_cache_mapping.c\<close>.
  Entries live in one array and name each other by index; \<open>INDEXER_NULL\<close> ends a chain. A
  \<open>struct entry *\<close> is \<open>NULL\<close> or the entry's index; reading or writing through it is
  defined inside the array only. \<open>dll es l xs\<close> says that the list header \<open>l\<close> and the
  links in \<open>es\<close> spell the sequence \<open>xs\<close>; each list operation is the corresponding operation
  on sequences and touches only the links of the entries involved.
\<close>

subsection \<open>Entries\<close>

record entry =
  hash_next :: u32
  e_prev :: u32
  e_next :: u32
  param :: "3 word"
  full_path_name :: cstring
  cache_page_index :: u32

record entry_space =
  entrys :: "u32 \<Rightarrow> entry"
  es_begin :: u32
  es_end :: u32

datatype entry_ptr = NULL | Entry u32

definition INDEXER_NULL :: u32 where
  "INDEXER_NULL = push_bit 28 1 - 1"

lemma INDEXER_NULL_val [consts_simps]: "INDEXER_NULL = 268435455"
  by (simp add: INDEXER_NULL_def push_bit_eq_mult)

fun deref :: "entry_space \<Rightarrow> entry_ptr \<Rightarrow> entry option" where
  "deref es NULL = None"
| "deref es (Entry i) = (if i < CACHE_BLOCK_NUMBER then Some (entrys es i) else None)"

fun store :: "entry_space \<Rightarrow> entry_ptr \<Rightarrow> (entry \<Rightarrow> entry) \<Rightarrow> entry_space option" where
  "store es NULL f = None"
| "store es (Entry i) f =
     (if i < CACHE_BLOCK_NUMBER then Some (es\<lparr>entrys := (entrys es)(i := f (entrys es i))\<rparr>) else None)"

definition alloc_es :: "entry_space \<Rightarrow> entry_space" where
  "alloc_es es = es\<lparr>es_begin := 0, es_end := CACHE_BLOCK_NUMBER - 1\<rparr>"

definition get_entry :: "entry_space \<Rightarrow> u32 \<Rightarrow> entry_ptr option" where
  "get_entry es block = (if block < CACHE_BLOCK_NUMBER then Some (Entry block) else None)"

fun to_index :: "entry_space \<Rightarrow> entry_ptr \<Rightarrow> u32 option" where
  "to_index es NULL = None"
| "to_index es (Entry i) = Some i"

definition to_entry :: "entry_space \<Rightarrow> u32 \<Rightarrow> entry_ptr option" where
  "to_entry es block = (if block = INDEXER_NULL then Some NULL else get_entry es block)"

lemma in_array_not_null: "i < CACHE_BLOCK_NUMBER \<Longrightarrow> i \<noteq> INDEXER_NULL"
  by (auto simp: consts_simps)

lemma to_entry_simps [simp]:
  "to_entry es INDEXER_NULL = Some NULL"
  "i < CACHE_BLOCK_NUMBER \<Longrightarrow> to_entry es i = Some (Entry i)"
  by (auto simp: to_entry_def get_entry_def dest: in_array_not_null)

subsection \<open>Lists\<close>

record ilist =
  nr_elts :: u32
  head :: u32
  tail :: u32

definition l_init :: "ilist \<Rightarrow> ilist" where
  "l_init l = l\<lparr>nr_elts := 0, head := INDEXER_NULL, tail := INDEXER_NULL\<rparr>"

definition l_head :: "entry_space \<Rightarrow> ilist \<Rightarrow> entry_ptr option" where
  "l_head es l = to_entry es (head l)"

definition l_tail :: "entry_space \<Rightarrow> ilist \<Rightarrow> entry_ptr option" where
  "l_tail es l = to_entry es (tail l)"

definition l_next :: "entry_space \<Rightarrow> entry_ptr \<Rightarrow> entry_ptr option" where
  "l_next es e = do { en \<leftarrow> deref es e; to_entry es (e_next en) }"

definition l_prev :: "entry_space \<Rightarrow> entry_ptr \<Rightarrow> entry_ptr option" where
  "l_prev es e = do { en \<leftarrow> deref es e; to_entry es (e_prev en) }"

definition l_empty :: "ilist \<Rightarrow> bool" where
  "l_empty l \<longleftrightarrow> head l = INDEXER_NULL"

definition l_add_head :: "entry_space \<Rightarrow> ilist \<Rightarrow> entry_ptr \<Rightarrow> (entry_space \<times> ilist) option" where
  "l_add_head es l e = do {
     hd_ptr \<leftarrow> l_head es l;
     es \<leftarrow> store es e (\<lambda>x. x\<lparr>e_next := head l\<rparr>);
     es \<leftarrow> store es e (\<lambda>x. x\<lparr>e_prev := INDEXER_NULL\<rparr>);
     i \<leftarrow> to_index es e;
     (es, l) \<leftarrow> (if hd_ptr \<noteq> NULL
       then do {
         es \<leftarrow> store es hd_ptr (\<lambda>x. x\<lparr>e_prev := i\<rparr>);
         Some (es, l\<lparr>head := i\<rparr>)
       }
       else Some (es, l\<lparr>head := i, tail := i\<rparr>));
     Some (es, l\<lparr>nr_elts := nr_elts l + 1\<rparr>)
   }"

definition l_add_tail :: "entry_space \<Rightarrow> ilist \<Rightarrow> entry_ptr \<Rightarrow> (entry_space \<times> ilist) option" where
  "l_add_tail es l e = do {
     tl_ptr \<leftarrow> l_tail es l;
     es \<leftarrow> store es e (\<lambda>x. x\<lparr>e_next := INDEXER_NULL\<rparr>);
     es \<leftarrow> store es e (\<lambda>x. x\<lparr>e_prev := tail l\<rparr>);
     i \<leftarrow> to_index es e;
     (es, l) \<leftarrow> (if tl_ptr \<noteq> NULL
       then do {
         es \<leftarrow> store es tl_ptr (\<lambda>x. x\<lparr>e_next := i\<rparr>);
         Some (es, l\<lparr>tail := i\<rparr>)
       }
       else Some (es, l\<lparr>head := i, tail := i\<rparr>));
     Some (es, l\<lparr>nr_elts := nr_elts l + 1\<rparr>)
   }"

definition l_del :: "entry_space \<Rightarrow> ilist \<Rightarrow> entry_ptr \<Rightarrow> (entry_space \<times> ilist) option" where
  "l_del es l e = do {
     prv \<leftarrow> l_prev es e;
     nxt \<leftarrow> l_next es e;
     en \<leftarrow> deref es e;
     (es, l) \<leftarrow> (if prv \<noteq> NULL
       then do { es \<leftarrow> store es prv (\<lambda>x. x\<lparr>e_next := e_next en\<rparr>); Some (es, l) }
       else Some (es, l\<lparr>head := e_next en\<rparr>));
     en \<leftarrow> deref es e;
     (es, l) \<leftarrow> (if nxt \<noteq> NULL
       then do { es \<leftarrow> store es nxt (\<lambda>x. x\<lparr>e_prev := e_prev en\<rparr>); Some (es, l) }
       else Some (es, l\<lparr>tail := e_prev en\<rparr>));
     Some (es, l\<lparr>nr_elts := nr_elts l - 1\<rparr>)
   }"

text \<open>The loop of \<open>l_pop_head\<close> returns in its first iteration.\<close>

definition l_pop_head :: "entry_space \<Rightarrow> ilist \<Rightarrow> (entry_ptr \<times> entry_space \<times> ilist) option" where
  "l_pop_head es l = do {
     e \<leftarrow> l_head es l;
     if e \<noteq> NULL then do { (es, l) \<leftarrow> l_del es l e; Some (e, es, l) }
     else Some (NULL, es, l)
   }"

subsection \<open>The sequence that a list spells\<close>

definition first_of :: "u32 list \<Rightarrow> u32 \<Rightarrow> u32" where
  "first_of xs n = (case xs of [] \<Rightarrow> n | x # _ \<Rightarrow> x)"

definition last_of :: "u32 \<Rightarrow> u32 list \<Rightarrow> u32" where
  "last_of p xs = (if xs = [] then p else last xs)"

primrec links :: "(u32 \<Rightarrow> entry) \<Rightarrow> u32 \<Rightarrow> u32 list \<Rightarrow> u32 \<Rightarrow> bool" where
  "links f p [] n \<longleftrightarrow> True"
| "links f p (x # xs) n \<longleftrightarrow> e_prev (f x) = p \<and> e_next (f x) = first_of xs n \<and> links f x xs n"

definition dll :: "entry_space \<Rightarrow> ilist \<Rightarrow> u32 list \<Rightarrow> bool" where
  "dll es l xs \<longleftrightarrow> links (entrys es) INDEXER_NULL xs INDEXER_NULL \<and>
     head l = first_of xs INDEXER_NULL \<and> tail l = last_of INDEXER_NULL xs \<and>
     nr_elts l = of_nat (length xs) \<and> distinct xs \<and> (\<forall>x \<in> set xs. x < CACHE_BLOCK_NUMBER)"

text \<open>The sequence read off the list by following \<open>e_next\<close> for \<open>nr_elts\<close> entries.\<close>

primrec follow :: "(u32 \<Rightarrow> entry) \<Rightarrow> nat \<Rightarrow> u32 \<Rightarrow> u32 list" where
  "follow f 0 i = []"
| "follow f (Suc n) i = i # follow f n (e_next (f i))"

definition elems :: "entry_space \<Rightarrow> ilist \<Rightarrow> u32 list" where
  "elems es l = follow (entrys es) (unat (nr_elts l)) (head l)"

lemma first_of_simps [simp]: "first_of [] n = n" "first_of (x # xs) n = x"
  by (simp_all add: first_of_def)

lemma first_of_append [simp]: "first_of (xs @ ys) n = first_of xs (first_of ys n)"
  by (cases xs) simp_all

lemma last_of_simps [simp]:
  "last_of p [] = p" "last_of p (xs @ [x]) = x" "last_of p (x # xs) = last_of x xs"
  by (simp_all add: last_of_def)

lemma last_of_append [simp]: "last_of p (xs @ ys) = last_of (last_of p xs) ys"
  by (simp add: last_of_def)

lemma links_append: "links f p (xs @ ys) n \<longleftrightarrow> links f p xs (first_of ys n) \<and> links f (last_of p xs) ys n"
  by (induction xs arbitrary: p) auto

lemma links_cong:
  "(\<And>x. x \<in> set xs \<Longrightarrow> e_prev (f x) = e_prev (g x) \<and> e_next (f x) = e_next (g x)) \<Longrightarrow>
   links f p xs n \<longleftrightarrow> links g p xs n"
  by (induction xs arbitrary: p) auto

lemma follow_links: "links f p xs n \<Longrightarrow> xs \<noteq> [] \<Longrightarrow> follow f (length xs) (hd xs) = xs"
proof (induction xs arbitrary: p)
  case (Cons x xs)
  then show ?case by (cases xs) auto
qed simp

lemma dll_length: "dll es l xs \<Longrightarrow> length xs \<le> 32768"
proof -
  assume d: "dll es l xs"
  then have "card (set xs) \<le> card {i :: u32. i < CACHE_BLOCK_NUMBER}"
    by (intro card_mono) (auto simp: dll_def)
  with d show ?thesis
    by (simp add: card_below dll_def distinct_card consts_simps)
qed

lemma dll_nr_elts: "dll es l xs \<Longrightarrow> unat (nr_elts l) = length xs"
  using dll_length [of es l xs] by (simp add: dll_def unat_of_nat)

lemma dll_elems: "dll es l xs \<Longrightarrow> elems es l = xs"
  using follow_links [of "entrys es" INDEXER_NULL xs INDEXER_NULL] dll_nr_elts [of es l xs]
  by (cases xs) (auto simp: elems_def dll_def)

lemma dll_unique: "dll es l xs \<Longrightarrow> dll es l ys \<Longrightarrow> xs = ys"
  using dll_elems by metis

lemma dll_empty: "dll es l xs \<Longrightarrow> l_empty l \<longleftrightarrow> xs = []"
  by (cases xs) (auto simp: dll_def l_empty_def dest: in_array_not_null)


subsection \<open>Frames\<close>

text \<open>
  What a list operation leaves alone: entries outside \<open>A\<close> entirely, and everything but the
  two links inside \<open>A\<close>.
\<close>

definition same_data :: "entry \<Rightarrow> entry \<Rightarrow> bool" where
  "same_data e e' \<longleftrightarrow> hash_next e' = hash_next e \<and> param e' = param e \<and>
     full_path_name e' = full_path_name e \<and> cache_page_index e' = cache_page_index e"

definition link_frame :: "u32 set \<Rightarrow> entry_space \<Rightarrow> entry_space \<Rightarrow> bool" where
  "link_frame A es es' \<longleftrightarrow>
     (\<forall>y. y \<notin> A \<longrightarrow> entrys es' y = entrys es y) \<and> (\<forall>y. same_data (entrys es y) (entrys es' y))"

lemma link_frame_data:
  assumes "link_frame A es es'"
  shows "hash_next (entrys es' y) = hash_next (entrys es y)"
    and "param (entrys es' y) = param (entrys es y)"
    and "full_path_name (entrys es' y) = full_path_name (entrys es y)"
    and "cache_page_index (entrys es' y) = cache_page_index (entrys es y)"
  using assms by (simp_all add: link_frame_def same_data_def)

lemma link_frame_outside: "link_frame A es es' \<Longrightarrow> y \<notin> A \<Longrightarrow> entrys es' y = entrys es y"
  by (simp add: link_frame_def)

lemma link_frame_mono: "link_frame A es es' \<Longrightarrow> A \<subseteq> B \<Longrightarrow> link_frame B es es'"
  by (auto simp: link_frame_def)

lemma link_frame_trans:
  "link_frame A es es' \<Longrightarrow> link_frame B es' es'' \<Longrightarrow> link_frame (A \<union> B) es es''"
  by (simp add: link_frame_def same_data_def)

lemma dll_frame:
  assumes "dll es l xs" and "\<And>x. x \<in> set xs \<Longrightarrow> entrys es' x = entrys es x"
  shows "dll es' l xs"
  using assms links_cong [of xs "entrys es'" "entrys es" INDEXER_NULL INDEXER_NULL]
  by (simp add: dll_def)

lemma dll_link_frame: "dll es l xs \<Longrightarrow> link_frame A es es' \<Longrightarrow> set xs \<inter> A = {} \<Longrightarrow> dll es' l xs"
  by (erule dll_frame, rule link_frame_outside) auto

subsection \<open>Redirecting the ends of a segment\<close>

definition set_next :: "(u32 \<Rightarrow> entry) \<Rightarrow> u32 list \<Rightarrow> u32 \<Rightarrow> (u32 \<Rightarrow> entry)" where
  "set_next f xs m = (if xs = [] then f else f(last xs := (f (last xs))\<lparr>e_next := m\<rparr>))"

definition set_prev :: "(u32 \<Rightarrow> entry) \<Rightarrow> u32 list \<Rightarrow> u32 \<Rightarrow> (u32 \<Rightarrow> entry)" where
  "set_prev f xs m = (if xs = [] then f else f(hd xs := (f (hd xs))\<lparr>e_prev := m\<rparr>))"

lemma set_next_other [simp]: "x \<notin> set xs \<Longrightarrow> set_next f xs m x = f x"
  by (auto simp: set_next_def)

lemma set_prev_other [simp]: "x \<notin> set xs \<Longrightarrow> set_prev f xs m x = f x"
  by (auto simp: set_prev_def)

lemma links_upd_other [simp]: "x \<notin> set xs \<Longrightarrow> links (f(x := e)) p xs n \<longleftrightarrow> links f p xs n"
  by (rule links_cong) auto

lemma links_other [simp]:
  "set xs \<inter> set ys = {} \<Longrightarrow> links (set_next f ys m) p xs n \<longleftrightarrow> links f p xs n"
  "set xs \<inter> set ys = {} \<Longrightarrow> links (set_prev f ys m) p xs n \<longleftrightarrow> links f p xs n"
  by (rule links_cong; auto simp: disjoint_iff)+

lemma links_set_next: "links f p xs n \<Longrightarrow> distinct xs \<Longrightarrow> links (set_next f xs m) p xs m"
proof (induction xs arbitrary: p)
  case (Cons x xs)
  show ?case
  proof (cases xs)
    case Nil
    then show ?thesis using Cons.prems by (simp add: set_next_def)
  next
    case (Cons y ys)
    then have "set_next f (x # xs) m = set_next f xs m"
      by (simp add: set_next_def)
    with Cons Cons.IH Cons.prems show ?thesis by auto
  qed
qed simp

lemma links_set_prev:
  assumes "links f p xs n" and "distinct xs"
  shows "links (set_prev f xs q) q xs n"
  using assms by (cases xs) (auto simp: set_prev_def)

lemma same_data_simps [simp]:
  "same_data e e"
  "same_data e (e'\<lparr>e_prev := p\<rparr>) \<longleftrightarrow> same_data e e'"
  "same_data e (e'\<lparr>e_next := p\<rparr>) \<longleftrightarrow> same_data e e'"
  by (simp_all add: same_data_def)

lemma same_data_set_next [simp]: "same_data e (set_next f xs m y) \<longleftrightarrow> same_data e (f y)"
  by (simp add: set_next_def)

lemma same_data_set_prev [simp]: "same_data e (set_prev f xs m y) \<longleftrightarrow> same_data e (f y)"
  by (simp add: set_prev_def)

lemma dll_last_of:
  "dll es l xs \<Longrightarrow> to_entry es' (last_of INDEXER_NULL xs) = Some (if xs = [] then NULL else Entry (last xs))"
  by (auto simp: dll_def last_of_def)

lemma dll_first_of:
  "dll es l xs \<Longrightarrow> to_entry es' (first_of xs INDEXER_NULL) = Some (if xs = [] then NULL else Entry (hd xs))"
  by (cases xs) (auto simp: dll_def)

subsection \<open>The list operations on sequences\<close>

lemma l_add_tail_law:
  assumes "dll es l xs" and "x \<notin> set xs" and "x < CACHE_BLOCK_NUMBER"
  shows "\<exists>es' l'. l_add_tail es l (Entry x) = Some (es', l') \<and> dll es' l' (xs @ [x]) \<and>
    link_frame (insert x (set xs)) es es'"
proof -
  let ?f = "(entrys es)(x := (entrys es x)\<lparr>e_next := INDEXER_NULL, e_prev := tail l\<rparr>)"
  let ?es = "es\<lparr>entrys := set_next ?f xs x\<rparr>"
  let ?l = "l\<lparr>head := first_of (xs @ [x]) INDEXER_NULL, tail := x, nr_elts := nr_elts l + 1\<rparr>"
  have "last xs < CACHE_BLOCK_NUMBER" if "xs \<noteq> []"
    using that assms(1) by (simp add: dll_def)
  then have "l_add_tail es l (Entry x) = Some (?es, ?l)"
    using assms dll_last_of [OF assms(1)]
    by (cases xs) (auto simp: l_add_tail_def l_tail_def dll_def set_next_def)
  moreover have "links ?f INDEXER_NULL xs INDEXER_NULL"
    using assms links_cong [of xs ?f "entrys es"] by (auto simp: dll_def)
  then have "dll ?es ?l (xs @ [x])"
    using assms by (simp add: dll_def links_append links_set_next add.commute)
  moreover have "link_frame (insert x (set xs)) es ?es"
    by (auto simp: link_frame_def)
  ultimately show ?thesis by blast
qed

lemma l_add_head_law:
  assumes "dll es l xs" and "x \<notin> set xs" and "x < CACHE_BLOCK_NUMBER"
  shows "\<exists>es' l'. l_add_head es l (Entry x) = Some (es', l') \<and> dll es' l' (x # xs) \<and>
    link_frame (insert x (set xs)) es es'"
proof -
  let ?f = "(entrys es)(x := (entrys es x)\<lparr>e_next := head l, e_prev := INDEXER_NULL\<rparr>)"
  let ?es = "es\<lparr>entrys := set_prev ?f xs x\<rparr>"
  let ?l = "l\<lparr>head := x, tail := last_of INDEXER_NULL (x # xs), nr_elts := nr_elts l + 1\<rparr>"
  have "hd xs < CACHE_BLOCK_NUMBER" if "xs \<noteq> []"
    using that assms(1) by (simp add: dll_def)
  then have "l_add_head es l (Entry x) = Some (?es, ?l)"
    using assms dll_first_of [OF assms(1)]
    by (cases xs) (auto simp: l_add_head_def l_head_def dll_def set_prev_def last_of_def)
  moreover have "links ?f INDEXER_NULL xs INDEXER_NULL"
    using assms links_cong [of xs ?f "entrys es"] by (auto simp: dll_def)
  then have "dll ?es ?l (x # xs)"
    using assms by (simp add: dll_def links_set_prev add.commute)
  moreover have "link_frame (insert x (set xs)) es ?es"
    by (auto simp: link_frame_def)
  ultimately show ?thesis by blast
qed

lemma l_del_law:
  assumes "dll es l (as @ x # bs)"
  shows "\<exists>es' l'. l_del es l (Entry x) = Some (es', l') \<and> dll es' l' (as @ bs) \<and>
    link_frame (set as \<union> set bs) es es'"
proof -
  let ?N = INDEXER_NULL
  let ?f = "set_prev (set_next (entrys es) as (first_of bs ?N)) bs (last_of ?N as)"
  let ?es = "es\<lparr>entrys := ?f\<rparr>"
  let ?l = "l\<lparr>head := first_of (as @ bs) ?N, tail := last_of ?N (as @ bs), nr_elts := nr_elts l - 1\<rparr>"
  have d: "distinct (as @ x # bs)" and b: "\<forall>y \<in> set (as @ x # bs). y < CACHE_BLOCK_NUMBER"
    and la: "links (entrys es) ?N as x" and lb: "links (entrys es) x bs ?N"
    and ex: "e_prev (entrys es x) = last_of ?N as" "e_next (entrys es x) = first_of bs ?N"
    using assms by (auto simp: dll_def links_append)
  have "l_del es l (Entry x) = Some (?es, ?l)"
  proof (cases as rule: rev_cases)
    case Nil
    with assms d b ex show ?thesis
      by (cases bs) (auto simp: l_del_def l_prev_def l_next_def dll_def set_prev_def set_next_def last_of_def)
  next
    case (snoc as' a)
    with assms d b ex show ?thesis
      by (cases bs) (auto simp: l_del_def l_prev_def l_next_def dll_def set_prev_def set_next_def last_of_def)
  qed
  moreover have "links ?f ?N as (first_of bs ?N)"
    using links_set_next [OF la, of "first_of bs ?N"] d by simp
  moreover have "links (set_next (entrys es) as (first_of bs ?N)) x bs ?N"
    using lb d by (subst links_other) auto
  then have "links ?f (last_of ?N as) bs ?N"
    using d by (intro links_set_prev) auto
  ultimately have "dll ?es ?l (as @ bs)"
    using assms d b by (auto simp: dll_def links_append)
  moreover have "link_frame (set as \<union> set bs) es ?es"
    by (auto simp: link_frame_def)
  ultimately show ?thesis
    using \<open>l_del es l (Entry x) = Some (?es, ?l)\<close> by blast
qed

lemma l_pop_head_law:
  assumes "dll es l (x # xs)"
  shows "\<exists>es' l'. l_pop_head es l = Some (Entry x, es', l') \<and> dll es' l' xs \<and> link_frame (set xs) es es'"
  using l_del_law [of es l "[]" x xs] assms dll_first_of [OF assms]
  by (auto simp: l_pop_head_def l_head_def dll_def)


lemma dll_wf: "dll es l xs \<Longrightarrow> distinct xs \<and> (\<forall>x \<in> set xs. x < CACHE_BLOCK_NUMBER)"
  by (simp add: dll_def)

subsection \<open>The list contract\<close>

text \<open>
  What the mapping relies on when it moves entries between its queues. Two derived
  operations carry every such move: an entry goes to the tail of its own list, or from one
  list to the tail of another.
\<close>

locale intrusive_list =
  fixes spells :: "'s \<Rightarrow> 'l \<Rightarrow> u32 list \<Rightarrow> bool" and frame :: "u32 set \<Rightarrow> 's \<Rightarrow> 's \<Rightarrow> bool"
    and add_tail :: "'s \<Rightarrow> 'l \<Rightarrow> u32 \<Rightarrow> ('s \<times> 'l) option"
    and delete :: "'s \<Rightarrow> 'l \<Rightarrow> u32 \<Rightarrow> ('s \<times> 'l) option" and limit :: u32
  assumes spells_wf: "spells s l xs \<Longrightarrow> distinct xs \<and> (\<forall>x \<in> set xs. x < limit)"
    and spells_frame: "spells s l xs \<Longrightarrow> frame A s s' \<Longrightarrow> set xs \<inter> A = {} \<Longrightarrow> spells s' l xs"
    and frame_trans: "frame A s s' \<Longrightarrow> frame B s' s'' \<Longrightarrow> frame (A \<union> B) s s''"
    and frame_mono: "frame A s s' \<Longrightarrow> A \<subseteq> B \<Longrightarrow> frame B s s'"
    and add_tail_law: "spells s l xs \<Longrightarrow> x \<notin> set xs \<Longrightarrow> x < limit \<Longrightarrow>
      \<exists>s' l'. add_tail s l x = Some (s', l') \<and> spells s' l' (xs @ [x]) \<and> frame (insert x (set xs)) s s'"
    and delete_law: "spells s l (as @ x # bs) \<Longrightarrow>
      \<exists>s' l'. delete s l x = Some (s', l') \<and> spells s' l' (as @ bs) \<and> frame (set as \<union> set bs) s s'"
begin

lemma delete_mem:
  assumes "spells s l xs" and "x \<in> set xs"
  obtains s' l' where "delete s l x = Some (s', l')" and "spells s' l' (remove1 x xs)"
    and "frame (set xs - {x}) s s'"
proof -
  obtain as bs where xs: "xs = as @ x # bs" "x \<notin> set as" "x \<notin> set bs"
    using distinct_split [OF assms(2)] spells_wf [OF assms(1)] by blast
  with delete_law [of s l as x bs] assms(1) that show ?thesis
    by (auto simp: remove1_append elim: frame_mono)
qed

lemma move_to_tail:
  assumes "spells s l xs" and "x \<in> set xs"
  obtains s1 l1 s2 l2 where "delete s l x = Some (s1, l1)" and "add_tail s1 l1 x = Some (s2, l2)"
    and "spells s2 l2 (remove1 x xs @ [x])" and "frame (set xs) s s2"
proof -
  obtain s1 l1 where d: "delete s l x = Some (s1, l1)" "spells s1 l1 (remove1 x xs)"
      "frame (set xs - {x}) s s1"
    using delete_mem [OF assms] .
  have "x \<notin> set (remove1 x xs)" and "x < limit"
    using spells_wf [OF assms(1)] assms(2) by auto
  then obtain s2 l2 where a: "add_tail s1 l1 x = Some (s2, l2)" "spells s2 l2 (remove1 x xs @ [x])"
      "frame (insert x (set (remove1 x xs))) s1 s2"
    using add_tail_law [OF d(2)] by blast
  have "frame (set xs) s s2"
    using spells_wf [OF assms(1)] assms(2)
    by (intro frame_mono [OF frame_trans [OF d(3) a(3)]]) auto
  with that d a show ?thesis by blast
qed

lemma transfer_to_tail:
  assumes "spells s l xs" and "spells s k ys" and "x \<in> set xs" and "set xs \<inter> set ys = {}"
  obtains s1 l1 s2 k2 where "delete s l x = Some (s1, l1)" and "add_tail s1 k x = Some (s2, k2)"
    and "spells s2 l1 (remove1 x xs)" and "spells s2 k2 (ys @ [x])"
    and "frame (set xs \<union> set ys) s s2"
proof -
  obtain s1 l1 where d: "delete s l x = Some (s1, l1)" "spells s1 l1 (remove1 x xs)"
      "frame (set xs - {x}) s s1"
    using delete_mem [OF assms(1,3)] .
  have x: "x \<notin> set ys" "x < limit" "x \<notin> set (remove1 x xs)"
    and sub: "set (remove1 x xs) \<subseteq> set xs"
    using spells_wf [OF assms(1)] assms(3,4) by (auto dest: notin_set_remove1)
  have "spells s1 k ys"
    using spells_frame [OF assms(2) d(3)] assms(4) by auto
  then obtain s2 k2 where a: "add_tail s1 k x = Some (s2, k2)" "spells s2 k2 (ys @ [x])"
      "frame (insert x (set ys)) s1 s2"
    using add_tail_law x by blast
  have "spells s2 l1 (remove1 x xs)"
    using spells_frame [OF d(2) a(3)] assms(4) x sub by auto
  moreover have "frame (set xs \<union> set ys) s s2"
    using assms(3) by (intro frame_mono [OF frame_trans [OF d(3) a(3)]]) auto
  ultimately show ?thesis using that d(1) a(1,2) by blast
qed

end

interpretation il: intrusive_list dll link_frame "\<lambda>s l x. l_add_tail s l (Entry x)"
  "\<lambda>s l x. l_del s l (Entry x)" CACHE_BLOCK_NUMBER
  by unfold_locales
     (auto dest: dll_wf intro: dll_link_frame link_frame_trans link_frame_mono
       intro!: l_add_tail_law l_del_law)

subsection \<open>New memory\<close>

text \<open>Shared memory starts as zero.\<close>

definition zero_es :: entry_space where
  "zero_es = \<lparr>entrys = (\<lambda>_. \<lparr>hash_next = 0, e_prev = 0, e_next = 0, param = 0, full_path_name = [],
     cache_page_index = 0\<rparr>), es_begin = 0, es_end = 0\<rparr>"

definition zero_list :: ilist where
  "zero_list = \<lparr>nr_elts = 0, head = 0, tail = 0\<rparr>"


subsection \<open>Properties\<close>

text \<open>
  Deleting an entry from one list and adding it at the tail of another list over the same
  array returns, leaves the first list without the entry and otherwise in order, ends the second
  list with it, and changes no field of any entry but the links, and those of no entry outside
  the two lists.
\<close>

theorem list_transfer:
  assumes "dll es l xs" and "dll es k ys" and "x \<in> set xs" and "set xs \<inter> set ys = {}"
  shows "\<exists>es1 l1 es2 k2. l_del es l (Entry x) = Some (es1, l1) \<and> l_add_tail es1 k (Entry x) = Some (es2, k2) \<and>
    dll es2 l1 (remove1 x xs) \<and> dll es2 k2 (ys @ [x]) \<and>
    (\<forall>y. y \<notin> set xs \<union> set ys \<longrightarrow> entrys es2 y = entrys es y) \<and>
    (\<forall>y. same_data (entrys es y) (entrys es2 y))"
proof -
  obtain es1 l1 es2 k2 where "l_del es l (Entry x) = Some (es1, l1)" "l_add_tail es1 k (Entry x) = Some (es2, k2)"
      "dll es2 l1 (remove1 x xs)" "dll es2 k2 (ys @ [x])" "link_frame (set xs \<union> set ys) es es2"
    by (rule il.transfer_to_tail [OF assms])
  then show ?thesis unfolding link_frame_def by blast
qed

lemma zero_dll: "dll es (l_init l) []"
  by (simp add: dll_def l_init_def)

theorem list_transfer_witness:
  "\<exists>es l k es1 l1 es2 k2. dll es l [7, 5] \<and> dll es k [3] \<and> l_del es l (Entry 7) = Some (es1, l1) \<and>
    l_add_tail es1 k (Entry 7) = Some (es2, k2) \<and> dll es2 l1 [5] \<and> dll es2 k2 [3, 7]"
proof -
  have lt: "(7 :: u32) < CACHE_BLOCK_NUMBER" "(5 :: u32) < CACHE_BLOCK_NUMBER" "(3 :: u32) < CACHE_BLOCK_NUMBER"
    by (simp_all add: consts_simps)
  obtain e1 l1 where 1: "dll e1 l1 [7]"
    using l_add_tail_law [OF zero_dll [of zero_es zero_list], of 7] lt(1) by auto
  obtain e2 l2 where 2: "dll e2 l2 [7, 5]"
    using l_add_tail_law [OF 1, of 5] lt(2) by auto
  obtain e3 k where 3: "dll e3 k [3]" "link_frame {3} e2 e3"
    using l_add_tail_law [OF zero_dll [of e2 zero_list], of 3] lt(3) by auto
  have l: "dll e3 l2 [7, 5]" by (rule dll_link_frame [OF 2 3(2)]) simp
  have "(7 :: u32) \<in> set [7, 5]" "set [7, 5] \<inter> set [3 :: u32] = {}" by simp_all
  from list_transfer [OF l 3(1) this] l 3(1) show ?thesis by fastforce
qed

end
