(* ===== verification/Entry_Alloc.thy ===== *)
theory Entry_Alloc
  imports Entry_List
begin

text \<open>
  The flags of an entry and the entry allocator of \<^verbatim>\<open>lib/ssd_cache_mapping.c\<close>. The three
  bits of \<open>param\<close> say that an entry is being migrated (pending), that its cache block is newer
  than the file (dirty), and that it is in use (alloc). The allocator keeps the unused
  entries in a list: it takes from the head and gives back to the tail.
\<close>

unbundle bit_operations_syntax

subsection \<open>Flags\<close>

definition entry_set_pending :: "entry_space \<Rightarrow> entry_ptr \<Rightarrow> bool \<Rightarrow> entry_space option" where
  "entry_set_pending es e pending = store es e
     (\<lambda>x. if pending then x\<lparr>param := param x OR 1\<rparr> else x\<lparr>param := param x AND NOT 1\<rparr>)"

definition entry_get_pending :: "entry_space \<Rightarrow> entry_ptr \<Rightarrow> bool option" where
  "entry_get_pending es e =
     (if e = NULL then Some False else do { x \<leftarrow> deref es e; Some (param x AND 1 \<noteq> 0) })"

definition entry_set_dirty :: "entry_space \<Rightarrow> entry_ptr \<Rightarrow> bool \<Rightarrow> entry_space option" where
  "entry_set_dirty es e dirty = store es e
     (\<lambda>x. if dirty then x\<lparr>param := param x OR push_bit 1 1\<rparr>
          else x\<lparr>param := param x AND NOT (push_bit 1 1)\<rparr>)"

definition entry_get_dirty :: "entry_space \<Rightarrow> entry_ptr \<Rightarrow> bool option" where
  "entry_get_dirty es e =
     (if e = NULL then Some False else do { x \<leftarrow> deref es e; Some (param x AND push_bit 1 1 \<noteq> 0) })"

definition entry_set_alloc :: "entry_space \<Rightarrow> entry_ptr \<Rightarrow> bool \<Rightarrow> entry_space option" where
  "entry_set_alloc es e alloc = store es e
     (\<lambda>x. if alloc then x\<lparr>param := param x OR push_bit 2 1\<rparr>
          else x\<lparr>param := param x AND NOT (push_bit 2 1)\<rparr>)"

definition entry_get_alloc :: "entry_space \<Rightarrow> entry_ptr \<Rightarrow> bool option" where
  "entry_get_alloc es e =
     (if e = NULL then Some False else do { x \<leftarrow> deref es e; Some (param x AND push_bit 2 1 \<noteq> 0) })"

text \<open>The three bits as predicates of an entry, and the entry with one of them set.\<close>

definition is_pending :: "entry \<Rightarrow> bool" where "is_pending x \<longleftrightarrow> bit (param x) 0"

definition is_dirty :: "entry \<Rightarrow> bool" where "is_dirty x \<longleftrightarrow> bit (param x) 1"

definition is_alloc :: "entry \<Rightarrow> bool" where "is_alloc x \<longleftrightarrow> bit (param x) 2"

definition with_flag :: "nat \<Rightarrow> bool \<Rightarrow> entry \<Rightarrow> entry" where
  "with_flag n b x = x\<lparr>param := (if b then Bit_Operations.set_bit n (param x) else unset_bit n (param x))\<rparr>"

lemma with_flag_flags [simp]:
  "is_pending (with_flag 0 b x) = b" "is_dirty (with_flag 0 b x) = is_dirty x"
  "is_alloc (with_flag 0 b x) = is_alloc x"
  "is_pending (with_flag (Suc 0) b x) = is_pending x" "is_dirty (with_flag (Suc 0) b x) = b"
  "is_alloc (with_flag (Suc 0) b x) = is_alloc x"
  "is_pending (with_flag 2 b x) = is_pending x" "is_dirty (with_flag 2 b x) = is_dirty x"
  "is_alloc (with_flag 2 b x) = b"
  by (simp_all add: with_flag_def is_pending_def is_dirty_def is_alloc_def bit_set_bit_iff bit_unset_bit_iff)

lemma with_flag_data [simp]:
  "hash_next (with_flag n b x) = hash_next x" "e_prev (with_flag n b x) = e_prev x"
  "e_next (with_flag n b x) = e_next x" "full_path_name (with_flag n b x) = full_path_name x"
  "cache_page_index (with_flag n b x) = cache_page_index x"
  by (simp_all add: with_flag_def)

lemma set_flag_laws:
  "i < CACHE_BLOCK_NUMBER \<Longrightarrow> entry_set_pending es (Entry i) b =
     Some (es\<lparr>entrys := (entrys es)(i := with_flag 0 b (entrys es i))\<rparr>)"
  "i < CACHE_BLOCK_NUMBER \<Longrightarrow> entry_set_dirty es (Entry i) b =
     Some (es\<lparr>entrys := (entrys es)(i := with_flag 1 b (entrys es i))\<rparr>)"
  "i < CACHE_BLOCK_NUMBER \<Longrightarrow> entry_set_alloc es (Entry i) b =
     Some (es\<lparr>entrys := (entrys es)(i := with_flag 2 b (entrys es i))\<rparr>)"
  by (simp_all add: entry_set_pending_def entry_set_dirty_def entry_set_alloc_def with_flag_def
      set_bit_eq_or unset_bit_eq_and_not)

lemma get_flag_laws:
  "i < CACHE_BLOCK_NUMBER \<Longrightarrow> entry_get_pending es (Entry i) = Some (is_pending (entrys es i))"
  "i < CACHE_BLOCK_NUMBER \<Longrightarrow> entry_get_dirty es (Entry i) = Some (is_dirty (entrys es i))"
  "i < CACHE_BLOCK_NUMBER \<Longrightarrow> entry_get_alloc es (Entry i) = Some (is_alloc (entrys es i))"
  by (simp_all add: entry_get_pending_def entry_get_dirty_def entry_get_alloc_def
      is_pending_def is_dirty_def is_alloc_def bit_iff_and_push_bit_not_eq_0)

lemma link_frame_flags:
  assumes "link_frame A es es'"
  shows "is_pending (entrys es' y) = is_pending (entrys es y)"
    and "is_dirty (entrys es' y) = is_dirty (entrys es y)"
    and "is_alloc (entrys es' y) = is_alloc (entrys es y)"
  using link_frame_data [OF assms] by (simp_all add: is_pending_def is_dirty_def is_alloc_def)

subsection \<open>The allocator\<close>

record entry_alloc =
  ea_begin :: u32
  nr_allocated :: u32
  ea_free :: ilist

text \<open>The loop \<open>for (i = begin; i != end; i++)\<close> of \<open>init_allocator\<close>.\<close>

function add_range :: "entry_space \<Rightarrow> ilist \<Rightarrow> u32 \<Rightarrow> u32 \<Rightarrow> (entry_space \<times> ilist) option" where
  "add_range es l i stop =
     (if i = stop then Some (es, l)
      else do {
        e \<leftarrow> get_entry es i;
        (es, l) \<leftarrow> l_add_tail es l e;
        add_range es l (i + 1) stop
      })"
  by pat_completeness auto
termination
proof (relation "measure (\<lambda>(es, l, i, stop). unat (stop - i))", goal_cases)
  case (2 es l i stop e p es' l')
  then have "stop - i \<noteq> 0" by simp
  then have "unat (stop - i - 1) < unat (stop - i)" by (rule word_pred_measure)
  then show ?case by (simp add: diff_diff_eq)
qed simp

declare add_range.simps [simp del]

definition init_allocator ::
    "entry_alloc \<Rightarrow> entry_space \<Rightarrow> u32 \<Rightarrow> u32 \<Rightarrow> (entry_alloc \<times> entry_space) option" where
  "init_allocator ea es begin_ix end_ix = do {
     (es, l) \<leftarrow> add_range es (l_init (ea_free ea)) begin_ix end_ix;
     Some (ea\<lparr>nr_allocated := 0, ea_begin := begin_ix, ea_free := l\<rparr>, es)
   }"

definition init_entry :: "entry_space \<Rightarrow> entry_ptr \<Rightarrow> entry_space option" where
  "init_entry es e = store es e (\<lambda>x. x\<lparr>hash_next := INDEXER_NULL, e_prev := INDEXER_NULL,
     e_next := INDEXER_NULL, param := 0, full_path_name := [], cache_page_index := INDEXER_NULL\<rparr>)"

definition alloc_entry ::
    "entry_alloc \<Rightarrow> entry_space \<Rightarrow> (entry_ptr \<times> entry_alloc \<times> entry_space) option" where
  "alloc_entry ea es =
     (if l_empty (ea_free ea) then Some (NULL, ea, es)
      else do {
        (e, es, l) \<leftarrow> l_pop_head es (ea_free ea);
        es \<leftarrow> init_entry es e;
        es \<leftarrow> entry_set_alloc es e True;
        Some (e, ea\<lparr>ea_free := l, nr_allocated := nr_allocated ea + 1\<rparr>, es)
      })"

definition free_entry ::
    "entry_alloc \<Rightarrow> entry_space \<Rightarrow> entry_ptr \<Rightarrow> (entry_alloc \<times> entry_space) option" where
  "free_entry ea es e = do {
     es \<leftarrow> entry_set_alloc es e False;
     (es, l) \<leftarrow> l_add_tail es (ea_free ea) e;
     Some (ea\<lparr>nr_allocated := nr_allocated ea - 1, ea_free := l\<rparr>, es)
   }"

definition allocator_empty :: "entry_alloc \<Rightarrow> bool" where
  "allocator_empty ea \<longleftrightarrow> l_empty (ea_free ea)"

definition get_index :: "entry_alloc \<Rightarrow> entry_space \<Rightarrow> entry_ptr \<Rightarrow> u32 option" where
  "get_index ea es e = do { i \<leftarrow> to_index es e; Some (i - ea_begin ea) }"


subsection \<open>The allocator as a queue of free entries\<close>

definition index_range :: "u32 \<Rightarrow> u32 \<Rightarrow> u32 list" where
  "index_range i stop = map of_nat [unat i..<unat stop]"

lemma index_range_Nil [simp]: "index_range i i = []"
  by (simp add: index_range_def)

lemma unat_Suc: "(i :: u32) < stop \<Longrightarrow> unat (i + 1) = Suc (unat i)"
  using unat_lt [of stop] by (simp add: unat_word_ariths word_less_nat_alt)

lemma index_range_Cons: "i < stop \<Longrightarrow> index_range i stop = i # index_range (i + 1) stop"
  by (simp add: index_range_def unat_Suc upt_conv_Cons word_less_nat_alt)

lemma set_index_range: "set (index_range i stop) = {x. i \<le> x \<and> x < stop}"
proof (intro equalityI subsetI)
  fix x
  assume "x \<in> set (index_range i stop)"
  then obtain k where "x = of_nat k" and k: "unat i \<le> k" "k < unat stop"
    by (auto simp: index_range_def)
  moreover have "k < 2 ^ 32"
    using k(2) unat_lt [of stop] by simp
  ultimately show "x \<in> {x. i \<le> x \<and> x < stop}"
    by (simp add: word_le_nat_alt word_less_nat_alt unat_of_nat_lt_len)
next
  fix x
  assume "x \<in> {x. i \<le> x \<and> x < stop}"
  then show "x \<in> set (index_range i stop)"
    by (auto simp: index_range_def word_le_nat_alt word_less_nat_alt
        intro!: image_eqI [where x = "unat x"])
qed

lemma add_range_law:
  assumes "i \<le> stop" and "stop \<le> CACHE_BLOCK_NUMBER" and "dll es l xs" and "\<forall>x \<in> set xs. x < i"
  shows "\<exists>es' l'. add_range es l i stop = Some (es', l') \<and> dll es' l' (xs @ index_range i stop) \<and>
    link_frame (set xs \<union> {x. x < stop}) es es'"
  using assms
proof (induction es l i stop arbitrary: xs rule: add_range.induct)
  case (1 es l i stop)
  show ?case
  proof (cases "i = stop")
    case True
    with 1 show ?thesis
      by (subst add_range.simps) (simp add: link_frame_def)
  next
    case False
    with 1 have i: "i < stop" "i < CACHE_BLOCK_NUMBER" "i \<notin> set xs" by auto
    obtain es1 l1 where a: "l_add_tail es l (Entry i) = Some (es1, l1)" "dll es1 l1 (xs @ [i])"
      and f1: "link_frame (insert i (set xs)) es es1"
      using l_add_tail_law [OF "1.prems"(3) i(3,2)] by blast
    have le: "i + 1 \<le> stop" and lt: "\<forall>x \<in> set (xs @ [i]). x < i + 1"
      using i(1) "1.prems"(4) by (auto simp: word_le_nat_alt word_less_nat_alt unat_Suc less_Suc_eq)
    obtain es2 l2 where r: "add_range es1 l1 (i + 1) stop = Some (es2, l2)"
        "dll es2 l2 ((xs @ [i]) @ index_range (i + 1) stop)"
      and f2: "link_frame (set (xs @ [i]) \<union> {x. x < stop}) es1 es2"
      using "1.IH" [OF False _ _ refl le "1.prems"(2) a(2) lt] a(1) i(2)
      by (auto simp: get_entry_def)
    have "link_frame (set xs \<union> {x. x < stop}) es es2"
      using i(1) by (intro link_frame_mono [OF link_frame_trans [OF f1 f2]]) auto
    with r a(1) i False show ?thesis
      by (subst add_range.simps) (simp add: get_entry_def index_range_Cons)
  qed
qed

lemma l_init_dll [simp]: "dll es (l_init l) []"
  by (simp add: dll_def l_init_def)

lemma init_allocator_law:
  assumes "n \<le> CACHE_BLOCK_NUMBER"
  shows "\<exists>ea' es'. init_allocator ea es 0 n = Some (ea', es') \<and>
    dll es' (ea_free ea') (index_range 0 n) \<and> nr_allocated ea' = 0 \<and> ea_begin ea' = 0 \<and>
    link_frame {x. x < n} es es'"
  using add_range_law [of 0 n es "l_init (ea_free ea)" "[]"] assms
  by (auto simp: init_allocator_def)

text \<open>A fresh entry: every field reset and only the alloc bit set.\<close>

definition fresh_entry :: "entry \<Rightarrow> entry" where
  "fresh_entry x = with_flag 2 True (x\<lparr>hash_next := INDEXER_NULL, e_prev := INDEXER_NULL,
     e_next := INDEXER_NULL, param := 0, full_path_name := [], cache_page_index := INDEXER_NULL\<rparr>)"

lemma fresh_entry_flags [simp]:
  "is_alloc (fresh_entry x)" "\<not> is_pending (fresh_entry x)" "\<not> is_dirty (fresh_entry x)"
proof -
  let ?x = "x\<lparr>hash_next := INDEXER_NULL, e_prev := INDEXER_NULL, e_next := INDEXER_NULL,
    param := 0, full_path_name := [], cache_page_index := INDEXER_NULL\<rparr>"
  have "\<not> is_pending ?x" and "\<not> is_dirty ?x"
    by (simp_all add: is_pending_def is_dirty_def)
  then show "is_alloc (fresh_entry x)" "\<not> is_pending (fresh_entry x)" "\<not> is_dirty (fresh_entry x)"
    by (simp_all add: fresh_entry_def)
qed

lemma alloc_entry_law:
  assumes "dll es (ea_free ea) (x # xs)"
  shows "\<exists>es1 l'. alloc_entry ea es =
      Some (Entry x, ea\<lparr>ea_free := l', nr_allocated := nr_allocated ea + 1\<rparr>,
        es1\<lparr>entrys := (entrys es1)(x := fresh_entry (entrys es1 x))\<rparr>) \<and>
    dll (es1\<lparr>entrys := (entrys es1)(x := fresh_entry (entrys es1 x))\<rparr>) l' xs \<and>
    link_frame (set xs) es es1"
proof -
  obtain es1 l' where p: "l_pop_head es (ea_free ea) = Some (Entry x, es1, l')" "dll es1 l' xs"
      "link_frame (set xs) es es1"
    using l_pop_head_law [OF assms] by blast
  have x: "x < CACHE_BLOCK_NUMBER" "x \<notin> set xs" and ne: "\<not> l_empty (ea_free ea)"
    using assms dll_empty [OF assms] by (simp_all add: dll_def)
  have "alloc_entry ea es =
      Some (Entry x, ea\<lparr>ea_free := l', nr_allocated := nr_allocated ea + 1\<rparr>,
        es1\<lparr>entrys := (entrys es1)(x := fresh_entry (entrys es1 x))\<rparr>)"
    using x ne p(1) by (simp add: alloc_entry_def init_entry_def set_flag_laws fresh_entry_def)
  moreover have "dll (es1\<lparr>entrys := (entrys es1)(x := fresh_entry (entrys es1 x))\<rparr>) l' xs"
    using p(2) x(2) by (intro dll_frame [OF p(2)]) auto
  ultimately show ?thesis using p(3) by blast
qed

lemma alloc_entry_empty: "dll es (ea_free ea) [] \<Longrightarrow> alloc_entry ea es = Some (NULL, ea, es)"
  by (simp add: alloc_entry_def dll_empty)

lemma allocator_empty_law: "dll es (ea_free ea) xs \<Longrightarrow> allocator_empty ea \<longleftrightarrow> xs = []"
  by (simp add: allocator_empty_def dll_empty)

lemma free_entry_law:
  assumes "dll es (ea_free ea) xs" and "x \<notin> set xs" and "x < CACHE_BLOCK_NUMBER"
  shows "\<exists>es' l'. free_entry ea es (Entry x) =
      Some (ea\<lparr>nr_allocated := nr_allocated ea - 1, ea_free := l'\<rparr>, es') \<and>
    dll es' l' (xs @ [x]) \<and>
    link_frame (insert x (set xs)) (es\<lparr>entrys := (entrys es)(x := with_flag 2 False (entrys es x))\<rparr>) es'"
proof -
  let ?es = "es\<lparr>entrys := (entrys es)(x := with_flag 2 False (entrys es x))\<rparr>"
  have "dll ?es (ea_free ea) xs"
    using assms(2) by (intro dll_frame [OF assms(1)]) auto
  then obtain es' l' where "l_add_tail ?es (ea_free ea) (Entry x) = Some (es', l')"
      "dll es' l' (xs @ [x])" "link_frame (insert x (set xs)) ?es es'"
    using l_add_tail_law assms by blast
  then show ?thesis using assms(3) by (auto simp: free_entry_def set_flag_laws)
qed

subsection \<open>Properties\<close>

text \<open>
  The allocator is a queue of free entries. Taking an entry gives the one that has been
  free longest, marked as in use and with every other field reset; giving it back puts it behind
  all others, clears its mark and restores the count of entries in use.
\<close>

theorem alloc_free_cycle:
  assumes "dll es (ea_free ea) (x # xs)"
  shows "\<exists>ea1 es1 ea2 es2. alloc_entry ea es = Some (Entry x, ea1, es1) \<and>
    is_alloc (entrys es1 x) \<and> \<not> is_pending (entrys es1 x) \<and> \<not> is_dirty (entrys es1 x) \<and>
    nr_allocated ea1 = nr_allocated ea + 1 \<and> dll es1 (ea_free ea1) xs \<and>
    free_entry ea1 es1 (Entry x) = Some (ea2, es2) \<and> \<not> is_alloc (entrys es2 x) \<and>
    dll es2 (ea_free ea2) (xs @ [x]) \<and> nr_allocated ea2 = nr_allocated ea"
proof -
  obtain e l' where a: "alloc_entry ea es = Some (Entry x,
        ea\<lparr>ea_free := l', nr_allocated := nr_allocated ea + 1\<rparr>, e\<lparr>entrys := (entrys e)(x := fresh_entry (entrys e x))\<rparr>)"
      "dll (e\<lparr>entrys := (entrys e)(x := fresh_entry (entrys e x))\<rparr>) l' xs"
    using alloc_entry_law [OF assms] by blast
  let ?ea1 = "ea\<lparr>ea_free := l', nr_allocated := nr_allocated ea + 1\<rparr>"
  let ?es1 = "e\<lparr>entrys := (entrys e)(x := fresh_entry (entrys e x))\<rparr>"
  have x: "x \<notin> set xs" "x < CACHE_BLOCK_NUMBER" using dll_wf [OF assms] by auto
  have d: "dll ?es1 (ea_free ?ea1) xs" using a(2) by simp
  obtain es2 l2 where f: "free_entry ?ea1 ?es1 (Entry x) =
        Some (?ea1\<lparr>nr_allocated := nr_allocated ?ea1 - 1, ea_free := l2\<rparr>, es2)" "dll es2 l2 (xs @ [x])"
      "link_frame (insert x (set xs)) (?es1\<lparr>entrys := (entrys ?es1)(x := with_flag 2 False (entrys ?es1 x))\<rparr>) es2"
    using free_entry_law [OF d x] by blast
  have "\<not> is_alloc (entrys es2 x)"
    using link_frame_flags(3) [OF f(3), of x] by simp
  with a(1) d f(1,2) show ?thesis
    by (intro exI [of _ ?ea1] exI [of _ ?es1] exI [of _ es2]
        exI [of _ "?ea1\<lparr>nr_allocated := nr_allocated ?ea1 - 1, ea_free := l2\<rparr>"]) simp
qed

theorem alloc_free_cycle_witness:
  "\<exists>ea es ea1 es1 ea2 es2. init_allocator \<lparr>ea_begin = 0, nr_allocated = 0, ea_free = zero_list\<rparr> zero_es 0 3 = Some (ea, es) \<and>
    alloc_entry ea es = Some (Entry 0, ea1, es1) \<and> free_entry ea1 es1 (Entry 0) = Some (ea2, es2) \<and>
    dll es2 (ea_free ea2) [1, 2, 0]"
proof -
  have "(3 :: u32) \<le> CACHE_BLOCK_NUMBER" by (simp add: consts_simps)
  then obtain ea es where i: "init_allocator \<lparr>ea_begin = 0, nr_allocated = 0, ea_free = zero_list\<rparr> zero_es 0 3 = Some (ea, es)"
      "dll es (ea_free ea) (index_range 0 3)"
    using init_allocator_law [where n = 3 and es = zero_es] by blast
  have r: "index_range 0 3 = [0, 1, 2]" by (simp add: index_range_def upt_rec)
  from alloc_free_cycle [OF i(2) [unfolded r]] i(1) show ?thesis by fastforce
qed

end
