(* ===== verification/Hash_Table.thy ===== *)
theory Hash_Table
  imports Entry_Alloc
begin

text \<open>
  The hash table of \<^verbatim>\<open>lib/ssd_cache_mapping.c\<close>: the djb2 hash of a path and a cache
  page, buckets that start chains through \<open>hash_next\<close>, and the move of a found entry to the
  front of its chain. \<open>htab es ht H\<close> says that the chains hold exactly the entries of \<open>H\<close>,
  each in the bucket of its key. Under it lookup, insertion and removal return, and are
  lookup, insertion and removal in the set \<open>H\<close>.
\<close>

unbundle bit_operations_syntax

subsection \<open>The hash\<close>

text \<open>A \<open>char\<close> is signed on the x86-64 target, so it is sign extended when added.\<close>

definition char_val :: "char \<Rightarrow> u32" where
  "char_val c = signed (of_char c :: 8 word)"

definition hash_step :: "u32 \<Rightarrow> char \<Rightarrow> u32" where
  "hash_step hash_val c = (push_bit 5 hash_val + hash_val) + char_val c"

definition hash_32 :: "cstring \<Rightarrow> u32 \<Rightarrow> u64 \<Rightarrow> u32 option" where
  "hash_32 path cp bits =
     (let hash_val = (push_bit 5 5381 + 5381) + cp;
          hash_val = foldl hash_step hash_val path;
          sh = 32 - bits
      in if sh < 32 then Some (drop_bit (unat sh) (push_bit (unat sh) hash_val)) else None)"

type_synonym key = "cstring \<times> u32"

definition ekey :: "entry \<Rightarrow> key" where
  "ekey x = (full_path_name x, cache_page_index x)"

definition bucket_of :: "key \<Rightarrow> u32" where
  "bucket_of k = take_bit 17 (foldl hash_step ((push_bit 5 5381 + 5381) + snd k) (fst k))"

lemma drop_push_15: "drop_bit 15 (push_bit 15 (h :: u32)) = take_bit 17 h"
  by (rule bit_eqI) (auto simp: bit_simps)

lemma hash_32_law: "hash_32 p c 17 = Some (bucket_of (p, c))"
  by (simp add: hash_32_def bucket_of_def drop_push_15)

lemma bucket_of_lt [simp]: "bucket_of k < BUCKETS_NUMBER"
proof -
  have "unat (take_bit 17 h) < 131072" for h :: u32
    using take_bit_nat_less_exp [of 17 "unat h"] by (simp add: unsigned_take_bit_eq)
  then show ?thesis by (simp add: bucket_of_def consts_simps word_less_nat_alt)
qed

subsection \<open>Buckets and chains\<close>

record hash_table =
  hash_bits :: u64
  buckets :: "u32 \<Rightarrow> u32"

definition bucket_at :: "hash_table \<Rightarrow> u32 \<Rightarrow> u32 option" where
  "bucket_at ht b = (if b < BUCKETS_NUMBER then Some (buckets ht b) else None)"

definition set_bucket :: "hash_table \<Rightarrow> u32 \<Rightarrow> u32 \<Rightarrow> hash_table option" where
  "set_bucket ht b i =
     (if b < BUCKETS_NUMBER then Some (ht\<lparr>buckets := (buckets ht)(b := i)\<rparr>) else None)"

text \<open>\<open>__builtin_clz\<close>: the number of leading zeros, undefined on 0.\<close>

definition builtin_clz :: "u32 \<Rightarrow> int option" where
  "builtin_clz x =
     (if x = 0 then None else Some (int (length (takeWhile (\<lambda>i. \<not> bit x i) (rev [0..<32])))))"

text \<open>The loop of \<open>alloc_hash_table\<close> over the buckets.\<close>

function clear_buckets :: "hash_table \<Rightarrow> u32 \<Rightarrow> hash_table" where
  "clear_buckets ht i =
     (if i < BUCKETS_NUMBER
      then clear_buckets (ht\<lparr>buckets := (buckets ht)(i := INDEXER_NULL)\<rparr>) (i + 1)
      else ht)"
  by pat_completeness auto
termination
proof (relation "measure (\<lambda>(ht, i). unat (BUCKETS_NUMBER - i))", goal_cases)
  case (2 ht i)
  then have "BUCKETS_NUMBER - i \<noteq> 0" by simp
  then have "unat (BUCKETS_NUMBER - i - 1) < unat (BUCKETS_NUMBER - i)" by (rule word_pred_measure)
  then show ?case by (simp add: diff_diff_eq)
qed simp

declare clear_buckets.simps [simp del]

definition alloc_hash_table :: "hash_table \<Rightarrow> hash_table option" where
  "alloc_hash_table ht = do {
     z \<leftarrow> builtin_clz BUCKETS_NUMBER;
     Some (clear_buckets (ht\<lparr>hash_bits := of_int (31 - z)\<rparr>) 0)
   }"

definition h_head :: "hash_table \<Rightarrow> entry_space \<Rightarrow> u32 \<Rightarrow> entry_ptr option" where
  "h_head ht es b = do { i \<leftarrow> bucket_at ht b; to_entry es i }"

definition h_next :: "hash_table \<Rightarrow> entry_space \<Rightarrow> entry_ptr \<Rightarrow> entry_ptr option" where
  "h_next ht es e = do { x \<leftarrow> deref es e; to_entry es (hash_next x) }"

definition raw_h_insert ::
    "hash_table \<Rightarrow> entry_space \<Rightarrow> u32 \<Rightarrow> entry_ptr \<Rightarrow> (hash_table \<times> entry_space) option" where
  "raw_h_insert ht es b e = do {
     i \<leftarrow> bucket_at ht b;
     es \<leftarrow> store es e (\<lambda>x. x\<lparr>hash_next := i\<rparr>);
     j \<leftarrow> to_index es e;
     ht \<leftarrow> set_bucket ht b j;
     Some (ht, es)
   }"

definition h_insert :: "hash_table \<Rightarrow> entry_space \<Rightarrow> entry_ptr \<Rightarrow> (hash_table \<times> entry_space) option" where
  "h_insert ht es e = do {
     x \<leftarrow> deref es e;
     h \<leftarrow> hash_32 (full_path_name x) (cache_page_index x) (hash_bits ht);
     raw_h_insert ht es h e
   }"

text \<open>The loop of \<open>__h_lookup\<close> from entry \<open>e\<close> with \<open>*prev\<close> as it is then.\<close>

partial_function (option) scan_chain ::
    "hash_table \<Rightarrow> entry_space \<Rightarrow> cstring \<Rightarrow> u32 \<Rightarrow> entry_ptr \<Rightarrow> entry_ptr \<Rightarrow> (entry_ptr \<times> entry_ptr) option" where
  "scan_chain ht es path cp e prv =
     (if e = NULL then Some (NULL, prv)
      else do {
        x \<leftarrow> deref es e;
        if cp = cache_page_index x \<and> strcmp_zero path (full_path_name x) then Some (e, prv)
        else do {
          nxt \<leftarrow> h_next ht es e;
          scan_chain ht es path cp nxt e
        }
      })"

definition raw_h_lookup ::
    "hash_table \<Rightarrow> entry_space \<Rightarrow> u32 \<Rightarrow> cstring \<Rightarrow> u32 \<Rightarrow> (entry_ptr \<times> entry_ptr) option" where
  "raw_h_lookup ht es h path cp = do {
     e \<leftarrow> h_head ht es h;
     scan_chain ht es path cp e NULL
   }"

definition raw_h_unlink ::
    "hash_table \<Rightarrow> entry_space \<Rightarrow> u32 \<Rightarrow> entry_ptr \<Rightarrow> entry_ptr \<Rightarrow> (hash_table \<times> entry_space) option" where
  "raw_h_unlink ht es h e prv = do {
     x \<leftarrow> deref es e;
     if prv \<noteq> NULL
     then do { es \<leftarrow> store es prv (\<lambda>y. y\<lparr>hash_next := hash_next x\<rparr>); Some (ht, es) }
     else do { ht \<leftarrow> set_bucket ht h (hash_next x); Some (ht, es) }
   }"

definition h_lookup ::
    "hash_table \<Rightarrow> entry_space \<Rightarrow> cstring \<Rightarrow> u32 \<Rightarrow> (entry_ptr \<times> hash_table \<times> entry_space) option" where
  "h_lookup ht es path cp = do {
     h \<leftarrow> hash_32 path cp (hash_bits ht);
     (e, prv) \<leftarrow> raw_h_lookup ht es h path cp;
     if e \<noteq> NULL \<and> prv \<noteq> NULL
     then do {
       (ht, es) \<leftarrow> raw_h_unlink ht es h e prv;
       (ht, es) \<leftarrow> raw_h_insert ht es h e;
       Some (e, ht, es)
     }
     else Some (e, ht, es)
   }"

definition h_remove :: "hash_table \<Rightarrow> entry_space \<Rightarrow> entry_ptr \<Rightarrow> (hash_table \<times> entry_space) option" where
  "h_remove ht es e = do {
     x \<leftarrow> deref es e;
     h \<leftarrow> hash_32 (full_path_name x) (cache_page_index x) (hash_bits ht);
     (e, prv) \<leftarrow> raw_h_lookup ht es h (full_path_name x) (cache_page_index x);
     if e \<noteq> NULL then raw_h_unlink ht es h e prv else Some (ht, es)
   }"

subsection \<open>The set of entries in the table\<close>

primrec hpath :: "(u32 \<Rightarrow> entry) \<Rightarrow> u32 \<Rightarrow> u32 list \<Rightarrow> u32 \<Rightarrow> bool" where
  "hpath f p [] q \<longleftrightarrow> p = q"
| "hpath f p (x # xs) q \<longleftrightarrow> p = x \<and> x < CACHE_BLOCK_NUMBER \<and> hpath f (hash_next (f x)) xs q"

definition htab :: "entry_space \<Rightarrow> hash_table \<Rightarrow> u32 set \<Rightarrow> bool" where
  "htab es ht H \<longleftrightarrow> hash_bits ht = 17 \<and> (\<forall>x \<in> H. x < CACHE_BLOCK_NUMBER) \<and>
     (\<forall>b < BUCKETS_NUMBER. \<exists>xs. hpath (entrys es) (buckets ht b) xs INDEXER_NULL \<and> distinct xs \<and>
        set xs = {x \<in> H. bucket_of (ekey (entrys es x)) = b})"

definition hash_frame :: "entry_space \<Rightarrow> entry_space \<Rightarrow> bool" where
  "hash_frame es es' \<longleftrightarrow> (\<forall>y. e_prev (entrys es' y) = e_prev (entrys es y) \<and>
     e_next (entrys es' y) = e_next (entrys es y) \<and> param (entrys es' y) = param (entrys es y) \<and>
     full_path_name (entrys es' y) = full_path_name (entrys es y) \<and>
     cache_page_index (entrys es' y) = cache_page_index (entrys es y))"

lemma clear_buckets_law:
  "clear_buckets ht i =
     ht\<lparr>buckets := \<lambda>j. if i \<le> j \<and> j < BUCKETS_NUMBER then INDEXER_NULL else buckets ht j\<rparr>"
proof (induction ht i rule: clear_buckets.induct)
  case (1 ht i)
  show ?case
  proof (cases "i < BUCKETS_NUMBER")
    case True
    have le: "i + 1 \<le> j \<longleftrightarrow> i < j" for j
      using unat_Suc [OF True] by (simp add: word_le_nat_alt word_less_nat_alt Suc_le_eq)
    have eq: "(i \<le> j \<and> j < BUCKETS_NUMBER) = (j = i \<or> (i + 1 \<le> j \<and> j < BUCKETS_NUMBER))" for j
      unfolding le using True by (auto simp: order.order_iff_strict)
    show ?thesis
      using 1 [OF True] True
      by (subst clear_buckets.simps) (auto simp: eq fun_eq_iff)
  next
    case False
    then have "(\<lambda>j. if i \<le> j \<and> j < BUCKETS_NUMBER then INDEXER_NULL else buckets ht j) = buckets ht"
      by (auto simp: fun_eq_iff)
    with False show ?thesis by (subst clear_buckets.simps) simp
  qed
qed

lemma builtin_clz_buckets: "builtin_clz BUCKETS_NUMBER = Some 14"
  unfolding BUCKETS_NUMBER_val by code_simp

lemma alloc_hash_table_law:
  "\<exists>ht'. alloc_hash_table ht = Some ht' \<and> htab es ht' {}"
  by (auto simp: alloc_hash_table_def builtin_clz_buckets clear_buckets_law htab_def
      intro!: exI [of _ "[]"])


lemma hpath_append: "hpath f p (xs @ ys) q \<longleftrightarrow> (\<exists>r. hpath f p xs r \<and> hpath f r ys q)"
  by (induction xs arbitrary: p) auto

lemma hpath_cong: "(\<And>x. x \<in> set xs \<Longrightarrow> hash_next (f x) = hash_next (g x)) \<Longrightarrow>
    hpath f p xs q \<longleftrightarrow> hpath g p xs q"
  by (induction xs arbitrary: p) auto

lemma hpath_upd_other [simp]: "x \<notin> set xs \<Longrightarrow> hpath (f(x := e)) p xs q \<longleftrightarrow> hpath f p xs q"
  by (rule hpath_cong) auto

lemma hpath_bounds: "hpath f p xs q \<Longrightarrow> x \<in> set xs \<Longrightarrow> x < CACHE_BLOCK_NUMBER"
  by (induction xs arbitrary: p) auto

lemma hpath_to_entry:
  "hpath f p xs INDEXER_NULL \<Longrightarrow> to_entry es p = Some (if xs = [] then NULL else Entry (hd xs))"
  by (cases xs) auto

lemma htab_chain:
  assumes "htab es ht H"
  obtains xs where "hpath (entrys es) (buckets ht (bucket_of k)) xs INDEXER_NULL" and "distinct xs"
    and "set xs = {x \<in> H. bucket_of (ekey (entrys es x)) = bucket_of k}"
  using assms unfolding htab_def by (meson bucket_of_lt)

lemma htab_cong:
  assumes "htab es ht H"
    and "\<And>x. x \<in> H \<Longrightarrow> hash_next (entrys es' x) = hash_next (entrys es x)"
    and "\<And>x. x \<in> H \<Longrightarrow> ekey (entrys es' x) = ekey (entrys es x)"
  shows "htab es' ht H"
  unfolding htab_def
proof (intro conjI allI impI)
  fix b
  assume "b < BUCKETS_NUMBER"
  then obtain xs where "hpath (entrys es) (buckets ht b) xs INDEXER_NULL" "distinct xs"
    and xs: "set xs = {x \<in> H. bucket_of (ekey (entrys es x)) = b}"
    using assms(1) unfolding htab_def by meson
  moreover have "set xs = {x \<in> H. bucket_of (ekey (entrys es' x)) = b}"
    using xs assms(3) by auto
  moreover have "hpath (entrys es') (buckets ht b) xs INDEXER_NULL"
    using calculation(1) xs assms(2) hpath_cong [of xs "entrys es'" "entrys es"] by auto
  ultimately show "\<exists>xs. hpath (entrys es') (buckets ht b) xs INDEXER_NULL \<and> distinct xs \<and>
      set xs = {x \<in> H. bucket_of (ekey (entrys es' x)) = b}"
    by blast
qed (use assms(1) in \<open>auto simp: htab_def\<close>)

text \<open>One chain is replaced, the others stay: the rule behind every change of the table.\<close>

lemma htab_replace_chain:
  assumes "htab es ht H" and "b < BUCKETS_NUMBER"
    and "hash_bits ht' = hash_bits ht" and "\<And>b'. b' \<noteq> b \<Longrightarrow> buckets ht' b' = buckets ht b'"
    and "\<And>y. ekey (entrys es' y) = ekey (entrys es y)"
    and "\<And>y. y \<in> H \<Longrightarrow> bucket_of (ekey (entrys es y)) \<noteq> b \<Longrightarrow>
      hash_next (entrys es' y) = hash_next (entrys es y)"
    and "\<And>y. bucket_of (ekey (entrys es y)) \<noteq> b \<Longrightarrow> y \<in> H' \<longleftrightarrow> y \<in> H"
    and "hpath (entrys es') (buckets ht' b) ys INDEXER_NULL" and "distinct ys"
    and "set ys = {y \<in> H'. bucket_of (ekey (entrys es y)) = b}"
  shows "htab es' ht' H'"
  unfolding htab_def
proof (intro conjI allI impI ballI)
  show "hash_bits ht' = 17"
    using assms(1,3) by (simp add: htab_def)
next
  fix x
  assume "x \<in> H'"
  then show "x < CACHE_BLOCK_NUMBER"
    using assms(1,7,10) hpath_bounds [OF assms(8)]
    by (cases "bucket_of (ekey (entrys es x)) = b") (auto simp: htab_def)
next
  fix c
  assume c: "c < BUCKETS_NUMBER"
  show "\<exists>xs. hpath (entrys es') (buckets ht' c) xs INDEXER_NULL \<and> distinct xs \<and>
      set xs = {x \<in> H'. bucket_of (ekey (entrys es' x)) = c}"
  proof (cases "c = b")
    case True
    then show ?thesis using assms(5,8,9,10) by auto
  next
    case False
    obtain xs where xs: "hpath (entrys es) (buckets ht c) xs INDEXER_NULL" "distinct xs"
        "set xs = {x \<in> H. bucket_of (ekey (entrys es x)) = c}"
      using assms(1) c unfolding htab_def by meson
    have "hpath (entrys es') (buckets ht c) xs INDEXER_NULL"
      using xs False assms(6) hpath_cong [of xs "entrys es'" "entrys es"] by auto
    moreover have "set xs = {x \<in> H'. bucket_of (ekey (entrys es' x)) = c}"
      using xs(3) False assms(5,7) by auto
    ultimately show ?thesis using xs(2) False assms(4) by auto
  qed
qed

text \<open>The scan of a chain finds the first entry with the key and the entry before it.\<close>

lemma scan_chain_miss:
  assumes "hpath (entrys es) p xs INDEXER_NULL" and "\<forall>x \<in> set xs. ekey (entrys es x) \<noteq> (path, cp)"
  shows "scan_chain ht es path cp (if xs = [] then NULL else Entry (hd xs)) prv =
    Some (NULL, if xs = [] then prv else Entry (last xs))"
  using assms
proof (induction xs arbitrary: p prv)
  case Nil
  then show ?case by (subst scan_chain.simps) simp
next
  case (Cons x xs)
  then have tail: "hpath (entrys es) (hash_next (entrys es x)) xs INDEXER_NULL" by simp
  then have "h_next ht es (Entry x) = Some (if xs = [] then NULL else Entry (hd xs))"
    using Cons.prems(1) hpath_to_entry [OF tail] by (auto simp: h_next_def)
  with Cons.IH [OF tail, of "Entry x"] Cons.prems show ?case
    by (subst scan_chain.simps) (auto simp: ekey_def strcmp_zero_def)
qed

lemma scan_chain_hit:
  assumes "hpath (entrys es) p (as @ x # bs) INDEXER_NULL"
    and "\<forall>y \<in> set as. ekey (entrys es y) \<noteq> (path, cp)" and "ekey (entrys es x) = (path, cp)"
  shows "scan_chain ht es path cp (Entry (hd (as @ [x]))) prv =
    Some (Entry x, if as = [] then prv else Entry (last as))"
  using assms
proof (induction as arbitrary: p prv)
  case Nil
  then show ?case by (subst scan_chain.simps) (simp add: ekey_def strcmp_zero_def)
next
  case (Cons y as)
  then have tail: "hpath (entrys es) (hash_next (entrys es y)) (as @ x # bs) INDEXER_NULL" by simp
  then have "h_next ht es (Entry y) = Some (Entry (hd (as @ [x])))"
    using Cons.prems(1) hpath_to_entry [OF tail] by (cases as) (auto simp: h_next_def)
  with Cons.IH [OF tail, of "Entry y"] Cons.prems show ?case
    by (subst scan_chain.simps) (auto simp: ekey_def strcmp_zero_def)
qed


subsection \<open>Insertion, lookup and removal\<close>

lemma hash_frame_refl [simp]: "hash_frame es es"
  by (simp add: hash_frame_def)

lemma hash_frame_trans: "hash_frame es es' \<Longrightarrow> hash_frame es' es'' \<Longrightarrow> hash_frame es es''"
  by (simp add: hash_frame_def)

lemma hash_frame_upd [simp]:
  "hash_frame es (es\<lparr>entrys := (entrys es)(x := (entrys es x)\<lparr>hash_next := i\<rparr>)\<rparr>)"
  by (simp add: hash_frame_def)

lemma hash_frame_ekey: "hash_frame es es' \<Longrightarrow> ekey (entrys es' y) = ekey (entrys es y)"
  by (simp add: hash_frame_def ekey_def)

lemma dll_hash_frame: "dll es l xs \<Longrightarrow> hash_frame es es' \<Longrightarrow> dll es' l xs"
  using links_cong [of xs "entrys es'" "entrys es" INDEXER_NULL INDEXER_NULL]
  by (simp add: dll_def hash_frame_def)

lemma h_insert_law:
  assumes "htab es ht H" and "x \<notin> H" and "x < CACHE_BLOCK_NUMBER"
  shows "\<exists>ht' es'. h_insert ht es (Entry x) = Some (ht', es') \<and> htab es' ht' (insert x H) \<and>
    hash_frame es es'"
proof -
  let ?b = "bucket_of (ekey (entrys es x))"
  let ?es = "es\<lparr>entrys := (entrys es)(x := (entrys es x)\<lparr>hash_next := buckets ht ?b\<rparr>)\<rparr>"
  let ?ht = "ht\<lparr>buckets := (buckets ht)(?b := x)\<rparr>"
  obtain xs where xs: "hpath (entrys es) (buckets ht ?b) xs INDEXER_NULL" "distinct xs"
      "set xs = {y \<in> H. bucket_of (ekey (entrys es y)) = ?b}"
    by (rule htab_chain [OF assms(1)])
  have "hash_bits ht = 17"
    using assms(1) by (simp add: htab_def)
  then have "h_insert ht es (Entry x) = Some (?ht, ?es)"
    using assms(3)
    by (simp add: h_insert_def hash_32_law ekey_def raw_h_insert_def bucket_at_def set_bucket_def)
  moreover have "htab ?es ?ht (insert x H)"
    using assms xs
    by (intro htab_replace_chain [OF assms(1), where b = ?b and ys = "x # xs"])
       (auto simp: ekey_def)
  ultimately show ?thesis by auto
qed

lemma unlink_law:
  assumes "htab es ht H" and "hpath (entrys es) (buckets ht b) (as @ x # bs) INDEXER_NULL"
    and "distinct (as @ x # bs)" and "b < BUCKETS_NUMBER"
    and "set (as @ x # bs) = {y \<in> H. bucket_of (ekey (entrys es y)) = b}"
  shows "\<exists>ht' es'. raw_h_unlink ht es b (Entry x) (if as = [] then NULL else Entry (last as)) = Some (ht', es') \<and>
    htab es' ht' (H - {x}) \<and> hash_frame es es'"
proof (cases as rule: rev_cases)
  case Nil
  let ?ht = "ht\<lparr>buckets := (buckets ht)(b := hash_next (entrys es x))\<rparr>"
  have x: "x < CACHE_BLOCK_NUMBER"
    using hpath_bounds [OF assms(2)] by simp
  then have "raw_h_unlink ht es b (Entry x) NULL = Some (?ht, es)"
    using assms(4) by (simp add: raw_h_unlink_def set_bucket_def)
  moreover have "htab es ?ht (H - {x})"
    using Nil assms x
    by (intro htab_replace_chain [OF assms(1), where b = b and ys = bs]) auto
  ultimately show ?thesis using Nil by auto
next
  case (snoc cs a)
  let ?f = "(entrys es)(a := (entrys es a)\<lparr>hash_next := hash_next (entrys es x)\<rparr>)"
  let ?es = "es\<lparr>entrys := ?f\<rparr>"
  have b: "x < CACHE_BLOCK_NUMBER" "a < CACHE_BLOCK_NUMBER"
    using hpath_bounds [OF assms(2)] snoc by simp_all
  then have "raw_h_unlink ht es b (Entry x) (Entry a) = Some (ht, ?es)"
    by (simp add: raw_h_unlink_def)
  moreover have "hpath ?f (buckets ht b) (cs @ a # bs) INDEXER_NULL"
    using assms(2,3) snoc by (auto simp: hpath_append)
  then have "htab ?es ht (H - {x})"
    using snoc assms b
    by (intro htab_replace_chain [OF assms(1), where b = b and ys = "cs @ a # bs"])
       (auto simp: ekey_def)
  ultimately show ?thesis using snoc by auto
qed

lemma lookup_miss:
  assumes "htab es ht H" and "\<And>x. x \<in> H \<Longrightarrow> ekey (entrys es x) \<noteq> (p, c)"
  shows "h_lookup ht es p c = Some (NULL, ht, es)"
proof -
  obtain xs where xs: "hpath (entrys es) (buckets ht (bucket_of (p, c))) xs INDEXER_NULL"
      "set xs = {y \<in> H. bucket_of (ekey (entrys es y)) = bucket_of (p, c)}"
    by (rule htab_chain [OF assms(1), of "(p, c)"])
  have "hash_bits ht = 17"
    using assms(1) by (simp add: htab_def)
  then show ?thesis
    using xs assms(2) scan_chain_miss [OF xs(1), of p c ht NULL] hpath_to_entry [OF xs(1)]
    by (auto simp: h_lookup_def hash_32_law raw_h_lookup_def h_head_def bucket_at_def)
qed

text \<open>The chain of a key that is in the table, split at its entry, and what the scan returns.\<close>

lemma raw_lookup_hit:
  assumes "htab es ht H" and "inj_on (\<lambda>y. ekey (entrys es y)) H" and "x \<in> H"
    and "ekey (entrys es x) = (p, c)"
  obtains as bs where
    "hpath (entrys es) (buckets ht (bucket_of (p, c))) (as @ x # bs) INDEXER_NULL"
    and "distinct (as @ x # bs)"
    and "set (as @ x # bs) = {y \<in> H. bucket_of (ekey (entrys es y)) = bucket_of (p, c)}"
    and "raw_h_lookup ht es (bucket_of (p, c)) p c =
      Some (Entry x, if as = [] then NULL else Entry (last as))"
proof -
  obtain xs where xs: "hpath (entrys es) (buckets ht (bucket_of (p, c))) xs INDEXER_NULL"
      "distinct xs" "set xs = {y \<in> H. bucket_of (ekey (entrys es y)) = bucket_of (p, c)}"
    by (rule htab_chain [OF assms(1), of "(p, c)"])
  then have "x \<in> set xs" using assms by simp
  then obtain as bs where s: "xs = as @ x # bs" "x \<notin> set as"
    using distinct_split [OF _ xs(2)] by blast
  have "\<forall>y \<in> set as. ekey (entrys es y) \<noteq> (p, c)"
    using s xs(3) assms(2-4) by (metis (mono_tags, lifting) Un_iff inj_onD mem_Collect_eq set_append)
  then have "raw_h_lookup ht es (bucket_of (p, c)) p c =
      Some (Entry x, if as = [] then NULL else Entry (last as))"
    using scan_chain_hit [of es "buckets ht (bucket_of (p, c))" as x bs p c ht NULL]
      hpath_to_entry [OF xs(1)] xs(1) s(1) assms(4)
    by (cases as) (auto simp: raw_h_lookup_def h_head_def bucket_at_def)
  with that xs s(1) show ?thesis by blast
qed

lemma lookup_hit:
  assumes "htab es ht H" and "inj_on (\<lambda>y. ekey (entrys es y)) H" and "x \<in> H"
    and "ekey (entrys es x) = (p, c)"
  shows "\<exists>ht' es'. h_lookup ht es p c = Some (Entry x, ht', es') \<and> htab es' ht' H \<and> hash_frame es es'"
proof -
  have bits: "hash_bits ht = 17"
    using assms(1) by (simp add: htab_def)
  obtain as bs where chain: "hpath (entrys es) (buckets ht (bucket_of (p, c))) (as @ x # bs) INDEXER_NULL"
      "distinct (as @ x # bs)"
      "set (as @ x # bs) = {y \<in> H. bucket_of (ekey (entrys es y)) = bucket_of (p, c)}"
    and look: "raw_h_lookup ht es (bucket_of (p, c)) p c =
      Some (Entry x, if as = [] then NULL else Entry (last as))"
    using raw_lookup_hit [OF assms] .
  show ?thesis
  proof (cases "as = []")
    case True
    then show ?thesis
      using look bits assms(1) by (auto simp: h_lookup_def hash_32_law)
  next
    case False
    obtain ht1 es1 where un: "raw_h_unlink ht es (bucket_of (p, c)) (Entry x)
        (if as = [] then NULL else Entry (last as)) = Some (ht1, es1)"
      "htab es1 ht1 (H - {x})" "hash_frame es es1"
      using unlink_law [OF assms(1) chain(1,2) bucket_of_lt chain(3)] by blast
    have x: "x < CACHE_BLOCK_NUMBER"
      using assms(1,3) by (simp add: htab_def)
    have bits1: "hash_bits ht1 = 17"
      using un(2) by (simp add: htab_def)
    obtain ht2 es2 where ins: "h_insert ht1 es1 (Entry x) = Some (ht2, es2)"
      "htab es2 ht2 (insert x (H - {x}))" "hash_frame es1 es2"
      using h_insert_law [OF un(2) _ x] by blast
    have k: "(full_path_name (entrys es1 x), cache_page_index (entrys es1 x)) = (p, c)"
      using hash_frame_ekey [OF un(3), of x] assms(4) by (simp add: ekey_def)
    then have "raw_h_insert ht1 es1 (bucket_of (p, c)) (Entry x) = Some (ht2, es2)"
      using ins(1) x bits1 by (simp add: h_insert_def hash_32_law)
    then have "h_lookup ht es p c = Some (Entry x, ht2, es2)"
      using look un(1) bits False by (simp add: h_lookup_def hash_32_law)
    moreover have "insert x (H - {x}) = H"
      using assms(3) by blast
    ultimately show ?thesis
      using ins(2) hash_frame_trans [OF un(3) ins(3)] by auto
  qed
qed

lemma h_remove_law:
  assumes "htab es ht H" and "inj_on (\<lambda>y. ekey (entrys es y)) H" and "x \<in> H"
  shows "\<exists>ht' es'. h_remove ht es (Entry x) = Some (ht', es') \<and> htab es' ht' (H - {x}) \<and>
    hash_frame es es'"
proof -
  obtain p c where k: "ekey (entrys es x) = (p, c)" by (cases "ekey (entrys es x)")
  obtain as bs where chain: "hpath (entrys es) (buckets ht (bucket_of (p, c))) (as @ x # bs) INDEXER_NULL"
      "distinct (as @ x # bs)"
      "set (as @ x # bs) = {y \<in> H. bucket_of (ekey (entrys es y)) = bucket_of (p, c)}"
    and look: "raw_h_lookup ht es (bucket_of (p, c)) p c =
      Some (Entry x, if as = [] then NULL else Entry (last as))"
    using raw_lookup_hit [OF assms k] .
  have "x < CACHE_BLOCK_NUMBER" and "hash_bits ht = 17"
    using assms(1,3) by (simp_all add: htab_def)
  then show ?thesis
    using unlink_law [OF assms(1) chain(1,2) bucket_of_lt chain(3)] look k
    by (auto simp: h_remove_def ekey_def hash_32_law)
qed


subsection \<open>The table contract\<close>

text \<open>
  What the mapping relies on: with pairwise different keys, lookup finds exactly the entry
  with the key, insertion and removal change the set by one entry, and none of them changes
  a key.
\<close>

locale key_table =
  fixes holds :: "'s \<Rightarrow> u32 set \<Rightarrow> bool" and key_of :: "'s \<Rightarrow> u32 \<Rightarrow> 'k"
    and frame :: "'s \<Rightarrow> 's \<Rightarrow> bool" and limit :: u32
    and lookup :: "'s \<Rightarrow> 'k \<Rightarrow> (entry_ptr \<times> 's) option"
    and insertion :: "'s \<Rightarrow> u32 \<Rightarrow> 's option" and removal :: "'s \<Rightarrow> u32 \<Rightarrow> 's option"
  assumes hit_law: "holds s H \<Longrightarrow> inj_on (key_of s) H \<Longrightarrow> x \<in> H \<Longrightarrow> key_of s x = k \<Longrightarrow>
      \<exists>s'. lookup s k = Some (Entry x, s') \<and> holds s' H \<and> frame s s'"
    and miss_law: "holds s H \<Longrightarrow> (\<And>x. x \<in> H \<Longrightarrow> key_of s x \<noteq> k) \<Longrightarrow> lookup s k = Some (NULL, s)"
    and insert_law: "holds s H \<Longrightarrow> x \<notin> H \<Longrightarrow> x < limit \<Longrightarrow>
      \<exists>s'. insertion s x = Some s' \<and> holds s' (insert x H) \<and> frame s s'"
    and remove_law: "holds s H \<Longrightarrow> inj_on (key_of s) H \<Longrightarrow> x \<in> H \<Longrightarrow>
      \<exists>s'. removal s x = Some s' \<and> holds s' (H - {x}) \<and> frame s s'"
    and frame_key: "frame s s' \<Longrightarrow> key_of s' = key_of s"
begin

lemma insert_then_lookup:
  assumes "holds s H" and "inj_on (key_of s) H" and "x \<notin> H" and "x < limit"
    and "\<And>y. y \<in> H \<Longrightarrow> key_of s y \<noteq> key_of s x"
  shows "\<exists>s1 s2. insertion s x = Some s1 \<and> lookup s1 (key_of s x) = Some (Entry x, s2) \<and>
    holds s2 (insert x H)"
proof -
  obtain s1 where i: "insertion s x = Some s1" "holds s1 (insert x H)" "frame s s1"
    using insert_law [OF assms(1,3,4)] by blast
  have "inj_on (key_of s1) (insert x H)"
    using assms(2,5) frame_key [OF i(3)] by (auto simp: inj_on_insert) (metis DiffD1)
  then obtain s2 where "lookup s1 (key_of s x) = Some (Entry x, s2)" "holds s2 (insert x H)"
    using hit_law [OF i(2), of x "key_of s x"] frame_key [OF i(3)] by auto
  with i(1) show ?thesis by blast
qed

lemma remove_then_lookup:
  assumes "holds s H" and "inj_on (key_of s) H" and "x \<in> H"
  shows "\<exists>s1. removal s x = Some s1 \<and> lookup s1 (key_of s x) = Some (NULL, s1) \<and>
    (\<forall>y \<in> H - {x}. \<exists>s2. lookup s1 (key_of s y) = Some (Entry y, s2) \<and> holds s2 (H - {x}))"
proof -
  obtain s1 where r: "removal s x = Some s1" "holds s1 (H - {x})" "frame s s1"
    using remove_law [OF assms] by blast
  have k: "key_of s1 = key_of s" by (rule frame_key [OF r(3)])
  have inj: "inj_on (key_of s1) (H - {x})"
    using assms(2) k by (simp add: inj_on_diff)
  have "lookup s1 (key_of s x) = Some (NULL, s1)"
    using assms(2,3) k by (intro miss_law [OF r(2)]) (auto simp: inj_on_def)
  moreover have "\<exists>s2. lookup s1 (key_of s y) = Some (Entry y, s2) \<and> holds s2 (H - {x})"
    if "y \<in> H - {x}" for y
    using hit_law [OF r(2) inj that, of "key_of s y"] k by auto
  ultimately show ?thesis using r(1) by blast
qed

end

interpretation ht: key_table "\<lambda>s H. htab (snd s) (fst s) H" "\<lambda>s x. ekey (entrys (snd s) x)"
  "\<lambda>s s'. hash_frame (snd s) (snd s')" CACHE_BLOCK_NUMBER
  "\<lambda>s k. h_lookup (fst s) (snd s) (fst k) (snd k)"
  "\<lambda>s x. h_insert (fst s) (snd s) (Entry x)" "\<lambda>s x. h_remove (fst s) (snd s) (Entry x)"
proof (unfold_locales, goal_cases)
  case (1 s H x k)
  then show ?case using lookup_hit [of "snd s" "fst s" H x "fst k" "snd k"] by auto
next
  case (2 s H k)
  then show ?case using lookup_miss [of "snd s" "fst s" H "fst k" "snd k"] by simp
next
  case (3 s H x)
  then show ?case using h_insert_law [of "snd s" "fst s" H x] by auto
next
  case (4 s H x)
  then show ?case using h_remove_law [of "snd s" "fst s" H x] by auto
next
  case (5 s s')
  then show ?case by (auto simp: hash_frame_ekey)
qed

subsection \<open>The table as a map, read off the buckets\<close>

primrec walk :: "(u32 \<Rightarrow> entry) \<Rightarrow> nat \<Rightarrow> u32 \<Rightarrow> u32 list" where
  "walk f 0 p = []"
| "walk f (Suc n) p = (if p = INDEXER_NULL then [] else p # walk f n (hash_next (f p)))"

definition table_find :: "entry_space \<Rightarrow> hash_table \<Rightarrow> key \<Rightarrow> u32 option" where
  "table_find es ht k = find (\<lambda>x. ekey (entrys es x) = k)
     (walk (entrys es) (unat CACHE_BLOCK_NUMBER) (buckets ht (bucket_of k)))"

lemma walk_hpath: "hpath f p xs INDEXER_NULL \<Longrightarrow> length xs \<le> n \<Longrightarrow> walk f n p = xs"
proof (induction xs arbitrary: p n)
  case Nil
  then show ?case by (cases n) auto
next
  case (Cons x xs)
  then show ?case by (cases n) (auto dest: in_array_not_null)
qed

lemma distinct_below_length:
  assumes "distinct xs" and "\<And>x. x \<in> set xs \<Longrightarrow> x < (n :: u32)"
  shows "length xs \<le> unat n"
proof -
  have "card (set xs) \<le> card {i. i < n}"
    using assms(2) by (intro card_mono) auto
  with assms(1) show ?thesis by (simp add: card_below distinct_card)
qed

lemma table_find_law:
  assumes "htab es ht H" and "inj_on (\<lambda>y. ekey (entrys es y)) H"
  shows "table_find es ht k = Some x \<longleftrightarrow> x \<in> H \<and> ekey (entrys es x) = k"
proof -
  obtain xs where xs: "hpath (entrys es) (buckets ht (bucket_of k)) xs INDEXER_NULL" "distinct xs"
      "set xs = {y \<in> H. bucket_of (ekey (entrys es y)) = bucket_of k}"
    by (rule htab_chain [OF assms(1)])
  have "length xs \<le> unat CACHE_BLOCK_NUMBER"
    using distinct_below_length [OF xs(2) hpath_bounds [OF xs(1)]] .
  then have w: "table_find es ht k = find (\<lambda>x. ekey (entrys es x) = k) xs"
    using walk_hpath [OF xs(1)] by (simp add: table_find_def)
  show ?thesis
  proof
    assume "table_find es ht k = Some x"
    then show "x \<in> H \<and> ekey (entrys es x) = k"
      using w xs(3) by (auto simp: find_Some_iff)
  next
    assume x: "x \<in> H \<and> ekey (entrys es x) = k"
    then have "x \<in> set xs" using xs(3) by auto
    then have "find (\<lambda>x. ekey (entrys es x) = k) xs \<noteq> None"
      using x by (auto simp: find_None_iff)
    then obtain y where y: "find (\<lambda>x. ekey (entrys es x) = k) xs = Some y" by blast
    then have "y \<in> H \<and> ekey (entrys es y) = k"
      using xs(3) by (auto simp: find_Some_iff)
    with x assms(2) have "y = x" by (auto simp: inj_on_def)
    with y w show "table_find es ht k = Some x" by simp
  qed
qed

lemma table_find_None:
  assumes "htab es ht H" and "inj_on (\<lambda>y. ekey (entrys es y)) H"
  shows "table_find es ht k = None \<longleftrightarrow> (\<forall>x \<in> H. ekey (entrys es x) \<noteq> k)"
  using table_find_law [OF assms, of k] by (cases "table_find es ht k") auto

text \<open>Two tables that hold the same entries under the same keys are the same map.\<close>

lemma table_find_cong:
  assumes "htab es ht H" and "inj_on (\<lambda>y. ekey (entrys es y)) H" and "htab es' ht' H"
    and "\<And>x. x \<in> H \<Longrightarrow> ekey (entrys es' x) = ekey (entrys es x)"
  shows "table_find es' ht' k = table_find es ht k"
proof -
  have inj: "inj_on (\<lambda>y. ekey (entrys es' y)) H"
    using assms(2,4) by (simp add: inj_on_def)
  have "table_find es' ht' k = Some x \<longleftrightarrow> table_find es ht k = Some x" for x
    using assms(4) by (auto simp: table_find_law [OF assms(3) inj] table_find_law [OF assms(1,2)])
  then show ?thesis by (rule option_eqI)
qed

subsection \<open>Properties\<close>

text \<open>
  C26: \<open>h_lookup\<close>, which walks a chain and moves what it finds to the front, returns what a
  plain search of the bucket returns, for every key, and leaves every such search as it was.
\<close>

theorem lookup_is_find:
  assumes "htab es ht H" and "inj_on (\<lambda>y. ekey (entrys es y)) H"
  shows "\<exists>ht' es'. h_lookup ht es p c =
      Some (case table_find es ht (p, c) of None \<Rightarrow> NULL | Some x \<Rightarrow> Entry x, ht', es') \<and>
    htab es' ht' H \<and> (\<forall>k. table_find es' ht' k = table_find es ht k)"
proof (cases "table_find es ht (p, c)")
  case None
  then have "h_lookup ht es p c = Some (NULL, ht, es)"
    using table_find_None [OF assms] by (intro lookup_miss [OF assms(1)]) blast
  with None assms(1) show ?thesis by simp
next
  case (Some x)
  then have x: "x \<in> H" "ekey (entrys es x) = (p, c)"
    using table_find_law [OF assms] by blast+
  obtain ht' es' where l: "h_lookup ht es p c = Some (Entry x, ht', es')" "htab es' ht' H" "hash_frame es es'"
    using lookup_hit [OF assms x] by blast
  have "table_find es' ht' k = table_find es ht k" for k
    by (rule table_find_cong [OF assms l(2)]) (rule hash_frame_ekey [OF l(3)])
  with Some l show ?thesis by auto
qed

text \<open>
  C27: inserting an entry with a new key makes \<open>h_lookup\<close> find it; removing it again makes
  the key unknown.
\<close>

theorem insert_remove_lookup:
  assumes "htab es ht H" and "inj_on (\<lambda>y. ekey (entrys es y)) H" and "x \<notin> H" and "x < CACHE_BLOCK_NUMBER"
    and "ekey (entrys es x) = (p, c)" and "\<forall>y \<in> H. ekey (entrys es y) \<noteq> (p, c)"
  shows "\<exists>ht1 es1 ht2 es2 ht3 es3. h_insert ht es (Entry x) = Some (ht1, es1) \<and>
    h_lookup ht1 es1 p c = Some (Entry x, ht2, es2) \<and> h_remove ht2 es2 (Entry x) = Some (ht3, es3) \<and>
    h_lookup ht3 es3 p c = Some (NULL, ht3, es3) \<and> htab es3 ht3 H"
proof -
  obtain ht1 es1 where i: "h_insert ht es (Entry x) = Some (ht1, es1)" "htab es1 ht1 (insert x H)" "hash_frame es es1"
    using h_insert_law [OF assms(1,3,4)] by blast
  have k1: "ekey (entrys es1 y) = ekey (entrys es y)" for y by (rule hash_frame_ekey [OF i(3)])
  have inj1: "inj_on (\<lambda>y. ekey (entrys es1 y)) (insert x H)"
    using assms(2,3,5,6) by (auto simp: k1 inj_on_def)
  obtain ht2 es2 where l: "h_lookup ht1 es1 p c = Some (Entry x, ht2, es2)" "htab es2 ht2 (insert x H)" "hash_frame es1 es2"
    using lookup_hit [OF i(2) inj1, of x p c] k1 assms(5) by auto
  have k2: "ekey (entrys es2 y) = ekey (entrys es y)" for y
    using hash_frame_ekey [OF l(3)] k1 by simp
  have inj2: "inj_on (\<lambda>y. ekey (entrys es2 y)) (insert x H)"
    using inj1 by (simp add: k1 k2 inj_on_def)
  obtain ht3 es3 where r: "h_remove ht2 es2 (Entry x) = Some (ht3, es3)" "htab es3 ht3 (insert x H - {x})" "hash_frame es2 es3"
    using h_remove_law [OF l(2) inj2] by blast
  have H: "insert x H - {x} = H" using assms(3) by simp
  have "ekey (entrys es3 y) = ekey (entrys es y)" for y
    using hash_frame_ekey [OF r(3)] k2 by simp
  then have "h_lookup ht3 es3 p c = Some (NULL, ht3, es3)"
    using assms(6) by (intro lookup_miss [OF r(2) [unfolded H]]) auto
  with i(1) l(1) r(1) r(2) [unfolded H] show ?thesis by blast
qed

definition sample_entries :: entry_space where
  "sample_entries = zero_es\<lparr>entrys := (\<lambda>i. (entrys zero_es i)\<lparr>full_path_name := ''f'', cache_page_index := i\<rparr>)\<rparr>"

lemma sample_table:
  "\<exists>ht. htab sample_entries ht {}" "inj_on (\<lambda>y. ekey (entrys sample_entries y)) H"
  "ekey (entrys sample_entries y) = (''f'', y)"
  using alloc_hash_table_law [of "\<lparr>hash_bits = 0, buckets = (\<lambda>_. 0)\<rparr>"]
  by (auto simp: htab_def inj_on_def ekey_def sample_entries_def)

theorem insert_remove_lookup_witness:
  "\<exists>ht ht1 es1 ht2 es2 ht3 es3. h_insert ht sample_entries (Entry 9) = Some (ht1, es1) \<and>
    h_lookup ht1 es1 ''f'' 9 = Some (Entry 9, ht2, es2) \<and> h_remove ht2 es2 (Entry 9) = Some (ht3, es3) \<and>
    h_lookup ht3 es3 ''f'' 9 = Some (NULL, ht3, es3)"
proof -
  obtain ht where ht: "htab sample_entries ht {}" using sample_table(1) by blast
  have "(9 :: u32) \<notin> {}" and "(9 :: u32) < CACHE_BLOCK_NUMBER" and "\<forall>y \<in> {}. ekey (entrys sample_entries y) \<noteq> (''f'', 9)"
    by (simp_all add: consts_simps)
  from insert_remove_lookup [OF ht sample_table(2) this(1,2) sample_table(3) this(3)] show ?thesis by blast
qed

theorem lookup_is_find_witness:
  "\<exists>ht es ht' es'. table_find es ht (''f'', 9) = Some 9 \<and> h_lookup ht es ''f'' 9 = Some (Entry 9, ht', es')"
proof -
  obtain ht where "htab sample_entries ht {}" using sample_table(1) by blast
  then obtain ht1 es1 where i: "htab es1 ht1 {9}" "hash_frame sample_entries es1"
    using h_insert_law [of sample_entries ht "{}" 9] by (auto simp: consts_simps)
  have inj: "inj_on (\<lambda>y. ekey (entrys es1 y)) {9}" by simp
  have "table_find es1 ht1 (''f'', 9) = Some 9"
    using table_find_law [OF i(1) inj] hash_frame_ekey [OF i(2), of 9] by (simp add: sample_table(3))
  with lookup_is_find [OF i(1) inj, of "''f''" 9] show ?thesis by auto
qed

end
