(* ===== verification/Cache_Mapping.thy ===== *)
theory Cache_Mapping
  imports Hash_Table
begin

text \<open>
  The mapping of \<^verbatim>\<open>lib/ssd_cache_mapping.c\<close>: which cache page of which file sits in which
  cache block. The record \<open>mapping\<close> has the fields of the C struct. Every operation takes
  \<open>mapping_lock\<close> first and releases it on each return. The argument and result \<open>cblock\<close> is
  what the caller's \<open>unsigned *cblock\<close> points to, before and after.
\<close>

subsection \<open>State\<close>

record mapping =
  block_size :: u32
  cache_block_num :: u32
  block_per_cblock_shift :: u32
  block_per_page_shift :: u32
  m_es :: entry_space
  m_ea :: entry_alloc
  m_clean :: ilist
  m_dirty :: ilist
  m_table :: hash_table
  mapping_lock :: spinlock
  hit_time :: u32
  miss_time :: u32
  promotion_time :: u32
  demotion_time :: u32
  writeback_time :: u32
  m_wq :: work_queue

definition lock_map :: "mapping \<Rightarrow> mapping option" where
  "lock_map m = do { l \<leftarrow> spinlock_lock (mapping_lock m); Some (m\<lparr>mapping_lock := l\<rparr>) }"

definition unlock_map :: "mapping \<Rightarrow> mapping" where
  "unlock_map m = m\<lparr>mapping_lock := spinlock_unlock (mapping_lock m)\<rparr>"

definition infer_cblock :: "mapping \<Rightarrow> entry_ptr \<Rightarrow> u32 option" where
  "infer_cblock m e = get_index (m_ea m) (m_es m) e"

text \<open>The calls that pass parts of the mapping by address, as functions on the mapping.\<close>

definition in_es :: "(entry_space \<Rightarrow> entry_space option) \<Rightarrow> mapping \<Rightarrow> mapping option" where
  "in_es g m = do { es \<leftarrow> g (m_es m); Some (m\<lparr>m_es := es\<rparr>) }"

definition map_alloc_entry :: "mapping \<Rightarrow> (entry_ptr \<times> mapping) option" where
  "map_alloc_entry m = do {
     (e, ea, es) \<leftarrow> alloc_entry (m_ea m) (m_es m);
     Some (e, m\<lparr>m_ea := ea, m_es := es\<rparr>)
   }"

definition map_free_entry :: "mapping \<Rightarrow> entry_ptr \<Rightarrow> mapping option" where
  "map_free_entry m e = do {
     (ea, es) \<leftarrow> free_entry (m_ea m) (m_es m) e;
     Some (m\<lparr>m_ea := ea, m_es := es\<rparr>)
   }"

definition map_h_insert :: "mapping \<Rightarrow> entry_ptr \<Rightarrow> mapping option" where
  "map_h_insert m e = do {
     (ht, es) \<leftarrow> h_insert (m_table m) (m_es m) e;
     Some (m\<lparr>m_table := ht, m_es := es\<rparr>)
   }"

definition map_h_remove :: "mapping \<Rightarrow> entry_ptr \<Rightarrow> mapping option" where
  "map_h_remove m e = do {
     (ht, es) \<leftarrow> h_remove (m_table m) (m_es m) e;
     Some (m\<lparr>m_table := ht, m_es := es\<rparr>)
   }"

definition map_h_lookup :: "mapping \<Rightarrow> cstring \<Rightarrow> u32 \<Rightarrow> (entry_ptr \<times> mapping) option" where
  "map_h_lookup m path cp = do {
     (e, ht, es) \<leftarrow> h_lookup (m_table m) (m_es m) path cp;
     Some (e, m\<lparr>m_table := ht, m_es := es\<rparr>)
   }"

text \<open>
  The calls whose list argument is
  \<open>entry_get_dirty(e) ? &mapping->dirty : &mapping->clean\<close>.
\<close>

definition queue_apply :: "(entry_space \<Rightarrow> ilist \<Rightarrow> entry_ptr \<Rightarrow> (entry_space \<times> ilist) option) \<Rightarrow>
    bool \<Rightarrow> mapping \<Rightarrow> entry_ptr \<Rightarrow> mapping option" where
  "queue_apply list_op dirty m e =
     (if dirty
      then do { (es, l) \<leftarrow> list_op (m_es m) (m_dirty m) e; Some (m\<lparr>m_es := es, m_dirty := l\<rparr>) }
      else do { (es, l) \<leftarrow> list_op (m_es m) (m_clean m) e; Some (m\<lparr>m_es := es, m_clean := l\<rparr>) })"

definition queue_add_tail :: "mapping \<Rightarrow> entry_ptr \<Rightarrow> mapping option" where
  "queue_add_tail m e = do { d \<leftarrow> entry_get_dirty (m_es m) e; queue_apply l_add_tail d m e }"

definition queue_add_head :: "mapping \<Rightarrow> entry_ptr \<Rightarrow> mapping option" where
  "queue_add_head m e = do { d \<leftarrow> entry_get_dirty (m_es m) e; queue_apply l_add_head d m e }"

definition queue_del :: "mapping \<Rightarrow> entry_ptr \<Rightarrow> mapping option" where
  "queue_del m e = do { d \<leftarrow> entry_get_dirty (m_es m) e; queue_apply l_del d m e }"

subsection \<open>Initialisation\<close>

function LOG2 :: "u32 \<Rightarrow> int" where
  "LOG2 n = (if n > 1 then 1 + LOG2 (drop_bit 1 n) else 0)"
  by pat_completeness auto
termination
  by (relation "measure unat") (auto simp: drop_bit_eq_div unat_div word_less_nat_alt)

declare LOG2.simps [simp del]

definition init_mapping :: "mapping \<Rightarrow> u32 \<Rightarrow> u32 \<Rightarrow> (int \<times> mapping) option" where
  "init_mapping m bsize cblock_num =
     (if bsize = 0 \<or> cblock_num = 0 then Some (1, m)
      else do {
        m \<leftarrow> Some (m\<lparr>block_size := bsize\<rparr>);
        m \<leftarrow> Some (m\<lparr>cache_block_num := cblock_num\<rparr>);
        m \<leftarrow> Some (m\<lparr>block_per_cblock_shift := of_int (LOG2 (CACHE_BLOCK_SIZE div block_size m))\<rparr>);
        m \<leftarrow> Some (m\<lparr>block_per_page_shift := of_int (LOG2 (PAGE_SIZE div block_size m))\<rparr>);
        m \<leftarrow> Some (m\<lparr>m_es := alloc_es (m_es m)\<rparr>);
        (ea, es) \<leftarrow> init_allocator (m_ea m) (m_es m) 0 (cache_block_num m);
        m \<leftarrow> Some (m\<lparr>m_ea := ea, m_es := es\<rparr>);
        m \<leftarrow> Some (m\<lparr>m_clean := l_init (m_clean m)\<rparr>);
        m \<leftarrow> Some (m\<lparr>m_dirty := l_init (m_dirty m)\<rparr>);
        ht \<leftarrow> alloc_hash_table (m_table m);
        m \<leftarrow> Some (m\<lparr>m_table := ht\<rparr>);
        m \<leftarrow> Some (m\<lparr>hit_time := 0, miss_time := 0, promotion_time := 0, demotion_time := 0,
          writeback_time := 0\<rparr>);
        m \<leftarrow> Some (m\<lparr>mapping_lock := spinlock_init (mapping_lock m)\<rparr>);
        Some (0, m)
      })"

subsection \<open>Migration: the two halves of each move\<close>

definition promotion_free_to_clean ::
    "mapping \<Rightarrow> cstring \<Rightarrow> u32 \<Rightarrow> u32 \<Rightarrow> (bool \<times> u32 \<times> mapping) option" where
  "promotion_free_to_clean m path cp cblock = do {
     m \<leftarrow> lock_map m;
     if allocator_empty (m_ea m) then Some (False, cblock, unlock_map m)
     else do {
       (e, m) \<leftarrow> map_alloc_entry m;
       m \<leftarrow> in_es (\<lambda>es. entry_set_pending es e True) m;
       m \<leftarrow> in_es (\<lambda>es. entry_set_dirty es e False) m;
       p \<leftarrow> strcpy (MAX_PATH_SIZE + 1) path;
       m \<leftarrow> in_es (\<lambda>es. store es e (\<lambda>x. x\<lparr>full_path_name := p\<rparr>)) m;
       m \<leftarrow> in_es (\<lambda>es. store es e (\<lambda>x. x\<lparr>cache_page_index := cp\<rparr>)) m;
       cblock \<leftarrow> infer_cblock m e;
       Some (True, cblock, unlock_map m)
     }
   }"

definition promotion_complete :: "mapping \<Rightarrow> u32 \<Rightarrow> bool \<Rightarrow> mapping option" where
  "promotion_complete m cblock success = do {
     m \<leftarrow> lock_map m;
     e \<leftarrow> to_entry (m_es m) cblock;
     m \<leftarrow> in_es (\<lambda>es. entry_set_pending es e False) m;
     m \<leftarrow> (if success
       then do {
         m \<leftarrow> Some (m\<lparr>promotion_time := promotion_time m + 1\<rparr>);
         m \<leftarrow> map_h_insert m e;
         queue_add_tail m e
       }
       else map_free_entry m e);
     Some (unlock_map m)
   }"

definition demotion_clean_to_free :: "mapping \<Rightarrow> u32 \<Rightarrow> (bool \<times> u32 \<times> mapping) option" where
  "demotion_clean_to_free m cblock = do {
     m \<leftarrow> lock_map m;
     if nr_elts (m_clean m) \<le> drop_bit 1 (cache_block_num m) then Some (False, cblock, unlock_map m)
     else do {
       e \<leftarrow> l_head (m_es m) (m_clean m);
       m \<leftarrow> queue_apply l_del False m e;
       m \<leftarrow> in_es (\<lambda>es. entry_set_pending es e True) m;
       cblock \<leftarrow> infer_cblock m e;
       Some (True, cblock, unlock_map m)
     }
   }"

definition demotion_complete :: "mapping \<Rightarrow> u32 \<Rightarrow> bool \<Rightarrow> mapping option" where
  "demotion_complete m cblock success = do {
     m \<leftarrow> lock_map m;
     e \<leftarrow> to_entry (m_es m) cblock;
     m \<leftarrow> in_es (\<lambda>es. entry_set_pending es e False) m;
     m \<leftarrow> (if success
       then do {
         m \<leftarrow> Some (m\<lparr>demotion_time := demotion_time m + 1\<rparr>);
         m \<leftarrow> map_h_remove m e;
         map_free_entry m e
       }
       else queue_add_tail m e);
     Some (unlock_map m)
   }"

definition writeback_dirty_to_clean :: "mapping \<Rightarrow> u32 \<Rightarrow> (bool \<times> u32 \<times> mapping) option" where
  "writeback_dirty_to_clean m cblock = do {
     m \<leftarrow> lock_map m;
     if nr_elts (m_dirty m) = 0 then Some (False, cblock, unlock_map m)
     else do {
       e \<leftarrow> l_head (m_es m) (m_dirty m);
       pending \<leftarrow> entry_get_pending (m_es m) e;
       if pending then Some (False, cblock, unlock_map m)
       else do {
         m \<leftarrow> in_es (\<lambda>es. entry_set_pending es e True) m;
         m \<leftarrow> in_es (\<lambda>es. entry_set_dirty es e False) m;
         m \<leftarrow> queue_apply l_del True m e;
         cblock \<leftarrow> infer_cblock m e;
         Some (True, cblock, unlock_map m)
       }
     }
   }"

definition writeback_complete :: "mapping \<Rightarrow> u32 \<Rightarrow> bool \<Rightarrow> mapping option" where
  "writeback_complete m cblock success = do {
     m \<leftarrow> lock_map m;
     e \<leftarrow> to_entry (m_es m) cblock;
     m \<leftarrow> in_es (\<lambda>es. entry_set_pending es e False) m;
     m \<leftarrow> (if success
       then do {
         m \<leftarrow> Some (m\<lparr>writeback_time := writeback_time m + 1\<rparr>);
         queue_add_tail m e
       }
       else queue_add_head m e);
     Some (unlock_map m)
   }"

subsection \<open>Requests\<close>

definition to_cache_page_index :: "u32 \<Rightarrow> u32" where
  "to_cache_page_index page_index = drop_bit 3 page_index"

text \<open>
  The hit branch that both lookups share: an entry that is neither pending nor dirty goes
  to the most recently used end of the clean queue.
\<close>

definition hit_entry :: "mapping \<Rightarrow> entry_ptr \<Rightarrow> (u32 \<times> mapping) option" where
  "hit_entry m e = do {
     m \<leftarrow> Some (m\<lparr>hit_time := hit_time m + 1\<rparr>);
     pending \<leftarrow> entry_get_pending (m_es m) e;
     dirty \<leftarrow> entry_get_dirty (m_es m) e;
     m \<leftarrow> (if \<not> pending \<and> \<not> dirty
       then do { m \<leftarrow> queue_del m e; queue_add_tail m e }
       else Some m);
     cblock \<leftarrow> infer_cblock m e;
     Some (cblock, m)
   }"

definition map_insert_work :: "mapping \<Rightarrow> cstring \<Rightarrow> u32 \<Rightarrow> mapping option" where
  "map_insert_work m path cp = do {
     (b, q) \<leftarrow> insert_work (m_wq m) path cp;
     Some (m\<lparr>m_wq := q\<rparr>)
   }"

definition lookup_mapping ::
    "mapping \<Rightarrow> cstring \<Rightarrow> u32 \<Rightarrow> u32 \<Rightarrow> (bool \<times> u32 \<times> mapping) option" where
  "lookup_mapping m path page_index cblock = do {
     m \<leftarrow> lock_map m;
     (e, m) \<leftarrow> map_h_lookup m path (to_cache_page_index page_index);
     if e \<noteq> NULL
     then do {
       (cblock, m) \<leftarrow> hit_entry m e;
       Some (True, cblock, unlock_map m)
     }
     else do {
       m \<leftarrow> Some (m\<lparr>miss_time := miss_time m + 1\<rparr>);
       m \<leftarrow> map_insert_work m path (to_cache_page_index page_index);
       Some (False, cblock, unlock_map m)
     }
   }"

definition lookup_mapping_with_insert ::
    "mapping \<Rightarrow> cstring \<Rightarrow> u32 \<Rightarrow> u32 \<Rightarrow> (bool \<times> u32 \<times> mapping) option" where
  "lookup_mapping_with_insert m path page_index cblock = do {
     m \<leftarrow> lock_map m;
     (e, m) \<leftarrow> map_h_lookup m path (to_cache_page_index page_index);
     if e \<noteq> NULL
     then do {
       (cblock, m) \<leftarrow> hit_entry m e;
       Some (True, cblock, unlock_map m)
     }
     else do {
       m \<leftarrow> Some (m\<lparr>miss_time := miss_time m + 1\<rparr>);
       (queued, q) \<leftarrow> contains_work (m_wq m) path (to_cache_page_index page_index);
       m \<leftarrow> Some (m\<lparr>m_wq := q\<rparr>);
       if queued then Some (False, cblock, unlock_map m)
       else if allocator_empty (m_ea m)
       then do {
         m \<leftarrow> map_insert_work m path (to_cache_page_index page_index);
         Some (False, cblock, unlock_map m)
       }
       else do {
         (e, m) \<leftarrow> map_alloc_entry m;
         m \<leftarrow> in_es (\<lambda>es. entry_set_dirty es e True) m;
         p \<leftarrow> strcpy (MAX_PATH_SIZE + 1) path;
         m \<leftarrow> in_es (\<lambda>es. store es e (\<lambda>x. x\<lparr>full_path_name := p\<rparr>)) m;
         m \<leftarrow> in_es (\<lambda>es. store es e
           (\<lambda>x. x\<lparr>cache_page_index := to_cache_page_index page_index\<rparr>)) m;
         m \<leftarrow> map_h_insert m e;
         m \<leftarrow> queue_add_tail m e;
         cblock \<leftarrow> infer_cblock m e;
         Some (e \<noteq> NULL, cblock, unlock_map m)
       }
     }
   }"

definition remove_mapping :: "mapping \<Rightarrow> cstring \<Rightarrow> u32 \<Rightarrow> (bool \<times> mapping) option" where
  "remove_mapping m path page_index = do {
     m \<leftarrow> lock_map m;
     (e, m) \<leftarrow> map_h_lookup m path (to_cache_page_index page_index);
     if e \<noteq> NULL
     then do {
       m \<leftarrow> queue_del m e;
       m \<leftarrow> map_h_remove m e;
       m \<leftarrow> map_free_entry m e;
       Some (True, unlock_map m)
     }
     else Some (False, unlock_map m)
   }"

definition set_dirty_after_write :: "mapping \<Rightarrow> u32 \<Rightarrow> bool \<Rightarrow> mapping option" where
  "set_dirty_after_write m cblock dirty = do {
     m \<leftarrow> lock_map m;
     e \<leftarrow> to_entry (m_es m) cblock;
     alloc \<leftarrow> entry_get_alloc (m_es m) e;
     if \<not> alloc then Some (unlock_map m)
     else do {
       pending \<leftarrow> entry_get_pending (m_es m) e;
       m \<leftarrow> (if pending then in_es (\<lambda>es. entry_set_dirty es e True) m
         else do {
           m \<leftarrow> queue_del m e;
           m \<leftarrow> in_es (\<lambda>es. entry_set_dirty es e True) m;
           queue_add_tail m e
         });
       Some (unlock_map m)
     }
   }"

subsection \<open>New memory\<close>

text \<open>The mapping in new shared memory, before \<open>init_mapping\<close>.\<close>

definition zero_mapping :: mapping where
  "zero_mapping = \<lparr>block_size = 0, cache_block_num = 0, block_per_cblock_shift = 0,
     block_per_page_shift = 0,
     m_es = zero_es,
     m_ea = \<lparr>ea_begin = 0, nr_allocated = 0, ea_free = zero_list\<rparr>, m_clean = zero_list,
     m_dirty = zero_list, m_table = \<lparr>hash_bits = 0, buckets = (\<lambda>_. 0)\<rparr>,
     mapping_lock = \<lparr>locked = 0\<rparr>, hit_time = 0, miss_time = 0, promotion_time = 0,
     demotion_time = 0, writeback_time = 0,
     m_wq = \<lparr>works = (\<lambda>_. \<lparr>work_path = [], work_index = 0\<rparr>), front = 0, rear = 0, wq_size = 0,
       wq_lock = \<lparr>locked = 0\<rparr>\<rparr>\<rparr>"


end
