(* ===== verification/Mapping_Steps.thy ===== *)
theory Mapping_Steps
  imports Cache_Mapping "HOL-Library.Multiset"
begin

text \<open>
  The structural invariant of the mapping and the effect on it of each primitive step the
  operations are made of. \<open>mcore m F C D T H\<close>: the free, clean and dirty lists spell \<open>F\<close>,
  \<open>C\<close> and \<open>D\<close>; together with the set \<open>T\<close> of entries in transit they partition the cache
  blocks; the hash table holds the set \<open>H\<close>, in which keys are pairwise different; every queued
  entry is in the table, and only queued or travelling entries are. \<open>keeps m m'\<close>: only the
  lists, the table and the links in the entries differ.
\<close>

subsection \<open>Reading and writing one entry\<close>

definition ent :: "mapping \<Rightarrow> u32 \<Rightarrow> entry" where
  "ent m x = entrys (m_es m) x"

definition put_entry :: "u32 \<Rightarrow> entry \<Rightarrow> mapping \<Rightarrow> mapping" where
  "put_entry x e m = m\<lparr>m_es := (m_es m)\<lparr>entrys := (entrys (m_es m))(x := e)\<rparr>\<rparr>"

definition mkey :: "mapping \<Rightarrow> u32 \<Rightarrow> key" where
  "mkey m x = ekey (ent m x)"

lemma ent_put [simp]: "ent (put_entry x e m) y = (if y = x then e else ent m y)"
  by (simp add: ent_def put_entry_def)

lemma mkey_put [simp]: "mkey (put_entry x e m) y = (if y = x then ekey e else mkey m y)"
  by (simp add: mkey_def)

lemma put_put [simp]: "put_entry x e (put_entry x e' m) = put_entry x e m"
  by (simp add: put_entry_def)

lemma put_entry_fields [simp]:
  "block_size (put_entry x e m) = block_size m"
  "cache_block_num (put_entry x e m) = cache_block_num m"
  "block_per_cblock_shift (put_entry x e m) = block_per_cblock_shift m"
  "block_per_page_shift (put_entry x e m) = block_per_page_shift m"
  "m_ea (put_entry x e m) = m_ea m" "m_clean (put_entry x e m) = m_clean m"
  "m_dirty (put_entry x e m) = m_dirty m" "m_table (put_entry x e m) = m_table m"
  "mapping_lock (put_entry x e m) = mapping_lock m" "m_wq (put_entry x e m) = m_wq m"
  "hit_time (put_entry x e m) = hit_time m" "miss_time (put_entry x e m) = miss_time m"
  "promotion_time (put_entry x e m) = promotion_time m"
  "demotion_time (put_entry x e m) = demotion_time m"
  "writeback_time (put_entry x e m) = writeback_time m"
  by (simp_all add: put_entry_def)

lemma in_es_flags:
  assumes "x < CACHE_BLOCK_NUMBER"
  shows "in_es (\<lambda>es. entry_set_pending es (Entry x) b) m = Some (put_entry x (with_flag 0 b (ent m x)) m)"
    and "in_es (\<lambda>es. entry_set_dirty es (Entry x) b) m = Some (put_entry x (with_flag 1 b (ent m x)) m)"
    and "in_es (\<lambda>es. store es (Entry x) f) m = Some (put_entry x (f (ent m x)) m)"
  using assms by (simp_all add: in_es_def set_flag_laws put_entry_def ent_def)

lemma get_flags:
  assumes "x < CACHE_BLOCK_NUMBER"
  shows "entry_get_pending (m_es m) (Entry x) = Some (is_pending (ent m x))"
    and "entry_get_dirty (m_es m) (Entry x) = Some (is_dirty (ent m x))"
    and "entry_get_alloc (m_es m) (Entry x) = Some (is_alloc (ent m x))"
  using assms by (simp_all add: get_flag_laws ent_def)

subsection \<open>The invariant and the frame\<close>

definition mcore :: "mapping \<Rightarrow> u32 list \<Rightarrow> u32 list \<Rightarrow> u32 list \<Rightarrow> u32 set \<Rightarrow> u32 set \<Rightarrow> bool" where
  "mcore m F C D T H \<longleftrightarrow>
     dll (m_es m) (ea_free (m_ea m)) F \<and> dll (m_es m) (m_clean m) C \<and> dll (m_es m) (m_dirty m) D \<and>
     distinct (F @ C @ D) \<and> T \<inter> set (F @ C @ D) = {} \<and>
     T \<union> set (F @ C @ D) = {i. i < cache_block_num m} \<and> cache_block_num m \<le> CACHE_BLOCK_NUMBER \<and>
     ea_begin (m_ea m) = 0 \<and>
     nr_allocated (m_ea m) + nr_elts (ea_free (m_ea m)) = cache_block_num m \<and>
     htab (m_es m) (m_table m) H \<and> inj_on (mkey m) H \<and>
     set C \<union> set D \<subseteq> H \<and> H \<subseteq> set C \<union> set D \<union> T"

definition same_info :: "entry \<Rightarrow> entry \<Rightarrow> bool" where
  "same_info e e' \<longleftrightarrow> param e' = param e \<and> ekey e' = ekey e"

definition keeps :: "mapping \<Rightarrow> mapping \<Rightarrow> bool" where
  "keeps m m' \<longleftrightarrow> block_size m' = block_size m \<and> cache_block_num m' = cache_block_num m \<and>
     block_per_cblock_shift m' = block_per_cblock_shift m \<and>
     block_per_page_shift m' = block_per_page_shift m \<and>
     mapping_lock m' = mapping_lock m \<and> m_wq m' = m_wq m \<and>
     hit_time m' = hit_time m \<and> miss_time m' = miss_time m \<and>
     promotion_time m' = promotion_time m \<and> demotion_time m' = demotion_time m \<and>
     writeback_time m' = writeback_time m \<and>
     (\<forall>y. same_info (ent m y) (ent m' y))"

lemma same_infoD:
  assumes "same_info e e'"
  shows "is_pending e' = is_pending e" and "is_dirty e' = is_dirty e" and "is_alloc e' = is_alloc e"
    and "ekey e' = ekey e"
  using assms by (simp_all add: same_info_def is_pending_def is_dirty_def is_alloc_def)

lemma keeps_ent: "keeps m m' \<Longrightarrow> same_info (ent m y) (ent m' y)"
  by (simp add: keeps_def)

lemma keeps_flags:
  assumes "keeps m m'"
  shows "is_pending (ent m' y) = is_pending (ent m y)" and "is_dirty (ent m' y) = is_dirty (ent m y)"
    and "is_alloc (ent m' y) = is_alloc (ent m y)" and "mkey m' y = mkey m y"
  using same_infoD [OF keeps_ent [OF assms, of y]] by (simp_all add: mkey_def)

lemma keeps_rest:
  assumes "keeps m m'"
  shows "block_size m' = block_size m" and "cache_block_num m' = cache_block_num m"
    and "block_per_cblock_shift m' = block_per_cblock_shift m"
    and "block_per_page_shift m' = block_per_page_shift m"
    and "mapping_lock m' = mapping_lock m" and "m_wq m' = m_wq m"
    and "hit_time m' = hit_time m" and "miss_time m' = miss_time m"
    and "promotion_time m' = promotion_time m" and "demotion_time m' = demotion_time m"
    and "writeback_time m' = writeback_time m"
  using assms by (auto simp: keeps_def)

lemma keeps_refl [simp]: "keeps m m"
  by (simp add: keeps_def same_info_def)

lemma keeps_trans: "keeps m m' \<Longrightarrow> keeps m' m'' \<Longrightarrow> keeps m m''"
  by (simp add: keeps_def same_info_def)

lemma keeps_upd:
  "(\<And>y. same_info (entrys (m_es m) y) (entrys es y)) \<Longrightarrow>
   keeps m (m\<lparr>m_es := es, m_ea := ea, m_clean := cl, m_dirty := di, m_table := ht\<rparr>)"
  by (simp add: keeps_def ent_def)

lemma link_frame_same_info: "link_frame A es es' \<Longrightarrow> same_info (entrys es y) (entrys es' y)"
  by (simp add: same_info_def ekey_def link_frame_data)

lemma hash_frame_same_info: "hash_frame es es' \<Longrightarrow> same_info (entrys es y) (entrys es' y)"
  by (simp add: same_info_def ekey_def hash_frame_def)

lemma ent_irrelevant [simp]:
  "ent (m\<lparr>mapping_lock := l\<rparr>) = ent m" "ent (m\<lparr>hit_time := n\<rparr>) = ent m"
  "ent (m\<lparr>miss_time := n\<rparr>) = ent m" "ent (m\<lparr>promotion_time := n\<rparr>) = ent m"
  "ent (m\<lparr>demotion_time := n\<rparr>) = ent m" "ent (m\<lparr>writeback_time := n\<rparr>) = ent m"
  "ent (m\<lparr>m_wq := q\<rparr>) = ent m"
  by (simp_all add: ent_def fun_eq_iff)

lemma mkey_irrelevant [simp]:
  "mkey (m\<lparr>mapping_lock := l\<rparr>) = mkey m" "mkey (m\<lparr>hit_time := n\<rparr>) = mkey m"
  "mkey (m\<lparr>miss_time := n\<rparr>) = mkey m" "mkey (m\<lparr>promotion_time := n\<rparr>) = mkey m"
  "mkey (m\<lparr>demotion_time := n\<rparr>) = mkey m" "mkey (m\<lparr>writeback_time := n\<rparr>) = mkey m"
  "mkey (m\<lparr>m_wq := q\<rparr>) = mkey m"
  by (simp_all add: mkey_def fun_eq_iff)

lemma mcore_irrelevant [simp]:
  "mcore (m\<lparr>mapping_lock := l\<rparr>) = mcore m" "mcore (m\<lparr>hit_time := n\<rparr>) = mcore m"
  "mcore (m\<lparr>miss_time := n\<rparr>) = mcore m" "mcore (m\<lparr>promotion_time := n\<rparr>) = mcore m"
  "mcore (m\<lparr>demotion_time := n\<rparr>) = mcore m" "mcore (m\<lparr>writeback_time := n\<rparr>) = mcore m"
  "mcore (m\<lparr>m_wq := q\<rparr>) = mcore m"
  by (simp_all add: mcore_def fun_eq_iff)

lemma mcore_bound: "mcore m F C D T H \<Longrightarrow> x \<in> T \<union> set F \<union> set C \<union> set D \<Longrightarrow> x < CACHE_BLOCK_NUMBER"
  unfolding mcore_def by (metis (no_types, lifting) Un_iff mem_Collect_eq order_less_le_trans set_append)

lemma mcore_infer: "mcore m F C D T H \<Longrightarrow> infer_cblock m (Entry x) = Some x"
  by (simp add: infer_cblock_def get_index_def mcore_def)

lemma mcore_free_empty: "mcore m F C D T H \<Longrightarrow> allocator_empty (m_ea m) \<longleftrightarrow> F = []"
  by (auto simp: mcore_def allocator_empty_law)


subsection \<open>Moving entries between the lists\<close>

lemma mcore_relink:
  assumes "mcore m F C D T H" and "keeps m m'" and "link_frame A (m_es m) (m_es m')"
    and "m_table m' = m_table m"
    and "dll (m_es m') (ea_free (m_ea m')) F'" and "dll (m_es m') (m_clean m') C'"
    and "dll (m_es m') (m_dirty m') D'" and "distinct (F' @ C' @ D')" and "T' \<inter> set (F' @ C' @ D') = {}"
    and "T' \<union> set (F' @ C' @ D') = T \<union> set (F @ C @ D)" and "ea_begin (m_ea m') = 0"
    and "nr_allocated (m_ea m') + nr_elts (ea_free (m_ea m')) =
      nr_allocated (m_ea m) + nr_elts (ea_free (m_ea m))"
    and "set C' \<union> set D' \<subseteq> H" and "H \<subseteq> set C' \<union> set D' \<union> T'"
  shows "mcore m' F' C' D' T' H"
proof -
  have "htab (m_es m') (m_table m') H"
    by (rule htab_cong [where es = "m_es m"])
       (use assms(1,4) in \<open>simp_all add: mcore_def ekey_def link_frame_data [OF assms(3)]\<close>)
  moreover have "inj_on (mkey m') H"
    using assms(1) keeps_flags(4) [OF assms(2)] by (simp add: mcore_def inj_on_def)
  moreover have "T' \<union> set (F' @ C' @ D') = {i. i < cache_block_num m'}"
    and "cache_block_num m' \<le> CACHE_BLOCK_NUMBER"
    and "nr_allocated (m_ea m') + nr_elts (ea_free (m_ea m')) = cache_block_num m'"
    using assms(1,10,12) keeps_rest(2) [OF assms(2)] by (simp_all only: mcore_def)
  ultimately show ?thesis
    using assms(5-9,11,13,14) by (simp only: mcore_def simp_thms)
qed

lemma keeps_relink:
  "link_frame A (m_es m) es \<Longrightarrow> keeps m (m\<lparr>m_es := es, m_clean := l\<rparr>)"
  "link_frame A (m_es m) es \<Longrightarrow> keeps m (m\<lparr>m_es := es, m_dirty := l\<rparr>)"
  "link_frame A (m_es m) es \<Longrightarrow> keeps m (m\<lparr>m_ea := ea, m_es := es\<rparr>)"
  by (simp_all add: keeps_def ent_def link_frame_same_info)

lemma mcore_dll:
  assumes "mcore m F C D T H"
  shows "dll (m_es m) (ea_free (m_ea m)) F" and "dll (m_es m) (m_clean m) C"
    and "dll (m_es m) (m_dirty m) D"
    and "distinct F" and "distinct C" and "distinct D"
    and "set F \<inter> set C = {}" and "set F \<inter> set D = {}" and "set C \<inter> set D = {}"
    and "T \<inter> set F = {}" and "T \<inter> set C = {}" and "T \<inter> set D = {}"
    and "set C \<union> set D \<subseteq> H" and "H \<subseteq> set C \<union> set D \<union> T"
  using assms by (auto simp: mcore_def)

lemma del_clean_step:
  assumes "mcore m F C D T H" and "x \<in> set C"
  obtains m' where "queue_apply l_del False m (Entry x) = Some m'"
    and "mcore m' F (remove1 x C) D (insert x T) H" and "keeps m m'"
proof -
  note dlls = mcore_dll [OF assms(1)]
  obtain es l where d: "l_del (m_es m) (m_clean m) (Entry x) = Some (es, l)" "dll es l (remove1 x C)"
      and f: "link_frame (set C - {x}) (m_es m) es"
    by (rule il.delete_mem [OF dlls(2) assms(2)])
  let ?m = "m\<lparr>m_es := es, m_clean := l\<rparr>"
  have k: "keeps m ?m" by (rule keeps_relink [OF f])
  have "mcore ?m F (remove1 x C) D (insert x T) H"
  proof (rule mcore_relink [OF assms(1) k])
    show "dll (m_es ?m) (ea_free (m_ea ?m)) F" "dll (m_es ?m) (m_dirty ?m) D"
      using dlls by (auto intro: dll_link_frame [OF _ f])
  qed (use d f dlls assms in \<open>auto simp: mcore_def\<close>)
  then show ?thesis using that d k by (simp add: queue_apply_def)
qed

lemma del_dirty_step:
  assumes "mcore m F C D T H" and "x \<in> set D"
  obtains m' where "queue_apply l_del True m (Entry x) = Some m'"
    and "mcore m' F C (remove1 x D) (insert x T) H" and "keeps m m'"
proof -
  note dlls = mcore_dll [OF assms(1)]
  obtain es l where d: "l_del (m_es m) (m_dirty m) (Entry x) = Some (es, l)" "dll es l (remove1 x D)"
      and f: "link_frame (set D - {x}) (m_es m) es"
    by (rule il.delete_mem [OF dlls(3) assms(2)])
  let ?m = "m\<lparr>m_es := es, m_dirty := l\<rparr>"
  have k: "keeps m ?m" by (rule keeps_relink [OF f])
  have "mcore ?m F C (remove1 x D) (insert x T) H"
  proof (rule mcore_relink [OF assms(1) k])
    show "dll (m_es ?m) (ea_free (m_ea ?m)) F" "dll (m_es ?m) (m_clean ?m) C"
      using dlls by (auto intro: dll_link_frame [OF _ f])
  qed (use d f dlls assms in \<open>auto simp: mcore_def\<close>)
  then show ?thesis using that d k by (simp add: queue_apply_def)
qed

text \<open>
  A travelling entry that is in the table joins a queue; \<open>ins\<close> says where the list operation
  puts it.
\<close>

definition list_inserts :: "(entry_space \<Rightarrow> ilist \<Rightarrow> entry_ptr \<Rightarrow> (entry_space \<times> ilist) option) \<Rightarrow>
    (u32 \<Rightarrow> u32 list \<Rightarrow> u32 list) \<Rightarrow> bool" where
  "list_inserts list_op ins \<longleftrightarrow>
     (\<forall>x xs. mset (ins x xs) = add_mset x (mset xs)) \<and>
     (\<forall>es l xs x. dll es l xs \<longrightarrow> x \<notin> set xs \<longrightarrow> x < CACHE_BLOCK_NUMBER \<longrightarrow>
        (\<exists>es' l'. list_op es l (Entry x) = Some (es', l') \<and> dll es' l' (ins x xs) \<and>
           link_frame (insert x (set xs)) es es'))"

lemma list_inserts_tail: "list_inserts l_add_tail (\<lambda>x xs. xs @ [x])"
  unfolding list_inserts_def using l_add_tail_law by auto

lemma list_inserts_head: "list_inserts l_add_head (\<lambda>x xs. x # xs)"
  unfolding list_inserts_def using l_add_head_law by auto

lemma list_inserts_set:
  assumes "list_inserts list_op ins"
  shows "set (ins x xs) = insert x (set xs)" and "distinct (ins x xs) \<longleftrightarrow> x \<notin> set xs \<and> distinct xs"
proof -
  have "mset (ins x xs) = mset (x # xs)"
    using assms by (simp add: list_inserts_def)
  then show "set (ins x xs) = insert x (set xs)" "distinct (ins x xs) \<longleftrightarrow> x \<notin> set xs \<and> distinct xs"
    by (metis list.simps(15) set_mset_mset, metis distinct.simps(2) mset_eq_imp_distinct_iff)
qed

lemma add_clean_step:
  assumes "mcore m F C D T H" and "x \<in> T" and "x \<in> H" and "list_inserts list_op ins"
  obtains m' where "queue_apply list_op False m (Entry x) = Some m'"
    and "mcore m' F (ins x C) D (T - {x}) H" and "keeps m m'"
proof -
  note dlls = mcore_dll [OF assms(1)]
  have x: "x \<notin> set C" "x < CACHE_BLOCK_NUMBER"
    using dlls assms(2) mcore_bound [OF assms(1), of x] by auto
  obtain es l where d: "list_op (m_es m) (m_clean m) (Entry x) = Some (es, l)" "dll es l (ins x C)"
      and f: "link_frame (insert x (set C)) (m_es m) es"
    using assms(4) dlls(2) x unfolding list_inserts_def by meson
  let ?m = "m\<lparr>m_es := es, m_clean := l\<rparr>"
  have k: "keeps m ?m" by (rule keeps_relink [OF f])
  have "mcore ?m F (ins x C) D (T - {x}) H"
  proof (rule mcore_relink [OF assms(1) k])
    show "dll (m_es ?m) (ea_free (m_ea ?m)) F" "dll (m_es ?m) (m_dirty ?m) D"
      using dlls assms(2) by (auto intro: dll_link_frame [OF _ f])
  qed (use d f dlls assms x in \<open>auto simp: mcore_def list_inserts_set [OF assms(4)]\<close>)
  then show ?thesis using that d k by (simp add: queue_apply_def)
qed

lemma add_dirty_step:
  assumes "mcore m F C D T H" and "x \<in> T" and "x \<in> H" and "list_inserts list_op ins"
  obtains m' where "queue_apply list_op True m (Entry x) = Some m'"
    and "mcore m' F C (ins x D) (T - {x}) H" and "keeps m m'"
proof -
  note dlls = mcore_dll [OF assms(1)]
  have x: "x \<notin> set D" "x < CACHE_BLOCK_NUMBER"
    using dlls assms(2) mcore_bound [OF assms(1), of x] by auto
  obtain es l where d: "list_op (m_es m) (m_dirty m) (Entry x) = Some (es, l)" "dll es l (ins x D)"
      and f: "link_frame (insert x (set D)) (m_es m) es"
    using assms(4) dlls(3) x unfolding list_inserts_def by meson
  let ?m = "m\<lparr>m_es := es, m_dirty := l\<rparr>"
  have k: "keeps m ?m" by (rule keeps_relink [OF f])
  have "mcore ?m F C (ins x D) (T - {x}) H"
  proof (rule mcore_relink [OF assms(1) k])
    show "dll (m_es ?m) (ea_free (m_ea ?m)) F" "dll (m_es ?m) (m_clean ?m) C"
      using dlls assms(2) by (auto intro: dll_link_frame [OF _ f])
  qed (use d f dlls assms x in \<open>auto simp: mcore_def list_inserts_set [OF assms(4)]\<close>)
  then show ?thesis using that d k by (simp add: queue_apply_def)
qed


subsection \<open>Writing one entry\<close>

lemma dll_put:
  "dll (m_es m) l xs \<Longrightarrow> e_prev e = e_prev (ent m x) \<Longrightarrow> e_next e = e_next (ent m x) \<Longrightarrow>
   dll (m_es (put_entry x e m)) l xs"
  using links_cong [of xs "(entrys (m_es m))(x := e)" "entrys (m_es m)" INDEXER_NULL INDEXER_NULL]
  by (simp add: dll_def put_entry_def ent_def)

text \<open>A flag changes: the lists and the table do not notice.\<close>

lemma mcore_put_flag:
  assumes "mcore m F C D T H"
  shows "mcore (put_entry x (with_flag n b (ent m x)) m) F C D T H"
proof -
  let ?m = "put_entry x (with_flag n b (ent m x)) m"
  have "htab (m_es ?m) (m_table m) H"
    by (rule htab_cong [where es = "m_es m"])
       (use assms in \<open>auto simp: mcore_def put_entry_def ekey_def ent_def\<close>)
  moreover have "mkey ?m = mkey m"
    by (auto simp: mkey_def ekey_def fun_eq_iff)
  ultimately show ?thesis
    using assms unfolding mcore_def by (auto intro: dll_put)
qed

text \<open>A travelling entry outside the table can be overwritten.\<close>

lemma mcore_put_out:
  assumes "mcore m F C D T H" and "x \<in> T" and "x \<notin> H"
  shows "mcore (put_entry x e m) F C D T H"
proof -
  let ?m = "put_entry x e m"
  have out: "x \<notin> set F" "x \<notin> set C" "x \<notin> set D"
    using mcore_dll [OF assms(1)] assms(2) by auto
  have "htab (m_es ?m) (m_table m) H"
    by (rule htab_cong [where es = "m_es m"])
       (use assms in \<open>auto simp: mcore_def put_entry_def ent_def\<close>)
  moreover have "inj_on (mkey ?m) H"
    using assms by (auto simp: mcore_def inj_on_def)
  moreover have "dll (m_es ?m) (ea_free (m_ea m)) F" "dll (m_es ?m) (m_clean m) C"
      "dll (m_es ?m) (m_dirty m) D"
    using mcore_dll(1-3) [OF assms(1)] out by (auto intro: dll_frame simp: put_entry_def)
  ultimately show ?thesis
    using assms(1) by (simp add: mcore_def)
qed

subsection \<open>The allocator and the table\<close>

lemma alloc_step:
  assumes "mcore m (x # F) C D T H"
  obtains m1 where
    "map_alloc_entry m = Some (Entry x, put_entry x (fresh_entry (ent m1 x)) m1)"
    and "mcore (put_entry x (fresh_entry (ent m1 x)) m1) F C D (insert x T) H" and "keeps m m1"
proof -
  note dlls = mcore_dll [OF assms]
  obtain es l where a: "alloc_entry (m_ea m) (m_es m) =
      Some (Entry x, (m_ea m)\<lparr>ea_free := l, nr_allocated := nr_allocated (m_ea m) + 1\<rparr>,
        es\<lparr>entrys := (entrys es)(x := fresh_entry (entrys es x))\<rparr>)"
    and d: "dll (es\<lparr>entrys := (entrys es)(x := fresh_entry (entrys es x))\<rparr>) l F"
    and f: "link_frame (set F) (m_es m) es"
    using alloc_entry_law [OF dlls(1)] by blast
  let ?ea = "(m_ea m)\<lparr>ea_free := l, nr_allocated := nr_allocated (m_ea m) + 1\<rparr>"
  let ?m1 = "m\<lparr>m_ea := ?ea, m_es := es\<rparr>"
  have k: "keeps m ?m1" by (rule keeps_relink [OF f])
  have x: "x \<notin> set F" "x \<notin> set C" "x \<notin> set D" "x \<notin> T" using dlls by auto
  have xH: "x \<notin> H" using x dlls(14) by auto
  have l: "dll es l F"
    using x(1) by (intro dll_frame [OF d]) auto
  have nr: "nr_elts (ea_free (m_ea m)) = nr_elts l + 1"
    using dlls(1) l by (simp add: dll_def)
  have "mcore ?m1 F C D (insert x T) H"
  proof (rule mcore_relink [OF assms k])
    show "dll (m_es ?m1) (m_clean ?m1) C" "dll (m_es ?m1) (m_dirty ?m1) D"
      using dlls by (auto intro: dll_link_frame [OF _ f])
  qed (use l f dlls x assms in \<open>auto simp: mcore_def nr ac_simps\<close>)
  then have "mcore (put_entry x (fresh_entry (ent ?m1 x)) ?m1) F C D (insert x T) H"
    by (rule mcore_put_out) (use xH in auto)
  moreover have "map_alloc_entry m = Some (Entry x, put_entry x (fresh_entry (ent ?m1 x)) ?m1)"
    by (simp add: map_alloc_entry_def a put_entry_def ent_def)
  ultimately show ?thesis using that k by blast
qed

lemma free_step:
  assumes "mcore m F C D T H" and "x \<in> T" and "x \<notin> H"
  obtains m' where "map_free_entry m (Entry x) = Some m'"
    and "mcore m' (F @ [x]) C D (T - {x}) H"
    and "keeps (put_entry x (with_flag 2 False (ent m x)) m) m'"
proof -
  let ?m = "put_entry x (with_flag 2 False (ent m x)) m"
  have c: "mcore ?m F C D T H" by (rule mcore_put_flag [OF assms(1)])
  note dlls = mcore_dll [OF c]
  have x: "x \<notin> set F" "x \<notin> set C" "x \<notin> set D" "x < CACHE_BLOCK_NUMBER"
    using dlls assms(2) mcore_bound [OF c, of x] by auto
  obtain es l where a: "free_entry (m_ea m) (m_es m) (Entry x) =
      Some ((m_ea m)\<lparr>nr_allocated := nr_allocated (m_ea m) - 1, ea_free := l\<rparr>, es)"
    and d: "dll es l (F @ [x])"
    and f: "link_frame (insert x (set F)) (m_es ?m) es"
    using free_entry_law [OF mcore_dll(1) [OF assms(1)] x(1,4)] by (auto simp: put_entry_def ent_def)
  let ?ea = "(m_ea m)\<lparr>nr_allocated := nr_allocated (m_ea m) - 1, ea_free := l\<rparr>"
  let ?m' = "m\<lparr>m_ea := ?ea, m_es := es\<rparr>"
  have m': "?m' = ?m\<lparr>m_ea := ?ea, m_es := es\<rparr>" by (simp add: put_entry_def)
  have k: "keeps ?m ?m'" unfolding m' by (rule keeps_relink [OF f])
  have nr: "nr_elts l = nr_elts (ea_free (m_ea m)) + 1"
    using mcore_dll(1) [OF assms(1)] d by (simp add: dll_def)
  have "mcore ?m' (F @ [x]) C D (T - {x}) H"
  proof (rule mcore_relink [OF c k])
    show "dll (m_es ?m') (m_clean ?m') C" "dll (m_es ?m') (m_dirty ?m') D"
      using dlls x assms(2) by (auto intro: dll_link_frame [OF _ f])
  qed (use d f dlls x assms in \<open>auto simp: mcore_def nr\<close>)
  then show ?thesis using that a k by (simp add: map_free_entry_def)
qed

lemma keeps_hash: "hash_frame (m_es m) es \<Longrightarrow> keeps m (m\<lparr>m_table := ht, m_es := es\<rparr>)"
  by (simp add: keeps_def ent_def hash_frame_same_info)

lemma mcore_rehash:
  assumes "mcore m F C D T H" and "hash_frame (m_es m) es" and "htab es ht H'"
    and "inj_on (mkey m) H'" and "set C \<union> set D \<subseteq> H'" and "H' \<subseteq> set C \<union> set D \<union> T"
  shows "mcore (m\<lparr>m_table := ht, m_es := es\<rparr>) F C D T H'"
proof -
  have "mkey (m\<lparr>m_table := ht, m_es := es\<rparr>) = mkey m"
    using keeps_flags(4) [OF keeps_hash [OF assms(2)]] by (simp add: fun_eq_iff)
  with assms show ?thesis
    unfolding mcore_def by (auto intro: dll_hash_frame)
qed

lemma h_insert_step:
  assumes "mcore m F C D T H" and "x \<in> T" and "x \<notin> H" and "\<And>y. y \<in> H \<Longrightarrow> mkey m y \<noteq> mkey m x"
  obtains m' where "map_h_insert m (Entry x) = Some m'"
    and "mcore m' F C D T (insert x H)" and "keeps m m'"
proof -
  have "htab (m_es m) (m_table m) H" and "x < CACHE_BLOCK_NUMBER"
    using assms(1,2) mcore_bound [OF assms(1), of x] by (auto simp: mcore_def)
  then obtain ht es where h: "h_insert (m_table m) (m_es m) (Entry x) = Some (ht, es)"
      "htab es ht (insert x H)" "hash_frame (m_es m) es"
    using h_insert_law assms(3) by blast
  have "inj_on (mkey m) (insert x H)"
    using assms(1,3,4) by (auto simp: mcore_def inj_on_def) metis+
  then have "mcore (m\<lparr>m_table := ht, m_es := es\<rparr>) F C D T (insert x H)"
    using mcore_dll(13,14) [OF assms(1)] assms(2)
    by (intro mcore_rehash [OF assms(1) h(3,2)]) auto
  then show ?thesis
    using that h keeps_hash [OF h(3)] by (simp add: map_h_insert_def)
qed

lemma h_remove_step:
  assumes "mcore m F C D T H" and "x \<in> T" and "x \<in> H"
  obtains m' where "map_h_remove m (Entry x) = Some m'"
    and "mcore m' F C D T (H - {x})" and "keeps m m'"
proof -
  have t: "htab (m_es m) (m_table m) H" and inj: "inj_on (\<lambda>y. ekey (entrys (m_es m) y)) H"
    using assms(1) by (simp_all add: mcore_def mkey_def ent_def inj_on_def)
  obtain ht es where h: "h_remove (m_table m) (m_es m) (Entry x) = Some (ht, es)"
      "htab es ht (H - {x})" "hash_frame (m_es m) es"
    using h_remove_law [OF t inj assms(3)] by blast
  have "inj_on (mkey m) (H - {x})"
    using assms(1) by (simp add: mcore_def inj_on_diff)
  then have "mcore (m\<lparr>m_table := ht, m_es := es\<rparr>) F C D T (H - {x})"
    using mcore_dll [OF assms(1)] assms(2)
    by (intro mcore_rehash [OF assms(1) h(3,2)]) auto
  then show ?thesis
    using that h keeps_hash [OF h(3)] by (simp add: map_h_remove_def)
qed

lemma h_lookup_step:
  assumes "mcore m F C D T H" and "x \<in> H" and "mkey m x = (p, c)"
  obtains m' where "map_h_lookup m p c = Some (Entry x, m')" and "mcore m' F C D T H" and "keeps m m'"
proof -
  have t: "htab (m_es m) (m_table m) H" and inj: "inj_on (\<lambda>y. ekey (entrys (m_es m) y)) H"
    using assms(1) by (simp_all add: mcore_def mkey_def ent_def inj_on_def)
  obtain ht es where h: "h_lookup (m_table m) (m_es m) p c = Some (Entry x, ht, es)"
      "htab es ht H" "hash_frame (m_es m) es"
    using lookup_hit [OF t inj assms(2)] assms(3) by (auto simp: mkey_def ent_def)
  have "mcore (m\<lparr>m_table := ht, m_es := es\<rparr>) F C D T H"
    using assms(1) by (intro mcore_rehash [OF assms(1) h(3,2)]) (auto simp: mcore_def)
  then show ?thesis
    using that h keeps_hash [OF h(3)] by (simp add: map_h_lookup_def)
qed

lemma h_lookup_none:
  assumes "mcore m F C D T H" and "\<And>x. x \<in> H \<Longrightarrow> mkey m x \<noteq> (p, c)"
  shows "map_h_lookup m p c = Some (NULL, m)"
  using lookup_miss [of "m_es m" "m_table m" H p c] assms
  by (simp add: map_h_lookup_def mcore_def mkey_def ent_def)

end
