(* ===== verification/Mapping_Ops.thy ===== *)
theory Mapping_Ops
  imports Mapping_Steps
begin

text \<open>
  What each operation of the mapping does, against an abstract cache. The record \<open>cache_view\<close>
  has the three lists from least to most recently used, the key of every used block, the
  blocks a migration is moving (with the dirty bit they carry), the map from keys to blocks,
  the promotion queue and the counters. \<open>view_of\<close> reads it off the shared memory. The
  functions \<open>a_lookup\<close> to \<open>a_set_dirty\<close> say in one line each what an operation means;
  the laws prove that the C operation returns, keeps \<open>map_inv\<close>, releases the lock, and
  commutes with \<open>view_of\<close>.
\<close>

subsection \<open>The invariant of the mapping\<close>

definition flags_ok :: "mapping \<Rightarrow> u32 list \<Rightarrow> u32 list \<Rightarrow> u32 list \<Rightarrow> u32 set \<Rightarrow> bool" where
  "flags_ok m F C D T \<longleftrightarrow> (\<forall>x \<in> set F. \<not> is_alloc (ent m x)) \<and>
     (\<forall>x \<in> set C. is_alloc (ent m x) \<and> \<not> is_pending (ent m x) \<and> \<not> is_dirty (ent m x)) \<and>
     (\<forall>x \<in> set D. is_alloc (ent m x) \<and> \<not> is_pending (ent m x) \<and> is_dirty (ent m x)) \<and>
     (\<forall>x \<in> T. is_alloc (ent m x) \<and> is_pending (ent m x))"

text \<open>\<open>P\<close> is the set of blocks under promotion: in transit and not yet in the table.\<close>

definition minv :: "mapping \<Rightarrow> u32 list \<Rightarrow> u32 list \<Rightarrow> u32 list \<Rightarrow> u32 set \<Rightarrow> u32 set \<Rightarrow> bool" where
  "minv m F C D T P \<longleftrightarrow> mcore m F C D T (set C \<union> set D \<union> (T - P)) \<and> flags_ok m F C D T \<and> P \<subseteq> T"

definition ready :: "mapping \<Rightarrow> bool" where
  "ready m \<longleftrightarrow> locked (mapping_lock m) = 0 \<and> wq_inv (m_wq m)"

definition map_inv :: "u32 set \<Rightarrow> mapping \<Rightarrow> bool" where
  "map_inv P m \<longleftrightarrow> (\<exists>F C D T. minv m F C D T P) \<and> ready m"

subsection \<open>The abstract cache\<close>

record cache_view =
  v_blocks :: u32
  v_free :: "u32 list"
  v_clean :: "u32 list"
  v_dirty :: "u32 list"
  v_key :: "u32 \<Rightarrow> key option"
  v_moving :: "u32 \<Rightarrow> bool option"
  v_map :: "key \<Rightarrow> u32 option"
  v_work :: "work list"
  v_hits :: u32
  v_misses :: u32
  v_promotions :: u32
  v_demotions :: u32
  v_writebacks :: u32
  v_shift :: u32

definition view_of :: "mapping \<Rightarrow> cache_view" where
  "view_of m = \<lparr>v_blocks = cache_block_num m, v_free = elems (m_es m) (ea_free (m_ea m)),
     v_clean = elems (m_es m) (m_clean m), v_dirty = elems (m_es m) (m_dirty m),
     v_key = (\<lambda>x. if is_alloc (ent m x) then Some (mkey m x) else None),
     v_moving = (\<lambda>x. if is_alloc (ent m x) \<and> is_pending (ent m x) then Some (is_dirty (ent m x)) else None),
     v_map = table_find (m_es m) (m_table m), v_work = items (m_wq m),
     v_hits = hit_time m, v_misses = miss_time m, v_promotions = promotion_time m,
     v_demotions = demotion_time m, v_writebacks = writeback_time m,
     v_shift = block_per_cblock_shift m\<rparr>"

definition touch :: "'a \<Rightarrow> 'a list \<Rightarrow> 'a list" where
  "touch x xs = (if x \<in> set xs then remove1 x xs @ [x] else xs)"

definition work_of :: "key \<Rightarrow> work" where
  "work_of k = \<lparr>work_path = fst k, work_index = snd k\<rparr>"

definition enqueue :: "(u32 \<Rightarrow> u32 list \<Rightarrow> u32 list) \<Rightarrow> bool \<Rightarrow> u32 \<Rightarrow> cache_view \<Rightarrow> cache_view" where
  "enqueue ins dirty x v =
     (if dirty then v\<lparr>v_dirty := ins x (v_dirty v)\<rparr> else v\<lparr>v_clean := ins x (v_clean v)\<rparr>)"

abbreviation to_tail :: "u32 \<Rightarrow> u32 list \<Rightarrow> u32 list" where
  "to_tail x xs \<equiv> xs @ [x]"

definition a_hit :: "u32 \<Rightarrow> cache_view \<Rightarrow> cache_view" where
  "a_hit x v = v\<lparr>v_hits := v_hits v + 1, v_clean := touch x (v_clean v)\<rparr>"

definition a_request :: "key \<Rightarrow> cache_view \<Rightarrow> cache_view" where
  "a_request k v = v\<lparr>v_work := list_queue_op 15 (Enq (work_of k)) (v_work v)\<rparr>"

definition a_miss :: "cache_view \<Rightarrow> cache_view" where
  "a_miss v = v\<lparr>v_misses := v_misses v + 1\<rparr>"

definition a_lookup :: "key \<Rightarrow> cache_view \<Rightarrow> u32 option \<times> cache_view" where
  "a_lookup k v = (case v_map v k of
     Some x \<Rightarrow> (Some x, a_hit x v)
   | None \<Rightarrow> (None, a_request k (a_miss v)))"

text \<open>A queued work whose path is a prefix of the key's path holds the key back.\<close>

definition held_back :: "key \<Rightarrow> work list \<Rightarrow> bool" where
  "held_back k ws \<longleftrightarrow> (\<exists>w \<in> set ws. work_index w = snd k \<and>
     strncmp_zero (work_path w) (fst k) (length (work_path w)))"

definition a_insert :: "key \<Rightarrow> cache_view \<Rightarrow> u32 option \<times> cache_view" where
  "a_insert k v = (case v_map v k of
     Some x \<Rightarrow> (Some x, a_hit x v)
   | None \<Rightarrow>
       if held_back k (v_work v) then (None, a_miss v)
       else (case v_free v of
         [] \<Rightarrow> (None, a_request k (a_miss v))
       | x # F \<Rightarrow> (Some x, (a_miss v)\<lparr>v_free := F, v_dirty := v_dirty v @ [x],
           v_key := (v_key v)(x \<mapsto> k), v_map := (v_map v)(k \<mapsto> x)\<rparr>)))"

definition a_remove :: "key \<Rightarrow> cache_view \<Rightarrow> bool \<times> cache_view" where
  "a_remove k v = (case v_map v k of
     Some x \<Rightarrow> (True, v\<lparr>v_clean := remove1 x (v_clean v), v_dirty := remove1 x (v_dirty v),
       v_free := v_free v @ [x], v_key := (v_key v)(x := None), v_map := (v_map v)(k := None)\<rparr>)
   | None \<Rightarrow> (False, v))"

definition a_set_dirty :: "u32 \<Rightarrow> cache_view \<Rightarrow> cache_view" where
  "a_set_dirty x v =
     (if v_key v x = None then v
      else if v_moving v x \<noteq> None then v\<lparr>v_moving := (v_moving v)(x \<mapsto> True)\<rparr>
      else v\<lparr>v_clean := remove1 x (v_clean v), v_dirty := remove1 x (v_dirty v) @ [x]\<rparr>)"

definition a_promote_start :: "key \<Rightarrow> cache_view \<Rightarrow> (u32 \<times> cache_view) option" where
  "a_promote_start k v = (case v_free v of
     [] \<Rightarrow> None
   | x # F \<Rightarrow> Some (x, v\<lparr>v_free := F, v_key := (v_key v)(x \<mapsto> k),
       v_moving := (v_moving v)(x \<mapsto> False)\<rparr>))"

text \<open>The end of a move: the block leaves transit for a queue, or for the free list.\<close>

definition a_settle :: "(u32 \<Rightarrow> u32 list \<Rightarrow> u32 list) \<Rightarrow> u32 \<Rightarrow> cache_view \<Rightarrow> cache_view" where
  "a_settle ins x v =
     (enqueue ins (v_moving v x = Some True) x v)\<lparr>v_moving := (v_moving v)(x := None)\<rparr>"

definition a_drop :: "u32 \<Rightarrow> cache_view \<Rightarrow> cache_view" where
  "a_drop x v = v\<lparr>v_free := v_free v @ [x], v_key := (v_key v)(x := None),
     v_moving := (v_moving v)(x := None)\<rparr>"

definition a_promote_end :: "u32 \<Rightarrow> bool \<Rightarrow> cache_view \<Rightarrow> cache_view" where
  "a_promote_end x success v =
     (if success
      then (a_settle to_tail x v)\<lparr>v_promotions := v_promotions v + 1,
        v_map := (v_map v)(the (v_key v x) \<mapsto> x)\<rparr>
      else a_drop x v)"

definition a_demote_start :: "cache_view \<Rightarrow> (u32 \<times> cache_view) option" where
  "a_demote_start v = (case v_clean v of
     x # C \<Rightarrow> if length (v_clean v) \<le> unat (v_blocks v) div 2 then None
       else Some (x, v\<lparr>v_clean := C, v_moving := (v_moving v)(x \<mapsto> False)\<rparr>)
   | [] \<Rightarrow> None)"

definition a_demote_end :: "u32 \<Rightarrow> bool \<Rightarrow> cache_view \<Rightarrow> cache_view" where
  "a_demote_end x success v =
     (if success
      then (a_drop x v)\<lparr>v_demotions := v_demotions v + 1, v_map := (v_map v)(the (v_key v x) := None)\<rparr>
      else a_settle to_tail x v)"

definition a_writeback_start :: "cache_view \<Rightarrow> (u32 \<times> cache_view) option" where
  "a_writeback_start v = (case v_dirty v of
     x # D \<Rightarrow> Some (x, v\<lparr>v_dirty := D, v_moving := (v_moving v)(x \<mapsto> False)\<rparr>)
   | [] \<Rightarrow> None)"

definition a_writeback_end :: "u32 \<Rightarrow> bool \<Rightarrow> cache_view \<Rightarrow> cache_view" where
  "a_writeback_end x success v =
     (if success then (a_settle to_tail x v)\<lparr>v_writebacks := v_writebacks v + 1\<rparr>
      else a_settle (#) x v)"

subsection \<open>Reading the view under the invariant\<close>

lemma minv_core:
  assumes "minv m F C D T P"
  shows "mcore m F C D T (set C \<union> set D \<union> (T - P))" and "flags_ok m F C D T" and "P \<subseteq> T"
  using assms by (simp_all add: minv_def)

lemma minv_irrelevant [simp]:
  "minv (m\<lparr>mapping_lock := l\<rparr>) = minv m" "minv (m\<lparr>hit_time := n\<rparr>) = minv m"
  "minv (m\<lparr>miss_time := n\<rparr>) = minv m" "minv (m\<lparr>promotion_time := n\<rparr>) = minv m"
  "minv (m\<lparr>demotion_time := n\<rparr>) = minv m" "minv (m\<lparr>writeback_time := n\<rparr>) = minv m"
  "minv (m\<lparr>m_wq := q\<rparr>) = minv m"
  by (simp_all add: minv_def flags_ok_def fun_eq_iff)

lemma mcore_find:
  "mcore m F C D T H \<Longrightarrow> table_find (m_es m) (m_table m) k = Some x \<longleftrightarrow> x \<in> H \<and> mkey m x = k"
  using table_find_law [of "m_es m" "m_table m" H k x]
  by (simp add: mcore_def mkey_def ent_def inj_on_def)

lemma mcore_find_None:
  "mcore m F C D T H \<Longrightarrow> table_find (m_es m) (m_table m) k = None \<longleftrightarrow> (\<forall>x \<in> H. mkey m x \<noteq> k)"
  using mcore_find [of m F C D T H k] by (cases "table_find (m_es m) (m_table m) k") auto

lemma view_eqI:
  assumes "mcore m F C D T H"
    and "v_blocks v = cache_block_num m" and "v_free v = F" and "v_clean v = C" and "v_dirty v = D"
    and "\<And>x. v_key v x = (if is_alloc (ent m x) then Some (mkey m x) else None)"
    and "\<And>x. v_moving v x = (if is_alloc (ent m x) \<and> is_pending (ent m x)
      then Some (is_dirty (ent m x)) else None)"
    and "\<And>k x. v_map v k = Some x \<longleftrightarrow> x \<in> H \<and> mkey m x = k"
    and "v_work v = items (m_wq m)" and "v_hits v = hit_time m" and "v_misses v = miss_time m"
    and "v_promotions v = promotion_time m" and "v_demotions v = demotion_time m"
    and "v_writebacks v = writeback_time m" and "v_shift v = block_per_cblock_shift m"
  shows "view_of m = v"
proof -
  have "v_map v = table_find (m_es m) (m_table m)"
    by (rule ext, rule option_eqI) (simp add: assms(8) mcore_find [OF assms(1)])
  with assms show ?thesis
    by (simp add: view_of_def dll_elems mcore_dll [OF assms(1)] fun_eq_iff cache_view.equality)
qed

lemma view_fields:
  assumes "mcore m F C D T H"
  shows "v_blocks (view_of m) = cache_block_num m" and "v_free (view_of m) = F"
    and "v_clean (view_of m) = C" and "v_dirty (view_of m) = D"
    and "v_key (view_of m) x = (if is_alloc (ent m x) then Some (mkey m x) else None)"
    and "v_moving (view_of m) x = (if is_alloc (ent m x) \<and> is_pending (ent m x)
      then Some (is_dirty (ent m x)) else None)"
    and "v_map (view_of m) k = Some y \<longleftrightarrow> y \<in> H \<and> mkey m y = k"
    and "v_work (view_of m) = items (m_wq m)" and "v_hits (view_of m) = hit_time m"
    and "v_misses (view_of m) = miss_time m" and "v_promotions (view_of m) = promotion_time m"
    and "v_demotions (view_of m) = demotion_time m" and "v_writebacks (view_of m) = writeback_time m"
    and "v_shift (view_of m) = block_per_cblock_shift m"
  by (simp_all add: view_of_def dll_elems [OF mcore_dll(1) [OF assms]]
      dll_elems [OF mcore_dll(2) [OF assms]] dll_elems [OF mcore_dll(3) [OF assms]]
      mcore_find [OF assms])


lemma minv_flags:
  assumes "minv m F C D T P"
  shows "x \<in> set F \<Longrightarrow> \<not> is_alloc (ent m x)"
    and "x \<in> set C \<Longrightarrow> is_alloc (ent m x) \<and> \<not> is_pending (ent m x) \<and> \<not> is_dirty (ent m x)"
    and "x \<in> set D \<Longrightarrow> is_alloc (ent m x) \<and> \<not> is_pending (ent m x) \<and> is_dirty (ent m x)"
    and "x \<in> T \<Longrightarrow> is_alloc (ent m x) \<and> is_pending (ent m x)"
  using assms by (auto simp: minv_def flags_ok_def)

lemma lock_map_ready [simp]: "locked (mapping_lock m) = 0 \<Longrightarrow>
    lock_map m = Some (m\<lparr>mapping_lock := (mapping_lock m)\<lparr>locked := 1\<rparr>\<rparr>)"
  by (simp add: lock_map_def)

lemma unlock_minv [simp]: "minv (unlock_map m) = minv m" "ready (unlock_map m) = wq_inv (m_wq m)"
  by (simp_all add: unlock_map_def ready_def)

lemma view_irrelevant [simp]:
  "view_of (m\<lparr>mapping_lock := l\<rparr>) = view_of m" "view_of (unlock_map m) = view_of m"
  "view_of (m\<lparr>hit_time := n\<rparr>) = (view_of m)\<lparr>v_hits := n\<rparr>"
  "view_of (m\<lparr>miss_time := n\<rparr>) = (view_of m)\<lparr>v_misses := n\<rparr>"
  "view_of (m\<lparr>promotion_time := n\<rparr>) = (view_of m)\<lparr>v_promotions := n\<rparr>"
  "view_of (m\<lparr>demotion_time := n\<rparr>) = (view_of m)\<lparr>v_demotions := n\<rparr>"
  "view_of (m\<lparr>writeback_time := n\<rparr>) = (view_of m)\<lparr>v_writebacks := n\<rparr>"
  "view_of (m\<lparr>m_wq := q\<rparr>) = (view_of m)\<lparr>v_work := items q\<rparr>"
  by (simp_all add: view_of_def unlock_map_def cong: if_cong)

lemma ready_irrelevant [simp]:
  "m_wq (unlock_map m) = m_wq m" "cache_block_num (unlock_map m) = cache_block_num m"
  by (simp_all add: unlock_map_def)

text \<open>Only links moved: the view has the new lists and otherwise is as before.\<close>

lemma view_relist:
  assumes "mcore m F C D T H" and "keeps m m'" and "mcore m' F' C' D' T' H"
  shows "view_of m' = (view_of m)\<lparr>v_free := F', v_clean := C', v_dirty := D'\<rparr>"
  by (rule view_eqI [OF assms(3)])
     (simp_all add: view_fields [OF assms(1)] keeps_flags [OF assms(2)] keeps_rest [OF assms(2)])

lemma flags_keeps: "keeps m m' \<Longrightarrow> flags_ok m' F C D T = flags_ok m F C D T"
  by (simp add: flags_ok_def keeps_flags)

subsection \<open>Requests\<close>

text \<open>A hit: the entry is used, and a clean one becomes the most recently used.\<close>

lemma hit_entry_law:
  assumes "minv m F C D T P" and "x \<in> set C \<union> set D \<union> (T - P)"
  shows "\<exists>m'. hit_entry m (Entry x) = Some (x, m') \<and> minv m' F (touch x C) D T P \<and>
    view_of m' = a_hit x (view_of m) \<and> m_wq m' = m_wq m"
proof -
  let ?m = "m\<lparr>hit_time := hit_time m + 1\<rparr>"
  note core = minv_core(1) [OF assms(1)] and flags = minv_flags [OF assms(1)]
  have x: "x < CACHE_BLOCK_NUMBER"
    using mcore_bound [OF core] assms(2) by blast
  note get = get_flags [OF x, of ?m, simplified]
  have core1: "mcore ?m F C D T (set C \<union> set D \<union> (T - P))" using core by simp
  show ?thesis
  proof (cases "x \<in> set C")
    case False
    then have "is_pending (ent m x) \<or> is_dirty (ent m x)"
      using flags(3,4) [of x] assms(2) by blast
    then have "hit_entry m (Entry x) = Some (x, ?m)"
      using get mcore_infer [OF core]
      by (auto simp: hit_entry_def infer_cblock_def)
    moreover have "view_of ?m = a_hit x (view_of m)"
      by (rule view_eqI [OF core1])
         (use False in \<open>simp_all add: a_hit_def touch_def view_fields [OF core]\<close>)
    ultimately show ?thesis
      using False assms(1) by (simp add: touch_def)
  next
    case True
    obtain m1 where m1: "queue_apply l_del False ?m (Entry x) = Some m1"
        "mcore m1 F (remove1 x C) D (insert x T) (set C \<union> set D \<union> (T - P))" "keeps ?m m1"
      by (rule del_clean_step [OF core1 True])
    obtain m2 where m2: "queue_apply l_add_tail False m1 (Entry x) = Some m2"
        "mcore m2 F (remove1 x C @ [x]) D (insert x T - {x}) (set C \<union> set D \<union> (T - P))" "keeps m1 m2"
      by (rule add_clean_step [OF m1(2) _ _ list_inserts_tail]) (use True in auto)
    have k: "keeps ?m m2" by (rule keeps_trans [OF m1(3) m2(3)])
    have T: "insert x T - {x} = T" using mcore_dll [OF core] True by auto
    have t: "touch x C = remove1 x C @ [x]" using True by (simp add: touch_def)
    have s: "set (touch x C) = set C"
      using True mcore_dll(5) [OF core] by (auto simp: touch_def)
    have c2: "mcore m2 F (touch x C) D T (set (touch x C) \<union> set D \<union> (T - P))"
      using m2(2) T t s by simp
    have f2: "flags_ok m2 F (touch x C) D T"
      using minv_core(2) [OF assms(1)] s unfolding flags_keeps [OF k] by (simp add: flags_ok_def)
    have "hit_entry m (Entry x) = Some (x, m2)"
      using get flags(2) [OF True] m1(1) m2(1) mcore_infer [OF m2(2)]
        get_flags(2) [OF x, of m1] keeps_flags(2) [OF m1(3), of x]
      by (simp add: hit_entry_def queue_del_def queue_add_tail_def)
    moreover have "view_of m2 = a_hit x (view_of m)"
      by (subst view_relist [OF core1 k c2 [unfolded s]])
         (simp add: a_hit_def view_fields [OF core] cache_view.equality)
    ultimately show ?thesis
      using c2 f2 minv_core(3) [OF assms(1)] keeps_rest(6) [OF k] by (simp add: minv_def)
  qed
qed


text \<open>The table lookup of every request: the entry moves to the front of its chain.\<close>

lemma lookup_step:
  assumes "minv m F C D T P"
  shows "\<exists>m'. map_h_lookup m p c =
      Some (case v_map (view_of m) (p, c) of None \<Rightarrow> NULL | Some x \<Rightarrow> Entry x, m') \<and>
    minv m' F C D T P \<and> view_of m' = view_of m \<and> keeps m m'"
proof (cases "v_map (view_of m) (p, c)")
  case None
  have "map_h_lookup m p c = Some (NULL, m)"
    using None mcore_find_None [OF minv_core(1) [OF assms], of "(p, c)"]
    by (intro h_lookup_none [OF minv_core(1) [OF assms]]) (auto simp: view_of_def)
  with None assms show ?thesis by simp
next
  case (Some x)
  note core = minv_core(1) [OF assms]
  have x: "x \<in> set C \<union> set D \<union> (T - P)" "mkey m x = (p, c)"
    using Some view_fields(7) [OF core] by blast+
  obtain m' where m': "map_h_lookup m p c = Some (Entry x, m')"
      "mcore m' F C D T (set C \<union> set D \<union> (T - P))" "keeps m m'"
    by (rule h_lookup_step [OF core x])
  have "view_of m' = view_of m"
    using view_relist [OF core m'(3,2)] view_fields(2-4) [OF core]
    by (simp add: cache_view.equality)
  with Some m' assms show ?thesis
    by (simp add: minv_def flags_keeps)
qed

lemma map_insert_work_law:
  assumes "wq_inv (m_wq m)" and "length p \<le> MAX_PATH_SIZE"
  shows "\<exists>q. map_insert_work m p c = Some (m\<lparr>m_wq := q\<rparr>) \<and> wq_inv q \<and>
    items q = list_queue_op 15 (Enq (work_of (p, c))) (items (m_wq m))"
  using insert_work_law [OF assms, of c] by (auto simp: map_insert_work_def work_of_def split: if_splits)

lemma map_invI: "minv m F C D T P \<Longrightarrow> ready m \<Longrightarrow> map_inv P m"
  by (auto simp: map_inv_def)

lemma unlocked_inv: "minv m F C D T P \<Longrightarrow> wq_inv (m_wq m) \<Longrightarrow> map_inv P (unlock_map m)"
  by (rule map_invI) simp_all

lemma map_invE:
  assumes "map_inv P m"
  obtains F C D T where "minv m F C D T P" and "locked (mapping_lock m) = 0" and "wq_inv (m_wq m)"
  using assms by (auto simp: map_inv_def ready_def)

abbreviation result_block :: "u32 option \<Rightarrow> u32 \<Rightarrow> u32" where
  "result_block r cblock \<equiv> (case r of None \<Rightarrow> cblock | Some x \<Rightarrow> x)"

lemma lookup_mapping_law:
  fixes m :: mapping and i cblock :: u32
  assumes "map_inv P m" and "length p \<le> MAX_PATH_SIZE"
  defines "r \<equiv> a_lookup (p, to_cache_page_index i) (view_of m)"
  shows "\<exists>m'. lookup_mapping m p i cblock = Some (fst r \<noteq> None, result_block (fst r) cblock, m') \<and>
    map_inv P m' \<and> view_of m' = snd r"
proof -
  obtain F C D T where inv: "minv m F C D T P" and l: "locked (mapping_lock m) = 0" and q: "wq_inv (m_wq m)"
    by (rule map_invE [OF assms(1)])
  let ?k = "(p, to_cache_page_index i)"
  let ?m0 = "m\<lparr>mapping_lock := (mapping_lock m)\<lparr>locked := 1\<rparr>\<rparr>"
  have inv0: "minv ?m0 F C D T P" using inv by simp
  obtain m1 where m1: "map_h_lookup ?m0 p (to_cache_page_index i) =
        Some (case v_map (view_of m) ?k of None \<Rightarrow> NULL | Some x \<Rightarrow> Entry x, m1)"
      "minv m1 F C D T P" "view_of m1 = view_of m" "keeps ?m0 m1"
    using lookup_step [OF inv0, of p "to_cache_page_index i"] by auto
  have q1: "m_wq m1 = m_wq m" using keeps_rest(6) [OF m1(4)] by simp
  show ?thesis
  proof (cases "v_map (view_of m) ?k")
    case None
    let ?m2 = "m1\<lparr>miss_time := miss_time m1 + 1\<rparr>"
    obtain q' where q': "map_insert_work ?m2 p (to_cache_page_index i) = Some (?m2\<lparr>m_wq := q'\<rparr>)"
        "wq_inv q'" "items q' = list_queue_op 15 (Enq (work_of ?k)) (items (m_wq ?m2))"
      using map_insert_work_law [of ?m2 p "to_cache_page_index i"] q q1 assms(2) by auto
    have "lookup_mapping m p i cblock = Some (False, cblock, unlock_map (?m2\<lparr>m_wq := q'\<rparr>))"
      using l m1(1) q'(1) None by (simp add: lookup_mapping_def)
    moreover have "view_of (unlock_map (?m2\<lparr>m_wq := q'\<rparr>)) = snd r"
      using None q'(3) m1(3) q1 view_fields(8,10) [OF minv_core(1) [OF m1(2)]]
      by (simp add: r_def a_lookup_def a_request_def a_miss_def)
    moreover have "map_inv P (unlock_map (?m2\<lparr>m_wq := q'\<rparr>))"
      by (rule map_invI [of _ F C D T]) (use m1(2) q'(2) in simp_all)
    ultimately show ?thesis using None by (simp add: r_def a_lookup_def)
  next
    case (Some x)
    have x: "x \<in> set C \<union> set D \<union> (T - P)"
      using Some view_fields(7) [OF minv_core(1) [OF inv]] by blast
    obtain m2 where m2: "hit_entry m1 (Entry x) = Some (x, m2)" "minv m2 F (touch x C) D T P"
        "view_of m2 = a_hit x (view_of m1)" "m_wq m2 = m_wq m1"
      using hit_entry_law [OF m1(2) x] by blast
    have "lookup_mapping m p i cblock = Some (True, x, unlock_map m2)"
      using l m1(1) m2(1) Some by (simp add: lookup_mapping_def)
    moreover have "map_inv P (unlock_map m2)"
      by (rule map_invI [of _ F "touch x C" D T]) (use m2 q q1 in simp_all)
    ultimately show ?thesis
      using Some m1(3) m2(3) by (simp add: r_def a_lookup_def)
  qed
qed


text \<open>A free block becomes an entry in use: the steps from the allocator to the key.\<close>

definition new_entry :: "bool \<Rightarrow> bool \<Rightarrow> key \<Rightarrow> entry \<Rightarrow> entry" where
  "new_entry pending dirty k x = (with_flag 1 dirty (with_flag 0 pending (fresh_entry x)))
     \<lparr>full_path_name := fst k, cache_page_index := snd k\<rparr>"

lemma new_entry_simps [simp]:
  "is_alloc (new_entry a d k x)" "is_pending (new_entry a d k x) = a" "is_dirty (new_entry a d k x) = d"
  "ekey (new_entry a d k x) = k"
proof -
  have "is_alloc (y\<lparr>full_path_name := p, cache_page_index := c\<rparr>) = is_alloc y"
    "is_pending (y\<lparr>full_path_name := p, cache_page_index := c\<rparr>) = is_pending y"
    "is_dirty (y\<lparr>full_path_name := p, cache_page_index := c\<rparr>) = is_dirty y" for y p c
    by (simp_all add: is_alloc_def is_pending_def is_dirty_def)
  then show "is_alloc (new_entry a d k x)" "is_pending (new_entry a d k x) = a"
    "is_dirty (new_entry a d k x) = d" "ekey (new_entry a d k x) = k"
    by (simp_all add: new_entry_def ekey_def)
qed

lemma unset_pending_fresh [simp]: "with_flag 0 False (fresh_entry x) = fresh_entry x"
  by (simp add: with_flag_def fresh_entry_def)

lemma ekey_with_flag [simp]: "ekey (with_flag n b x) = ekey x"
  by (simp add: ekey_def)

lemma ekey_ent: "ekey (ent m x) = mkey m x"
  by (simp add: mkey_def)

lemma put_same_wq [simp]: "m\<lparr>m_wq := m_wq m\<rparr> = m"
  by simp

lemma new_step:
  assumes "minv m (x # F) C D T P"
  obtains m1 where "keeps m m1" and "map_alloc_entry m =
      Some (Entry x, put_entry x (fresh_entry (ent m1 x)) m1)"
    and "\<forall>e. mcore (put_entry x e m1) F C D (insert x T) (set C \<union> set D \<union> (T - P))"
    and "x < CACHE_BLOCK_NUMBER" and "x \<notin> set F \<union> set C \<union> set D \<union> T"
proof -
  note core = minv_core(1) [OF assms]
  have x: "x < CACHE_BLOCK_NUMBER" "x \<notin> set F \<union> set C \<union> set D \<union> T"
    using mcore_bound [OF core, of x] mcore_dll [OF core] by auto
  obtain m1 where m1: "map_alloc_entry m = Some (Entry x, put_entry x (fresh_entry (ent m1 x)) m1)"
      "mcore (put_entry x (fresh_entry (ent m1 x)) m1) F C D (insert x T) (set C \<union> set D \<union> (T - P))"
      "keeps m m1"
    by (rule alloc_step [OF core])
  have "mcore (put_entry x e m1) F C D (insert x T) (set C \<union> set D \<union> (T - P))" for e
    using mcore_put_out [OF m1(2), of x e] x by simp
  then show ?thesis using that m1 x by blast
qed

lemma insert_new_step:
  assumes "minv m (x # F) C D T P" and "\<forall>y \<in> set C \<union> set D \<union> (T - P). mkey m y \<noteq> k"
    and "length (fst k) \<le> MAX_PATH_SIZE"
  shows "\<exists>m'. do {
       (e, m) \<leftarrow> map_alloc_entry m;
       m \<leftarrow> in_es (\<lambda>es. entry_set_dirty es e True) m;
       p \<leftarrow> strcpy (MAX_PATH_SIZE + 1) (fst k);
       m \<leftarrow> in_es (\<lambda>es. store es e (\<lambda>x. x\<lparr>full_path_name := p\<rparr>)) m;
       m \<leftarrow> in_es (\<lambda>es. store es e (\<lambda>x. x\<lparr>cache_page_index := snd k\<rparr>)) m;
       m \<leftarrow> map_h_insert m e;
       m \<leftarrow> queue_add_tail m e;
       cblock \<leftarrow> infer_cblock m e;
       Some (e \<noteq> NULL, cblock, unlock_map m)
     } = Some (True, x, unlock_map m') \<and> minv m' F C (D @ [x]) T P \<and> m_wq m' = m_wq m \<and>
     view_of m' = (view_of m)\<lparr>v_free := F, v_dirty := D @ [x],
       v_key := (v_key (view_of m))(x \<mapsto> k), v_map := (v_map (view_of m))(k \<mapsto> x)\<rparr>"
proof -
  let ?H = "set C \<union> set D \<union> (T - P)"
  note core = minv_core(1) [OF assms(1)]
  obtain m1 where k1: "keeps m m1" and a: "map_alloc_entry m =
        Some (Entry x, put_entry x (fresh_entry (ent m1 x)) m1)"
      and c1: "\<forall>e. mcore (put_entry x e m1) F C D (insert x T) ?H"
      and x: "x < CACHE_BLOCK_NUMBER" "x \<notin> set F \<union> set C \<union> set D \<union> T"
    by (rule new_step [OF assms(1)])
  let ?e = "new_entry False True k (ent m1 x)"
  let ?m2 = "put_entry x ?e m1"
  have fresh: "mkey ?m2 y \<noteq> mkey ?m2 x" if "y \<in> ?H" for y
    using that assms(2) x(2) keeps_flags(4) [OF k1, of y] by auto
  obtain m3 where m3: "map_h_insert ?m2 (Entry x) = Some m3"
      "mcore m3 F C D (insert x T) (insert x ?H)" "keeps ?m2 m3"
    by (rule h_insert_step [OF c1 [THEN spec, of ?e] _ _ fresh]) (use x in auto)
  obtain m4 where m4: "queue_apply l_add_tail True m3 (Entry x) = Some m4"
      "mcore m4 F C (D @ [x]) (insert x T - {x}) (insert x ?H)" "keeps m3 m4"
    by (rule add_dirty_step [OF m3(2) _ _ list_inserts_tail]) auto
  have k4: "keeps ?m2 m4" by (rule keeps_trans [OF m3(3) m4(3)])
  have sets: "insert x T - {x} = T" "insert x ?H = set C \<union> set (D @ [x]) \<union> (T - P)"
    using x by auto
  have core4: "mcore m4 F C (D @ [x]) T (set C \<union> set (D @ [x]) \<union> (T - P))"
    using m4(2) unfolding sets .
  have d: "entry_get_dirty (m_es m3) (Entry x) = Some True"
    using get_flags(2) [OF x(1), of m3] keeps_flags(2) [OF m3(3), of x] by simp
  have "flags_ok m4 F C (D @ [x]) T"
    using minv_flags [OF assms(1)] x(2)
    unfolding flags_ok_def by (auto simp: keeps_flags [OF k4] keeps_flags [OF k1])
  then have "minv m4 F C (D @ [x]) T P"
    using core4 minv_core(3) [OF assms(1)] by (simp add: minv_def)
  moreover have "view_of m4 = (view_of m)\<lparr>v_free := F, v_dirty := D @ [x],
       v_key := (v_key (view_of m))(x \<mapsto> k), v_map := (v_map (view_of m))(k \<mapsto> x)\<rparr>"
    by (rule view_eqI [OF core4])
       (use x assms(2) minv_flags(1) [OF assms(1), of x] in \<open>auto simp: view_fields [OF core]
         keeps_flags [OF k4] keeps_flags [OF k1] keeps_rest [OF k4] keeps_rest [OF k1]\<close>)
  moreover have "with_flag 1 True (fresh_entry (ent m1 x))\<lparr>full_path_name := fst k\<rparr>
      \<lparr>cache_page_index := snd k\<rparr> = ?e"
    by (simp add: new_entry_def)
  ultimately show ?thesis
    using a m3(1) m4(1) d x(1) assms(3) mcore_infer [OF core4] keeps_rest(6) [OF k4] keeps_rest(6) [OF k1]
    by (auto simp: in_es_flags queue_add_tail_def simp del: store.simps)
qed


lemma lookup_with_insert_law:
  fixes m :: mapping and i cblock :: u32
  assumes "map_inv P m" and "length p \<le> MAX_PATH_SIZE"
  defines "r \<equiv> a_insert (p, to_cache_page_index i) (view_of m)"
  shows "\<exists>m'. lookup_mapping_with_insert m p i cblock =
      Some (fst r \<noteq> None, result_block (fst r) cblock, m') \<and> map_inv P m' \<and> view_of m' = snd r"
proof -
  obtain F C D T where inv: "minv m F C D T P" and l: "locked (mapping_lock m) = 0" and q: "wq_inv (m_wq m)"
    by (rule map_invE [OF assms(1)])
  let ?k = "(p, to_cache_page_index i)"
  let ?m0 = "m\<lparr>mapping_lock := (mapping_lock m)\<lparr>locked := 1\<rparr>\<rparr>"
  have inv0: "minv ?m0 F C D T P" using inv by simp
  note core = minv_core(1) [OF inv]
  obtain m1 where m1: "map_h_lookup ?m0 p (to_cache_page_index i) =
        Some (case v_map (view_of m) ?k of None \<Rightarrow> NULL | Some x \<Rightarrow> Entry x, m1)"
      "minv m1 F C D T P" "view_of m1 = view_of m" "keeps ?m0 m1"
    using lookup_step [OF inv0, of p "to_cache_page_index i"] by auto
  have q1: "m_wq m1 = m_wq m" using keeps_rest(6) [OF m1(4)] by simp
  show ?thesis
  proof (cases "v_map (view_of m) ?k")
    case (Some x)
    have x: "x \<in> set C \<union> set D \<union> (T - P)"
      using Some view_fields(7) [OF minv_core(1) [OF inv]] by blast
    obtain m2 where m2: "hit_entry m1 (Entry x) = Some (x, m2)" "minv m2 F (touch x C) D T P"
        "view_of m2 = a_hit x (view_of m1)" "m_wq m2 = m_wq m1"
      using hit_entry_law [OF m1(2) x] by blast
    have "lookup_mapping_with_insert m p i cblock = Some (True, x, unlock_map m2)"
      using l m1(1) m2(1) Some by (simp add: lookup_mapping_with_insert_def)
    moreover have "map_inv P (unlock_map m2)"
      by (rule map_invI [of _ F "touch x C" D T]) (use m2 q q1 in simp_all)
    ultimately show ?thesis
      using Some m1(3) m2(3) by (simp add: r_def a_insert_def)
  next
    case None
    let ?m2 = "m1\<lparr>miss_time := miss_time m1 + 1\<rparr>"
    have m2: "minv ?m2 F C D T P" "view_of ?m2 = a_miss (view_of m)" "m_wq ?m2 = m_wq m"
      using m1(2,3) q1 view_fields(10) [OF minv_core(1) [OF m1(2)]] by (simp_all add: a_miss_def)
    have e2: "allocator_empty (m_ea m1) \<longleftrightarrow> F = []"
      using mcore_free_empty [OF minv_core(1) [OF m1(2)]] .
    have c: "contains_work (m_wq m1) p (to_cache_page_index i) = Some (held_back ?k (items (m_wq m)), m_wq m1)"
      using contains_work_law [OF q] q1 by (simp add: held_back_def)
    have m: "m1\<lparr>miss_time := miss_time m1 + 1, m_wq := m_wq m1\<rparr> = ?m2" by simp
    note defs = lookup_mapping_with_insert_def l m1(1) None c
    consider (held) "held_back ?k (items (m_wq m))"
      | (full) "\<not> held_back ?k (items (m_wq m))" "F = []"
      | (new) x F' where "\<not> held_back ?k (items (m_wq m))" "F = x # F'"
      by (cases F) auto
    then show ?thesis
    proof cases
      case held
      have "lookup_mapping_with_insert m p i cblock = Some (False, cblock, unlock_map ?m2)"
        using held by (simp add: defs)
      moreover have "map_inv P (unlock_map ?m2)"
        by (rule map_invI [OF _, of _ F C D T]) (use m2 q in simp_all)
      ultimately show ?thesis
        using None held m2(2) view_fields(8) [OF core] by (simp add: r_def a_insert_def del: view_irrelevant(4))
    next
      case full
      obtain q' where q': "map_insert_work ?m2 p (to_cache_page_index i) = Some (?m2\<lparr>m_wq := q'\<rparr>)"
          "wq_inv q'" "items q' = list_queue_op 15 (Enq (work_of ?k)) (items (m_wq ?m2))"
        using map_insert_work_law [of ?m2 p "to_cache_page_index i"] q m2(3) assms(2) by auto
      have "lookup_mapping_with_insert m p i cblock = Some (False, cblock, unlock_map (?m2\<lparr>m_wq := q'\<rparr>))"
        using full e2 q'(1) m by (simp add: defs)
      moreover have "map_inv P (unlock_map (?m2\<lparr>m_wq := q'\<rparr>))"
        by (rule map_invI [of _ F C D T]) (use m1(2) q'(2) in simp_all)
      moreover have "view_of (unlock_map (?m2\<lparr>m_wq := q'\<rparr>)) = a_request ?k (a_miss (view_of m))"
        using q'(3) m1(3) q1 view_fields(8,10) [OF minv_core(1) [OF m1(2)]]
        by (simp add: a_request_def a_miss_def)
      ultimately show ?thesis
        using None full view_fields(2,8) [OF core] by (simp add: r_def a_insert_def)
    next
      case new
      have keys: "\<forall>y \<in> set C \<union> set D \<union> (T - P). mkey ?m2 y \<noteq> ?k"
        using None view_fields(7) [OF core, of ?k] keeps_flags(4) [OF m1(4)] by auto
      obtain m3 where m3: "lookup_mapping_with_insert m p i cblock = Some (True, x, unlock_map m3)"
          "minv m3 F' C (D @ [x]) T P" "m_wq m3 = m_wq ?m2"
          "view_of m3 = (view_of ?m2)\<lparr>v_free := F', v_dirty := D @ [x],
            v_key := (v_key (view_of ?m2))(x \<mapsto> ?k), v_map := (v_map (view_of ?m2))(?k \<mapsto> x)\<rparr>"
        using insert_new_step [OF m2(1) [unfolded new(2)] keys] assms(2) new e2 m
        by (auto simp: defs simp del: view_irrelevant(4))
      have "map_inv P (unlock_map m3)"
        by (rule map_invI [OF _, of _ F' C "D @ [x]" T]) (use m3 q m2(3) in simp_all)
      then show ?thesis
        using None new m3 m2(2) view_fields(2,4,8) [OF core]
        by (simp add: r_def a_insert_def a_miss_def del: view_irrelevant(4))
    qed
  qed
qed


text \<open>A queued entry leaves the queue that its dirty bit names.\<close>

lemma unqueue_step:
  assumes "minv m F C D T P" and "x \<in> set C \<union> set D"
  obtains m' where "queue_del m (Entry x) = Some m'"
    and "mcore m' F (remove1 x C) (remove1 x D) (insert x T) (set C \<union> set D \<union> (T - P))" and "keeps m m'"
proof -
  note core = minv_core(1) [OF assms(1)]
  have x: "x < CACHE_BLOCK_NUMBER" using mcore_bound [OF core] assms(2) by blast
  show ?thesis
  proof (cases "x \<in> set C")
    case True
    then have "x \<notin> set D" and "\<not> is_dirty (ent m x)"
      using mcore_dll(9) [OF core] minv_flags(2) [OF assms(1)] by auto
    then have d: "queue_del m (Entry x) = queue_apply l_del False m (Entry x)"
      using get_flags(2) [OF x, of m] by (simp add: queue_del_def)
    obtain m' where "queue_apply l_del False m (Entry x) = Some m'"
      "mcore m' F (remove1 x C) D (insert x T) (set C \<union> set D \<union> (T - P))" "keeps m m'"
      by (rule del_clean_step [OF core True])
    with d \<open>x \<notin> set D\<close> show ?thesis by (intro that [of m']) (simp_all add: remove1_idem)
  next
    case False
    with assms(2) have "x \<in> set D" and "is_dirty (ent m x)"
      using minv_flags(3) [OF assms(1)] by auto
    then have d: "queue_del m (Entry x) = queue_apply l_del True m (Entry x)"
      using get_flags(2) [OF x, of m] by (simp add: queue_del_def)
    obtain m' where "queue_apply l_del True m (Entry x) = Some m'"
      "mcore m' F C (remove1 x D) (insert x T) (set C \<union> set D \<union> (T - P))" "keeps m m'"
      by (rule del_dirty_step [OF core \<open>x \<in> set D\<close>])
    with d False show ?thesis by (intro that [of m']) (simp_all add: remove1_idem)
  qed
qed

lemma remove_mapping_law:
  fixes m :: mapping and i :: u32
  assumes "map_inv P m" and "\<And>x. v_map (view_of m) (p, to_cache_page_index i) = Some x \<Longrightarrow>
      v_moving (view_of m) x = None"
  defines "r \<equiv> a_remove (p, to_cache_page_index i) (view_of m)"
  shows "\<exists>m'. remove_mapping m p i = Some (fst r, m') \<and> map_inv P m' \<and> view_of m' = snd r"
proof -
  obtain F C D T where inv: "minv m F C D T P" and l: "locked (mapping_lock m) = 0" and q: "wq_inv (m_wq m)"
    by (rule map_invE [OF assms(1)])
  let ?k = "(p, to_cache_page_index i)"
  let ?m0 = "m\<lparr>mapping_lock := (mapping_lock m)\<lparr>locked := 1\<rparr>\<rparr>"
  have inv0: "minv ?m0 F C D T P" using inv by simp
  note core = minv_core(1) [OF inv]
  obtain m1 where m1: "map_h_lookup ?m0 p (to_cache_page_index i) =
        Some (case v_map (view_of m) ?k of None \<Rightarrow> NULL | Some x \<Rightarrow> Entry x, m1)"
      "minv m1 F C D T P" "view_of m1 = view_of m" "keeps ?m0 m1"
    using lookup_step [OF inv0, of p "to_cache_page_index i"] by auto
  have q1: "m_wq m1 = m_wq m" using keeps_rest(6) [OF m1(4)] by simp
  note core1 = minv_core(1) [OF m1(2)]
  show ?thesis
  proof (cases "v_map (view_of m) ?k")
    case None
    have "remove_mapping m p i = Some (False, unlock_map m1)"
      using l m1(1) None by (simp add: remove_mapping_def)
    moreover have "map_inv P (unlock_map m1)"
      by (rule map_invI [of _ F C D T]) (use m1(2) q q1 in simp_all)
    ultimately show ?thesis using None m1(3) by (simp add: r_def a_remove_def)
  next
    case (Some x)
    let ?H = "set C \<union> set D \<union> (T - P)"
    have "x \<notin> T"
      using assms(2) [OF Some] minv_flags(4) [OF inv, of x] view_fields(6) [OF core, of x] by auto
    then have x: "x \<in> set C \<union> set D" and k: "mkey m1 x = ?k"
      using Some view_fields(7) [OF core, of ?k x] keeps_flags(4) [OF m1(4), of x] by auto
    obtain m2 where m2: "queue_del m1 (Entry x) = Some m2"
        "mcore m2 F (remove1 x C) (remove1 x D) (insert x T) ?H" "keeps m1 m2"
      by (rule unqueue_step [OF m1(2) x])
    obtain m3 where m3: "map_h_remove m2 (Entry x) = Some m3"
        "mcore m3 F (remove1 x C) (remove1 x D) (insert x T) (?H - {x})" "keeps m2 m3"
      by (rule h_remove_step [OF m2(2)]) (use x in auto)
    let ?e = "with_flag 2 False (ent m3 x)"
    obtain m4 where m4: "map_free_entry m3 (Entry x) = Some m4"
        "mcore m4 (F @ [x]) (remove1 x C) (remove1 x D) (insert x T - {x}) (?H - {x})"
        "keeps (put_entry x ?e m3) m4"
      by (rule free_step [OF m3(2)]) auto
    have k3: "keeps m1 m3" by (rule keeps_trans [OF m2(3) m3(3)])
    have sets: "insert x T - {x} = T" "?H - {x} = set (remove1 x C) \<union> set (remove1 x D) \<union> (T - P)"
      using \<open>x \<notin> T\<close> mcore_dll [OF core] by auto
    note core4 = m4(2) [unfolded sets]
    note keep = keeps_flags [OF m4(3)] keeps_flags [OF k3] keeps_rest [OF m4(3)] keeps_rest [OF k3]
    note rem = set_remove1_eq [OF mcore_dll(5) [OF core]] set_remove1_eq [OF mcore_dll(6) [OF core]]
    have "flags_ok m4 (F @ [x]) (remove1 x C) (remove1 x D) T"
      using minv_core(2) [OF m1(2)] \<open>x \<notin> T\<close>
      unfolding flags_ok_def by (auto simp: keep rem)
    then have "minv m4 (F @ [x]) (remove1 x C) (remove1 x D) T P"
      using core4 minv_core(3) [OF inv] by (simp add: minv_def)
    then have "map_inv P (unlock_map m4)"
      by (rule unlocked_inv) (use q q1 keep in simp_all)
    moreover have "remove_mapping m p i = Some (True, unlock_map m4)"
      using l m1(1) m2(1) m3(1) m4(1) Some by (simp add: remove_mapping_def)
    moreover have "view_of m4 = (view_of m1)\<lparr>v_clean := remove1 x C, v_dirty := remove1 x D,
        v_free := F @ [x], v_key := (v_key (view_of m1))(x := None),
        v_map := (v_map (view_of m1))(?k := None)\<rparr>"
    proof (rule view_eqI [OF core4], goal_cases)
      case (6 y)
      then show ?case
        using minv_flags(2,3) [OF m1(2), of x] x by (auto simp: view_fields [OF core1] keep)
    next
      case (7 k' y)
      have "y \<notin> ?H \<or> mkey m1 y \<noteq> ?k \<or> y = x"
      proof (rule ccontr, simp only: de_Morgan_disj not_not, elim conjE)
        assume that: "y \<in> ?H" "mkey m1 y = ?k" "y \<noteq> x"
        have "v_map (view_of m1) ?k = Some x" "v_map (view_of m1) ?k = Some y"
          unfolding view_fields(7) [OF core1] using that(1,2) k x by blast+
        with that(3) show False by simp
      qed
      moreover have "y \<in> set (remove1 x C) \<union> set (remove1 x D) \<union> (T - P) \<longleftrightarrow> y \<in> ?H \<and> y \<noteq> x"
        using sets(2) by blast
      moreover have "mkey m4 y = mkey m1 y"
        using keep(4) [of y] keep(8) [of y] by (simp add: ekey_ent split: if_splits)
      moreover have "v_map (view_of m1) k' = Some y \<longleftrightarrow> y \<in> ?H \<and> mkey m1 y = k'"
        by (rule view_fields(7) [OF core1])
      ultimately show ?case
        using k by (cases "y = x"; cases "k' = ?k") (auto simp del: Un_iff Diff_iff)
    qed (simp_all add: view_fields [OF core1] keep)
    ultimately show ?thesis
      using Some m1(3) view_fields(2-4) [OF core] by (simp add: r_def a_remove_def)
  qed
qed


subsection \<open>The end of a move\<close>

lemma requeue_step:
  assumes "mcore m F C D T H" and "x \<in> T" and "x \<in> H" and "list_inserts list_op ins"
  defines "d \<equiv> is_dirty (ent m x)"
  obtains m' where "do { d \<leftarrow> entry_get_dirty (m_es m) (Entry x); queue_apply list_op d m (Entry x) } = Some m'"
    and "mcore m' F (if d then C else ins x C) (if d then ins x D else D) (T - {x}) H" and "keeps m m'"
proof -
  have x: "x < CACHE_BLOCK_NUMBER" using mcore_bound [OF assms(1)] assms(2) by blast
  show ?thesis
  proof (cases d)
    case True
    obtain m' where "queue_apply list_op True m (Entry x) = Some m'"
        "mcore m' F C (ins x D) (T - {x}) H" "keeps m m'"
      by (rule add_dirty_step [OF assms(1-4)])
    with True show ?thesis
      using get_flags(2) [OF x, of m] by (intro that [of m']) (simp_all add: d_def)
  next
    case False
    obtain m' where "queue_apply list_op False m (Entry x) = Some m'"
        "mcore m' F (ins x C) D (T - {x}) H" "keeps m m'"
      by (rule add_clean_step [OF assms(1-4)])
    with False show ?thesis
      using get_flags(2) [OF x, of m] by (intro that [of m']) (simp_all add: d_def)
  qed
qed

text \<open>
  The block whose move ends: its pending bit is clear in \<open>m1\<close>, and the table has been brought
  up to date in \<open>m2\<close>. It joins the queue of its dirty bit, or the free list.
\<close>

lemma settle_law:
  assumes "minv m F C D T P" and "x \<in> T" and "list_inserts list_op ins"
    and "keeps (put_entry x (with_flag 0 False (ent m x)) m) m2"
    and "mcore m2 F C D T (set C \<union> set D \<union> (T - (P - {x})))"
    and "\<And>k y. g k = Some y \<longleftrightarrow> y \<in> set C \<union> set D \<union> (T - (P - {x})) \<and> mkey m y = k"
  shows "\<exists>m' C' D'. do { d \<leftarrow> entry_get_dirty (m_es m2) (Entry x); queue_apply list_op d m2 (Entry x) } = Some m' \<and>
    minv m' F C' D' (T - {x}) (P - {x}) \<and> m_wq m' = m_wq m \<and>
    view_of m' = (a_settle ins x (view_of m))\<lparr>v_map := g\<rparr>"
proof -
  let ?H = "set C \<union> set D \<union> (T - (P - {x}))" and ?d = "is_dirty (ent m x)"
  let ?C = "if ?d then C else ins x C" and ?D = "if ?d then ins x D else D"
  note core = minv_core(1) [OF assms(1)]
  have ins: "set (ins x xs) = insert x (set xs)" for xs
    using list_inserts_set(1) [OF assms(3)] .
  have d2: "is_dirty (ent m2 x) = ?d"
    using keeps_flags(2) [OF assms(4), of x] by simp
  obtain m' where m': "do { d \<leftarrow> entry_get_dirty (m_es m2) (Entry x); queue_apply list_op d m2 (Entry x) } = Some m'"
      "mcore m' F ?C ?D (T - {x}) ?H" "keeps m2 m'"
    using requeue_step [OF assms(5,2) _ assms(3)] assms(2) unfolding d2 by blast
  note k = keeps_trans [OF assms(4) m'(3)]
  note keep = keeps_flags [OF k] keeps_rest [OF k]
  have H: "?H = set ?C \<union> set ?D \<union> (T - {x} - (P - {x}))"
    using ins assms(2) minv_core(3) [OF assms(1)] mcore_dll [OF core] by auto
  have "flags_ok m' F ?C ?D (T - {x})"
    using minv_core(2) [OF assms(1)] assms(2) mcore_dll(10,11,12) [OF core]
    unfolding flags_ok_def by (auto simp: keep ins split: if_splits)
  then have "minv m' F ?C ?D (T - {x}) (P - {x})"
    using m'(2) H minv_core(3) [OF assms(1)] by (auto simp: minv_def)
  moreover have "mkey m' y = mkey m y" for y
    by (simp add: keep ekey_ent)
  then have "view_of m' = (a_settle ins x (view_of m))\<lparr>v_map := g\<rparr>"
    using minv_flags(4) [OF assms(1,2)]
    by (intro view_eqI [OF m'(2)])
       (simp_all add: a_settle_def enqueue_def view_fields [OF core] keep assms(6))
  ultimately show ?thesis using m'(1) keep by auto
qed

lemma drop_law:
  assumes "minv m F C D T P" and "x \<in> T"
    and "keeps (put_entry x (with_flag 0 False (ent m x)) m) m2"
    and "mcore m2 F C D T (set C \<union> set D \<union> (T - insert x P))"
    and "\<And>k y. g k = Some y \<longleftrightarrow> y \<in> set C \<union> set D \<union> (T - insert x P) \<and> mkey m y = k"
  shows "\<exists>m' F'. map_free_entry m2 (Entry x) = Some m' \<and>
    minv m' F' C D (T - {x}) (P - {x}) \<and> m_wq m' = m_wq m \<and>
    view_of m' = (a_drop x (view_of m))\<lparr>v_map := g\<rparr>"
proof -
  let ?H = "set C \<union> set D \<union> (T - insert x P)"
  let ?m1 = "put_entry x (with_flag 0 False (ent m x)) m"
  note core = minv_core(1) [OF assms(1)]
  have x: "x \<notin> ?H" "x \<notin> set F" "x \<notin> set C" "x \<notin> set D"
    using assms(2) mcore_dll [OF core] by auto
  obtain m' where m': "map_free_entry m2 (Entry x) = Some m'"
      "mcore m' (F @ [x]) C D (T - {x}) ?H"
      "keeps (put_entry x (with_flag 2 False (ent m2 x)) m2) m'"
    by (rule free_step [OF assms(4,2) x(1)])
  note keep = keeps_flags [OF m'(3)] keeps_flags [OF assms(3)] keeps_rest [OF m'(3)] keeps_rest [OF assms(3)]
  have H: "?H = set C \<union> set D \<union> (T - {x} - (P - {x}))" by auto
  have "flags_ok m' (F @ [x]) C D (T - {x})"
    using minv_core(2) [OF assms(1)] x unfolding flags_ok_def by (auto simp: keep)
  then have "minv m' (F @ [x]) C D (T - {x}) (P - {x})"
    using m'(2) H minv_core(3) [OF assms(1)] by (auto simp: minv_def)
  moreover have "mkey m' y = mkey m y" for y
    by (simp add: keep ekey_ent)
  then have "view_of m' = (a_drop x (view_of m))\<lparr>v_map := g\<rparr>"
    by (intro view_eqI [OF m'(2)])
       (simp_all add: a_drop_def view_fields [OF core] keep assms(5))
  ultimately show ?thesis using m'(1) keep by auto
qed


definition in_flight :: "u32 \<Rightarrow> mapping \<Rightarrow> bool" where
  "in_flight x m \<longleftrightarrow> x < cache_block_num m \<and> v_moving (view_of m) x \<noteq> None"

lemma in_flight_iff:
  assumes "minv m F C D T P"
  shows "in_flight x m \<longleftrightarrow> x \<in> T"
proof -
  note core = minv_core(1) [OF assms]
  have "x < cache_block_num m \<longleftrightarrow> x \<in> T \<union> set (F @ C @ D)"
    using core by (simp only: mcore_def mem_Collect_eq)
  then show ?thesis
    using minv_flags [OF assms, of x] by (auto simp: in_flight_def view_fields [OF core])
qed

lemma in_flight_key: "minv m F C D T P \<Longrightarrow> x \<in> T \<Longrightarrow> v_key (view_of m) x = Some (mkey m x)"
  using minv_flags(4) [of m F C D T P x] by (simp add: view_fields [OF minv_core(1)])

text \<open>The common start of the three completions.\<close>

lemma clear_pending:
  assumes "minv m F C D T P" and "x \<in> T"
  defines "m1 \<equiv> put_entry x (with_flag 0 False (ent m x)) m"
  shows "to_entry (m_es m) x = Some (Entry x)"
    and "in_es (\<lambda>es. entry_set_pending es (Entry x) False) m = Some m1"
    and "mcore m1 F C D T (set C \<union> set D \<union> (T - P))"
  using mcore_bound [OF minv_core(1) [OF assms(1)], of x] assms(2)
    mcore_put_flag [OF minv_core(1) [OF assms(1)]]
  by (simp_all add: in_es_flags m1_def)

lemma find_iff:
  "minv m F C D T P \<Longrightarrow> v_map (view_of m) k = Some y \<longleftrightarrow> y \<in> set C \<union> set D \<union> (T - P) \<and> mkey m y = k"
  by (rule view_fields(7) [OF minv_core(1)])

lemma promotion_complete_law:
  assumes "map_inv P m" and "x \<in> P"
    and "success \<Longrightarrow> v_map (view_of m) (the (v_key (view_of m) x)) = None"
  shows "\<exists>m'. promotion_complete m x success = Some m' \<and> map_inv (P - {x}) m' \<and>
    view_of m' = a_promote_end x success (view_of m)"
proof -
  obtain F C D T where inv': "minv m F C D T P" and l: "locked (mapping_lock m) = 0" and q: "wq_inv (m_wq m)"
    by (rule map_invE [OF assms(1)])
  let ?m = "m\<lparr>mapping_lock := (mapping_lock m)\<lparr>locked := 1\<rparr>\<rparr>"
  have inv: "minv ?m F C D T P" and v: "view_of ?m = view_of m" using inv' by simp_all
  have x: "x \<in> T" using minv_core(3) [OF inv] assms(2) by blast
  note clear = clear_pending [OF inv x]
  let ?m1 = "put_entry x (with_flag 0 False (ent ?m x)) ?m"
  show ?thesis
  proof (cases success)
    case False
    have "T - insert x P = T - P" using assms(2) by auto
    then obtain m' F' where m': "map_free_entry ?m1 (Entry x) = Some m'"
        "minv m' F' C D (T - {x}) (P - {x})" "m_wq m' = m_wq ?m"
        "view_of m' = (a_drop x (view_of m))\<lparr>v_map := v_map (view_of m)\<rparr>"
      using drop_law [OF inv x keeps_refl clear(3) [folded \<open>T - insert x P = T - P\<close>]
          find_iff [OF inv, folded \<open>T - insert x P = T - P\<close>]]
      unfolding v by blast
    have "promotion_complete m x success = Some (unlock_map m')"
      using False l clear(1,2) m'(1) by (simp add: promotion_complete_def)
    moreover have "map_inv (P - {x}) (unlock_map m')"
      by (rule unlocked_inv [OF m'(2)]) (use m'(3) q in simp)
    ultimately show ?thesis
      using False m'(4) by (simp add: a_promote_end_def a_drop_def)
  next
    case True
    let ?k = "mkey m x" and ?H = "set C \<union> set D \<union> (T - P)"
    let ?m2 = "?m1\<lparr>promotion_time := promotion_time m + 1\<rparr>"
    have key: "v_map (view_of m) ?k = None"
      using assms(3) [OF True] in_flight_key [OF inv' x] by simp
    then have no: "\<forall>y \<in> ?H. mkey m y \<noteq> ?k"
      using find_iff [OF inv', of ?k] by auto
    have c2: "mcore ?m2 F C D T ?H" using clear(3) by simp
    obtain m3 where m3: "map_h_insert ?m2 (Entry x) = Some m3" "mcore m3 F C D T (insert x ?H)" "keeps ?m2 m3"
      by (rule h_insert_step [OF c2 x])
         (use assms(2) no x mcore_dll [OF clear(3)] in \<open>auto simp: ekey_ent\<close>)
    let ?n = "?m\<lparr>promotion_time := promotion_time m + 1\<rparr>"
    have invn: "minv ?n F C D T P" using inv by simp
    have n: "put_entry x (with_flag 0 False (ent ?n x)) ?n = ?m2"
      by (simp add: put_entry_def)
    have H: "insert x ?H = set C \<union> set D \<union> (T - (P - {x}))" using assms(2) x by auto
    have g: "((v_map (view_of m))(?k \<mapsto> x)) k = Some y \<longleftrightarrow> y \<in> set C \<union> set D \<union> (T - (P - {x})) \<and> mkey ?n y = k"
      for k y
      unfolding H [symmetric] using find_iff [OF inv', of k y] no by (cases "k = ?k") auto
    obtain m' C' D' where m': "do { d \<leftarrow> entry_get_dirty (m_es m3) (Entry x); queue_apply l_add_tail d m3 (Entry x) } = Some m'"
      "minv m' F C' D' (T - {x}) (P - {x})" "m_wq m' = m_wq ?n"
      "view_of m' = (a_settle to_tail x (view_of ?n))\<lparr>v_map := (v_map (view_of m))(?k \<mapsto> x)\<rparr>"
      using settle_law [OF invn x list_inserts_tail m3(3) [folded n] m3(2) [unfolded H] g] by blast
    have "promotion_complete m x success = Some (unlock_map m')"
      using True l clear(1,2) m3(1) m'(1) [folded queue_add_tail_def]
      by (simp add: promotion_complete_def)
    moreover have "map_inv (P - {x}) (unlock_map m')"
      by (rule unlocked_inv [OF m'(2)]) (use m'(3) q in simp)
    moreover have "view_of m' = a_promote_end x success (view_of m)"
      using True m'(4) in_flight_key [OF inv' x] view_fields(11) [OF minv_core(1) [OF inv']]
      by (simp add: a_promote_end_def a_settle_def enqueue_def)
    ultimately show ?thesis by auto
  qed
qed


lemma settle_plain:
  assumes "minv m F C D T P" and "x \<in> T" and "x \<notin> P" and "list_inserts list_op ins"
  defines "m1 \<equiv> put_entry x (with_flag 0 False (ent m x)) m"
  shows "\<exists>m' C' D'. do { d \<leftarrow> entry_get_dirty (m_es m1) (Entry x); queue_apply list_op d m1 (Entry x) } = Some m' \<and>
    minv m' F C' D' (T - {x}) P \<and> m_wq m' = m_wq m \<and> view_of m' = a_settle ins x (view_of m)"
proof -
  have P: "P - {x} = P" using assms(3) by simp
  have "(a_settle ins x (view_of m))\<lparr>v_map := v_map (view_of m)\<rparr> = a_settle ins x (view_of m)"
    by (simp add: a_settle_def enqueue_def)
  with settle_law [OF assms(1,2,4) keeps_refl, of "v_map (view_of m)", unfolded P,
      OF clear_pending(3) [OF assms(1,2)] find_iff [OF assms(1)]]
  show ?thesis unfolding m1_def by metis
qed

lemma demotion_complete_law:
  assumes "map_inv P m" and "in_flight x m" and "x \<notin> P"
  shows "\<exists>m'. demotion_complete m x success = Some m' \<and> map_inv P m' \<and>
    view_of m' = a_demote_end x success (view_of m)"
proof -
  obtain F C D T where inv': "minv m F C D T P" and l: "locked (mapping_lock m) = 0" and q: "wq_inv (m_wq m)"
    by (rule map_invE [OF assms(1)])
  let ?m = "m\<lparr>mapping_lock := (mapping_lock m)\<lparr>locked := 1\<rparr>\<rparr>"
  have inv: "minv ?m F C D T P" and v: "view_of ?m = view_of m" using inv' by simp_all
  have x: "x \<in> T" using in_flight_iff [OF inv'] assms(2) by blast
  note clear = clear_pending [OF inv x]
  let ?m1 = "put_entry x (with_flag 0 False (ent ?m x)) ?m"
  show ?thesis
  proof (cases success)
    case False
    obtain m' C' D' where m': "do { d \<leftarrow> entry_get_dirty (m_es ?m1) (Entry x); queue_apply l_add_tail d ?m1 (Entry x) } = Some m'"
        "minv m' F C' D' (T - {x}) P" "m_wq m' = m_wq ?m" "view_of m' = a_settle to_tail x (view_of m)"
      using settle_plain [OF inv x assms(3) list_inserts_tail] unfolding v by blast
    have "demotion_complete m x success = Some (unlock_map m')"
      using False l clear(1,2) m'(1) [folded queue_add_tail_def] by (simp add: demotion_complete_def)
    moreover have "map_inv P (unlock_map m')"
      by (rule unlocked_inv [OF m'(2)]) (use m'(3) q in simp)
    ultimately show ?thesis using False m'(4) by (simp add: a_demote_end_def)
  next
    case True
    let ?k = "mkey m x" and ?H = "set C \<union> set D \<union> (T - P)"
    let ?n = "?m\<lparr>demotion_time := demotion_time m + 1\<rparr>"
    let ?m2 = "?m1\<lparr>demotion_time := demotion_time m + 1\<rparr>"
    have invn: "minv ?n F C D T P" using inv by simp
    have n: "put_entry x (with_flag 0 False (ent ?n x)) ?n = ?m2"
      by (simp add: put_entry_def)
    have c2: "mcore ?m2 F C D T ?H" using clear(3) by simp
    obtain m3 where m3: "map_h_remove ?m2 (Entry x) = Some m3" "mcore m3 F C D T (?H - {x})" "keeps ?m2 m3"
      by (rule h_remove_step [OF c2 x]) (use assms(3) x in auto)
    have H: "?H - {x} = set C \<union> set D \<union> (T - insert x P)"
      using x mcore_dll [OF clear(3)] by auto
    have uniq: "mkey m y = ?k \<longleftrightarrow> y = x" if "y \<in> ?H" for y
    proof -
      have "x \<in> ?H" using x assms(3) by simp
      then have "v_map (view_of m) ?k = Some x" using find_iff [OF inv', of ?k x] by blast
      moreover have "v_map (view_of m) ?k = Some y \<longleftrightarrow> mkey m y = ?k"
        using find_iff [OF inv', of ?k y] that by blast
      ultimately show ?thesis by auto
    qed
    have g: "((v_map (view_of m))(?k := None)) k = Some y \<longleftrightarrow>
        y \<in> set C \<union> set D \<union> (T - insert x P) \<and> mkey ?n y = k" for k y
      unfolding H [symmetric] using find_iff [OF inv', of k y] uniq [of y]
      by (cases "k = ?k"; cases "y \<in> ?H") (simp_all del: Un_iff, auto)
    obtain m' F' where m': "map_free_entry m3 (Entry x) = Some m'"
        "minv m' F' C D (T - {x}) (P - {x})" "m_wq m' = m_wq ?n"
        "view_of m' = (a_drop x (view_of ?n))\<lparr>v_map := (v_map (view_of m))(?k := None)\<rparr>"
      using drop_law [OF invn x m3(3) [folded n] m3(2) [unfolded H] g] by blast
    have "demotion_complete m x success = Some (unlock_map m')"
      using True l clear(1,2) m3(1) m'(1) by (simp add: demotion_complete_def)
    moreover have "map_inv P (unlock_map m')"
      by (rule unlocked_inv) (use m'(2,3) q assms(3) in simp_all)
    moreover have "view_of m' = a_demote_end x success (view_of m)"
      using True m'(4) in_flight_key [OF inv' x] view_fields(12) [OF minv_core(1) [OF inv']]
      by (simp add: a_demote_end_def a_drop_def)
    ultimately show ?thesis by auto
  qed
qed

lemma writeback_complete_law:
  assumes "map_inv P m" and "in_flight x m" and "x \<notin> P"
  shows "\<exists>m'. writeback_complete m x success = Some m' \<and> map_inv P m' \<and>
    view_of m' = a_writeback_end x success (view_of m)"
proof -
  obtain F C D T where inv': "minv m F C D T P" and l: "locked (mapping_lock m) = 0" and q: "wq_inv (m_wq m)"
    by (rule map_invE [OF assms(1)])
  let ?m = "m\<lparr>mapping_lock := (mapping_lock m)\<lparr>locked := 1\<rparr>\<rparr>"
  have inv: "minv ?m F C D T P" and v: "view_of ?m = view_of m" using inv' by simp_all
  have x: "x \<in> T" using in_flight_iff [OF inv'] assms(2) by blast
  show ?thesis
  proof (cases success)
    case False
    let ?m1 = "put_entry x (with_flag 0 False (ent ?m x)) ?m"
    obtain m' C' D' where m': "do { d \<leftarrow> entry_get_dirty (m_es ?m1) (Entry x); queue_apply l_add_head d ?m1 (Entry x) } = Some m'"
        "minv m' F C' D' (T - {x}) P" "m_wq m' = m_wq ?m" "view_of m' = a_settle (#) x (view_of m)"
      using settle_plain [OF inv x assms(3) list_inserts_head] unfolding v by blast
    have "writeback_complete m x success = Some (unlock_map m')"
      using False l clear_pending(1,2) [OF inv x] m'(1) [folded queue_add_head_def]
      by (simp add: writeback_complete_def)
    moreover have "map_inv P (unlock_map m')"
      by (rule unlocked_inv [OF m'(2)]) (use m'(3) q in simp)
    ultimately show ?thesis using False m'(4) by (simp add: a_writeback_end_def)
  next
    case True
    let ?n = "?m\<lparr>writeback_time := writeback_time m + 1\<rparr>"
    let ?m1 = "put_entry x (with_flag 0 False (ent ?n x)) ?n"
    have invn: "minv ?n F C D T P" using inv by simp
    obtain m' C' D' where m': "do { d \<leftarrow> entry_get_dirty (m_es ?m1) (Entry x); queue_apply l_add_tail d ?m1 (Entry x) } = Some m'"
        "minv m' F C' D' (T - {x}) P" "m_wq m' = m_wq ?n" "view_of m' = a_settle to_tail x (view_of ?n)"
      using settle_plain [OF invn x assms(3) list_inserts_tail] by blast
    have n: "?m1 = (put_entry x (with_flag 0 False (ent ?m x)) ?m)\<lparr>writeback_time := writeback_time m + 1\<rparr>"
      by (simp add: put_entry_def)
    have "writeback_complete m x success = Some (unlock_map m')"
      using True l clear_pending(1,2) [OF inv x] m'(1) [folded queue_add_tail_def, unfolded n]
      by (simp add: writeback_complete_def)
    moreover have "map_inv P (unlock_map m')"
      by (rule unlocked_inv [OF m'(2)]) (use m'(3) q in simp)
    moreover have "view_of m' = a_writeback_end x success (view_of m)"
      using True m'(4) view_fields(13) [OF minv_core(1) [OF inv']]
      by (simp add: a_writeback_end_def a_settle_def enqueue_def)
    ultimately show ?thesis by auto
  qed
qed

end
