(* ===== verification/Mapping_Moves.thy ===== *)
theory Mapping_Moves
  imports Mapping_Ops
begin

text \<open>
  The laws of the operations that start a migration, of \<open>set_dirty_after_write\<close> and of
  \<open>init_mapping\<close>, in the form of the previous theory.
\<close>

lemma in_flight_view: "in_flight x m \<longleftrightarrow> x < v_blocks (view_of m) \<and> v_moving (view_of m) x \<noteq> None"
  by (simp add: in_flight_def view_of_def)

lemma unlock_lock [simp]: "locked (mapping_lock m) = 0 \<Longrightarrow>
    unlock_map (m\<lparr>mapping_lock := (mapping_lock m)\<lparr>locked := v\<rparr>\<rparr>) = m"
  by (simp add: unlock_map_def)

lemma map_inv_view: "map_inv P m \<Longrightarrow> x \<in> P \<Longrightarrow> in_flight x m"
  by (elim map_invE) (use minv_core(3) in_flight_iff in blast)

text \<open>A block enters transit: its pending bit is set and the queues have let it go.\<close>

lemma depart_law:
  assumes "mcore m' F C' D' (insert x T) (set C \<union> set D \<union> (T - P))"
    and "minv m F C D T P" and "x \<in> set C \<union> set D"
    and "C' = remove1 x C" and "D' = remove1 x D"
    and "\<And>y. mkey m' y = mkey m y" and "\<And>y. is_alloc (ent m' y) = is_alloc (ent m y)"
    and "\<And>y. is_pending (ent m' y) = (is_pending (ent m y) \<or> y = x)"
    and "\<And>y. is_dirty (ent m' y) = (is_dirty (ent m y) \<and> y \<noteq> x)"
    and "m_wq m' = m_wq m" and "cache_block_num m' = cache_block_num m"
    and "hit_time m' = hit_time m" and "miss_time m' = miss_time m"
    and "promotion_time m' = promotion_time m" and "demotion_time m' = demotion_time m"
    and "writeback_time m' = writeback_time m"
    and "block_per_cblock_shift m' = block_per_cblock_shift m"
  shows "minv m' F C' D' (insert x T) P \<and> view_of m' = (view_of m)\<lparr>v_clean := C', v_dirty := D',
    v_moving := (v_moving (view_of m))(x \<mapsto> False)\<rparr>"
proof
  note core = minv_core(1) [OF assms(2)]
  have x: "x \<notin> T" "x \<notin> set F" "x \<notin> P" and alloc: "is_alloc (ent m x)"
    using assms(3) mcore_dll [OF core] minv_core(3) [OF assms(2)] minv_flags(2,3) [OF assms(2), of x] by auto
  note rem = set_remove1_eq [OF mcore_dll(5) [OF core]] set_remove1_eq [OF mcore_dll(6) [OF core]]
  have H: "set C \<union> set D \<union> (T - P) = set C' \<union> set D' \<union> (insert x T - P)"
    using assms(3,4,5) x rem by auto
  have "flags_ok m' F C' D' (insert x T)"
    using minv_core(2) [OF assms(2)] x alloc unfolding flags_ok_def assms(4,5)
    by (auto simp: assms(7-9) rem)
  then show "minv m' F C' D' (insert x T) P"
    using assms(1) minv_core(3) [OF assms(2)] unfolding minv_def H by auto
  show "view_of m' = (view_of m)\<lparr>v_clean := C', v_dirty := D',
      v_moving := (v_moving (view_of m))(x \<mapsto> False)\<rparr>"
    using alloc
    by (intro view_eqI [OF assms(1)]) (simp_all add: view_fields [OF core] assms(6-17))
qed

lemma head_law:
  assumes "dll es l xs"
  shows "l_head es l = Some (case xs of [] \<Rightarrow> NULL | x # _ \<Rightarrow> Entry x)"
  using assms by (cases xs) (auto simp: l_head_def dll_def first_of_def)

lemma demotion_start_law:
  assumes "map_inv P m"
  shows "(case a_demote_start (view_of m) of
      None \<Rightarrow> demotion_clean_to_free m cblock = Some (False, cblock, m)
    | Some (x, v) \<Rightarrow> \<exists>m'. demotion_clean_to_free m cblock = Some (True, x, m') \<and>
        map_inv P m' \<and> view_of m' = v \<and> in_flight x m' \<and> x \<notin> P)"
proof -
  obtain F C D T where inv: "minv m F C D T P" and l: "locked (mapping_lock m) = 0" and q: "wq_inv (m_wq m)"
    by (rule map_invE [OF assms])
  let ?m0 = "m\<lparr>mapping_lock := (mapping_lock m)\<lparr>locked := 1\<rparr>\<rparr>"
  have inv0: "minv ?m0 F C D T P" using inv by simp
  note core = minv_core(1) [OF inv] and core0 = minv_core(1) [OF inv0]
  have n: "nr_elts (m_clean m) \<le> drop_bit 1 (cache_block_num m) \<longleftrightarrow>
      length C \<le> unat (cache_block_num m) div 2"
    using dll_nr_elts [OF mcore_dll(2) [OF core]]
    by (simp add: word_le_nat_alt drop_bit_eq_div unat_div)
  show ?thesis
  proof (cases "length C \<le> unat (cache_block_num m) div 2 \<or> C = []")
    case True
    then have "length C \<le> unat (cache_block_num m) div 2" by auto
    then show ?thesis
      using l n view_fields(1,3) [OF core]
      by (auto simp: demotion_clean_to_free_def a_demote_start_def split: list.splits)
  next
    case False
    then obtain x C' where C: "C = x # C'" by (cases C) auto
    then have xC: "x \<in> set C" and x: "x < CACHE_BLOCK_NUMBER" and xD: "x \<notin> set D" and xP: "x \<notin> P"
      using mcore_bound [OF core, of x] mcore_dll [OF core] minv_core(3) [OF inv] by auto
    obtain m1 where m1: "queue_apply l_del False ?m0 (Entry x) = Some m1"
        "mcore m1 F (remove1 x C) D (insert x T) (set C \<union> set D \<union> (T - P))" "keeps ?m0 m1"
      by (rule del_clean_step [OF core0 xC])
    let ?m2 = "put_entry x (with_flag 0 True (ent m1 x)) m1"
    have c2: "mcore ?m2 F (remove1 x C) D (insert x T) (set C \<union> set D \<union> (T - P))"
      by (rule mcore_put_flag [OF m1(2)])
    have nd: "\<not> is_dirty (ent m x)" using minv_flags(2) [OF inv xC] by simp
    have "minv ?m2 F (remove1 x C) D (insert x T) P \<and> view_of ?m2 =
      (view_of ?m0)\<lparr>v_clean := remove1 x C, v_dirty := D, v_moving := (v_moving (view_of ?m0))(x \<mapsto> False)\<rparr>"
      by (rule depart_law [OF c2 inv0])
         (use xC xD nd in \<open>auto simp: remove1_idem keeps_flags [OF m1(3)] keeps_rest [OF m1(3)] ekey_ent\<close>)
    moreover have "demotion_clean_to_free m cblock = Some (True, x, unlock_map ?m2)"
      using l n False m1(1) C head_law [OF mcore_dll(2) [OF core]] x mcore_infer [OF c2]
      by (simp add: demotion_clean_to_free_def in_es_flags)
    moreover have "a_demote_start (view_of m) = Some (x, (view_of m)\<lparr>v_clean := remove1 x C, v_dirty := D,
        v_moving := (v_moving (view_of m))(x \<mapsto> False)\<rparr>)"
      using False C view_fields(1,3,4) [OF core] by (simp add: a_demote_start_def)
    moreover have "in_flight x (unlock_map ?m2)"
      using in_flight_iff [of "unlock_map ?m2" F "remove1 x C" D "insert x T" P x] calculation(1) by simp
    moreover have "wq_inv (m_wq ?m2)"
      using q keeps_rest(6) [OF m1(3)] by simp
    ultimately show ?thesis using xP unlocked_inv by auto
  qed
qed


lemma writeback_start_law:
  assumes "map_inv P m"
  shows "(case a_writeback_start (view_of m) of
      None \<Rightarrow> writeback_dirty_to_clean m cblock = Some (False, cblock, m)
    | Some (x, v) \<Rightarrow> \<exists>m'. writeback_dirty_to_clean m cblock = Some (True, x, m') \<and>
        map_inv P m' \<and> view_of m' = v \<and> in_flight x m' \<and> x \<notin> P)"
proof -
  obtain F C D T where inv: "minv m F C D T P" and l: "locked (mapping_lock m) = 0" and q: "wq_inv (m_wq m)"
    by (rule map_invE [OF assms])
  let ?m0 = "m\<lparr>mapping_lock := (mapping_lock m)\<lparr>locked := 1\<rparr>\<rparr>"
  have inv0: "minv ?m0 F C D T P" using inv by simp
  note core = minv_core(1) [OF inv] and core0 = minv_core(1) [OF inv0]
  have n: "nr_elts (m_dirty m) = 0 \<longleftrightarrow> D = []"
    using dll_nr_elts [OF mcore_dll(3) [OF core]] by (auto simp: unat_eq_0)
  show ?thesis
  proof (cases D)
    case Nil
    then show ?thesis
      using l n view_fields(4) [OF core] by (simp add: writeback_dirty_to_clean_def a_writeback_start_def)
  next
    case (Cons x D')
    then have xD: "x \<in> set D" and x: "x < CACHE_BLOCK_NUMBER" and xC: "x \<notin> set C" and xP: "x \<notin> P"
      using mcore_bound [OF core, of x] mcore_dll [OF core] minv_core(3) [OF inv] by auto
    let ?m1 = "put_entry x (with_flag 1 False (with_flag 0 True (ent m x))) ?m0"
    have "mcore ?m1 F C D T (set C \<union> set D \<union> (T - P))"
      using mcore_put_flag [OF mcore_put_flag [OF core0, of x 0 True], of x 1 False] by simp
    then obtain m2 where m2: "queue_apply l_del True ?m1 (Entry x) = Some m2"
        "mcore m2 F C (remove1 x D) (insert x T) (set C \<union> set D \<union> (T - P))" "keeps ?m1 m2"
      by (rule del_dirty_step [OF _ xD])
    have np: "\<not> is_pending (ent m x)" using minv_flags(3) [OF inv xD] by simp
    have "minv m2 F C (remove1 x D) (insert x T) P \<and> view_of m2 =
      (view_of ?m0)\<lparr>v_clean := C, v_dirty := remove1 x D, v_moving := (v_moving (view_of ?m0))(x \<mapsto> False)\<rparr>"
      by (rule depart_law [OF m2(2) inv0])
         (use xC xD in \<open>auto simp: remove1_idem keeps_flags [OF m2(3)] keeps_rest [OF m2(3)] ekey_ent\<close>)
    moreover have "writeback_dirty_to_clean m cblock = Some (True, x, unlock_map m2)"
      using l n np m2(1) Cons head_law [OF mcore_dll(3) [OF core]] x mcore_infer [OF m2(2)] get_flags(1) [OF x, of m]
      by (simp add: writeback_dirty_to_clean_def in_es_flags)
    moreover have "a_writeback_start (view_of m) = Some (x, (view_of m)\<lparr>v_clean := C, v_dirty := remove1 x D,
        v_moving := (v_moving (view_of m))(x \<mapsto> False)\<rparr>)"
      using Cons view_fields(3,4) [OF core] by (simp add: a_writeback_start_def)
    moreover have "in_flight x (unlock_map m2)"
      using in_flight_iff [of "unlock_map m2" F C "remove1 x D" "insert x T" P x] calculation(1) by simp
    moreover have "wq_inv (m_wq m2)"
      using q keeps_rest(6) [OF m2(3)] by simp
    ultimately show ?thesis using xP unlocked_inv by auto
  qed
qed

lemma promotion_start_law:
  assumes "map_inv P m" and "length p \<le> MAX_PATH_SIZE"
  shows "(case a_promote_start (p, c) (view_of m) of
      None \<Rightarrow> promotion_free_to_clean m p c cblock = Some (False, cblock, m)
    | Some (x, v) \<Rightarrow> \<exists>m'. promotion_free_to_clean m p c cblock = Some (True, x, m') \<and>
        map_inv (insert x P) m' \<and> view_of m' = v \<and> in_flight x m' \<and> x \<notin> P)"
proof -
  obtain F C D T where inv: "minv m F C D T P" and l: "locked (mapping_lock m) = 0" and q: "wq_inv (m_wq m)"
    by (rule map_invE [OF assms(1)])
  let ?m0 = "m\<lparr>mapping_lock := (mapping_lock m)\<lparr>locked := 1\<rparr>\<rparr>"
  have inv0: "minv ?m0 F C D T P" using inv by simp
  note core = minv_core(1) [OF inv]
  have e: "allocator_empty (m_ea m) \<longleftrightarrow> F = []" by (rule mcore_free_empty [OF core])
  show ?thesis
  proof (cases F)
    case Nil
    then show ?thesis
      using l e view_fields(2) [OF core] by (simp add: promotion_free_to_clean_def a_promote_start_def)
  next
    case (Cons x F')
    obtain m1 where k1: "keeps ?m0 m1" and a: "map_alloc_entry ?m0 =
          Some (Entry x, put_entry x (fresh_entry (ent m1 x)) m1)"
        and c1: "\<forall>e. mcore (put_entry x e m1) F' C D (insert x T) (set C \<union> set D \<union> (T - P))"
        and x: "x < CACHE_BLOCK_NUMBER" "x \<notin> set F' \<union> set C \<union> set D \<union> T"
      by (rule new_step [OF inv0 [unfolded Cons]])
    let ?m2 = "put_entry x (new_entry True False (p, c) (ent m1 x)) m1"
    note keep = keeps_flags [OF k1] keeps_rest [OF k1]
    have H: "T - P = insert x T - insert x P" using x minv_core(3) [OF inv] by auto
    have c2: "mcore ?m2 F' C D (insert x T) (set C \<union> set D \<union> (insert x T - insert x P))"
      using c1 H by simp
    have "flags_ok ?m2 F' C D (insert x T)"
      using minv_core(2) [OF inv] x unfolding flags_ok_def Cons by (auto simp: keep)
    then have i2: "minv ?m2 F' C D (insert x T) (insert x P)"
      using c2 minv_core(3) [OF inv] by (auto simp: minv_def)
    have "view_of ?m2 = (view_of m)\<lparr>v_free := F', v_key := (v_key (view_of m))(x \<mapsto> (p, c)),
        v_moving := (v_moving (view_of m))(x \<mapsto> False)\<rparr>"
      by (rule view_eqI [OF c2 [folded H]]) (use x in \<open>auto simp: view_fields [OF core] keep\<close>)
    moreover have "promotion_free_to_clean m p c cblock = Some (True, x, unlock_map ?m2)"
      using l e Cons a x(1) assms(2) mcore_infer [OF c2]
      by (simp add: promotion_free_to_clean_def in_es_flags new_entry_def del: store.simps)
    moreover have "in_flight x (unlock_map ?m2)"
      using in_flight_iff [of "unlock_map ?m2" F' C D "insert x T" "insert x P" x] i2 by simp
    moreover have "wq_inv (m_wq ?m2)" using q keep by simp
    moreover have "x \<notin> P" using x minv_core(3) [OF inv] by auto
    ultimately show ?thesis
      using unlocked_inv [OF i2] Cons view_fields(2) [OF core] by (simp add: a_promote_start_def)
  qed
qed


lemma set_dirty_law:
  assumes "map_inv P m" and "x < cache_block_num m"
  shows "\<exists>m'. set_dirty_after_write m x d = Some m' \<and> map_inv P m' \<and> view_of m' = a_set_dirty x (view_of m)"
proof -
  obtain F C D T where inv: "minv m F C D T P" and l: "locked (mapping_lock m) = 0" and q: "wq_inv (m_wq m)"
    by (rule map_invE [OF assms(1)])
  let ?m0 = "m\<lparr>mapping_lock := (mapping_lock m)\<lparr>locked := 1\<rparr>\<rparr>"
  have inv0: "minv ?m0 F C D T P" using inv by simp
  note core = minv_core(1) [OF inv] and core0 = minv_core(1) [OF inv0]
  have mem: "x \<in> T \<union> set (F @ C @ D)"
    using core assms(2) by (simp only: mcore_def mem_Collect_eq)
  then have x: "x < CACHE_BLOCK_NUMBER"
    using mcore_bound [OF core] by auto
  note get = get_flags [OF x]
  consider "x \<in> set F" | "x \<in> T" | "x \<in> set C \<union> set D" using mem by auto
  then show ?thesis
  proof cases
    case 1
    then have "\<not> is_alloc (ent m x)" using minv_flags(1) [OF inv] by blast
    with l x get(3) [of m] assms(1) view_fields(5) [OF core, of x] show ?thesis
      by (simp add: set_dirty_after_write_def a_set_dirty_def)
  next
    case 2
    then have f: "is_alloc (ent m x)" "is_pending (ent m x)" using minv_flags(4) [OF inv] by blast+
    let ?m1 = "put_entry x (with_flag 1 True (ent m x)) ?m0"
    have c1: "mcore ?m1 F C D T (set C \<union> set D \<union> (T - P))"
      using mcore_put_flag [OF core0, of x 1 True] by simp
    have "flags_ok ?m1 F C D T"
      using minv_core(2) [OF inv] 2 mcore_dll(10-12) [OF core] unfolding flags_ok_def by auto
    then have "minv ?m1 F C D T P"
      using c1 minv_core(3) [OF inv] by (simp add: minv_def)
    moreover have "view_of ?m1 = a_set_dirty x (view_of m)"
      using f by (intro view_eqI [OF c1])
        (auto simp: a_set_dirty_def view_fields [OF core] ekey_ent split: if_splits)
    moreover have "set_dirty_after_write m x d = Some (unlock_map ?m1)"
      using l x f get(1,3) [of m] by (simp add: set_dirty_after_write_def in_es_flags)
    ultimately show ?thesis
      using unlocked_inv [of ?m1] q by auto
  next
    case 3
    then have f: "is_alloc (ent m x)" "\<not> is_pending (ent m x)" and xT: "x \<notin> T" "x \<notin> set F"
      using minv_flags(2,3) [OF inv] mcore_dll [OF core] by auto
    let ?H = "set C \<union> set D \<union> (T - P)"
    obtain m1 where m1: "queue_del ?m0 (Entry x) = Some m1"
        "mcore m1 F (remove1 x C) (remove1 x D) (insert x T) ?H" "keeps ?m0 m1"
      by (rule unqueue_step [OF inv0 3])
    let ?m2 = "put_entry x (with_flag 1 True (ent m1 x)) m1"
    have c2: "mcore ?m2 F (remove1 x C) (remove1 x D) (insert x T) ?H"
      by (rule mcore_put_flag [OF m1(2)])
    have d2: "is_dirty (ent ?m2 x)" by simp
    obtain m3 where m3: "do { d \<leftarrow> entry_get_dirty (m_es ?m2) (Entry x); queue_apply l_add_tail d ?m2 (Entry x) } = Some m3"
        "mcore m3 F (remove1 x C) (remove1 x D @ [x]) (insert x T - {x}) ?H" "keeps ?m2 m3"
      using requeue_step [OF c2 _ _ list_inserts_tail, of x] d2 3 by auto
    note keep = keeps_flags [OF m3(3)] keeps_flags [OF m1(3)] keeps_rest [OF m3(3)] keeps_rest [OF m1(3)]
    note rem = set_remove1_eq [OF mcore_dll(5) [OF core]] set_remove1_eq [OF mcore_dll(6) [OF core]]
    have T: "insert x T - {x} = T" using xT by simp
    have H: "?H = set (remove1 x C) \<union> set (remove1 x D @ [x]) \<union> (T - P)"
      using 3 rem by auto
    note core3 = m3(2) [unfolded T]
    have "flags_ok m3 F (remove1 x C) (remove1 x D @ [x]) T"
      using minv_core(2) [OF inv] xT f unfolding flags_ok_def by (auto simp: keep rem)
    then have "minv m3 F (remove1 x C) (remove1 x D @ [x]) T P"
      using core3 minv_core(3) [OF inv] unfolding minv_def H by simp
    moreover have "view_of m3 = a_set_dirty x (view_of m)"
      using f by (intro view_eqI [OF core3]) (simp_all add: a_set_dirty_def view_fields [OF core] keep ekey_ent)
    moreover have "set_dirty_after_write m x d = Some (unlock_map m3)"
      using l x f get(1,3) [of m] m1(1) m3(1) [folded queue_add_tail_def]
      by (simp add: set_dirty_after_write_def in_es_flags)
    moreover have "wq_inv (m_wq m3)" using q keep by simp
    ultimately show ?thesis using unlocked_inv by fastforce
  qed
qed

subsection \<open>Initialisation\<close>

text \<open>The shared memory is new, so it is all zero: no entry has its alloc bit set.\<close>

definition empty_view :: "u32 \<Rightarrow> u32 \<Rightarrow> cache_view" where
  "empty_view n s = \<lparr>v_blocks = n, v_free = index_range 0 n, v_clean = [], v_dirty = [],
     v_key = (\<lambda>x. None), v_moving = (\<lambda>x. None), v_map = (\<lambda>k. None), v_work = [],
     v_hits = 0, v_misses = 0, v_promotions = 0, v_demotions = 0, v_writebacks = 0, v_shift = s\<rparr>"

lemma distinct_index_range: "distinct (index_range i n)"
proof -
  have "inj_on (of_nat :: nat \<Rightarrow> u32) {unat i..<unat n}"
  proof (rule inj_onI)
    fix a b :: nat
    assume "a \<in> {unat i..<unat n}" "b \<in> {unat i..<unat n}" "(of_nat a :: u32) = of_nat b"
    moreover from this have "a < 2 ^ 32" "b < 2 ^ 32" using unat_lt [of n] by auto
    ultimately show "a = b" using unat_of_nat_lt_len by metis
  qed
  then show ?thesis by (simp add: index_range_def distinct_map)
qed

lemma init_mapping_law:
  assumes "bsize \<noteq> 0" and "n \<noteq> 0" and "n \<le> CACHE_BLOCK_NUMBER"
    and "\<And>x. \<not> is_alloc (ent m x)" and "wq_inv (m_wq m)" and "items (m_wq m) = []"
  shows "\<exists>m'. init_mapping m bsize n = Some (0, m') \<and> map_inv {} m' \<and> 
    view_of m' = empty_view n (of_int (LOG2 (CACHE_BLOCK_SIZE div bsize))) \<and> block_size m' = bsize \<and>
    block_per_page_shift m' = of_int (LOG2 (PAGE_SIZE div bsize))"
proof -
  obtain ea es where a: "init_allocator (m_ea m) (alloc_es (m_es m)) 0 n = Some (ea, es)"
      "dll es (ea_free ea) (index_range 0 n)" "nr_allocated ea = 0" "ea_begin ea = 0"
      "link_frame {x. x < n} (alloc_es (m_es m)) es"
    using init_allocator_law [OF assms(3)] by blast
  obtain ht where t: "alloc_hash_table (m_table m) = Some ht" "htab es ht {}"
    using alloc_hash_table_law by blast
  let ?m = "m\<lparr>block_size := bsize, cache_block_num := n,
    block_per_cblock_shift := of_int (LOG2 (CACHE_BLOCK_SIZE div bsize)),
    block_per_page_shift := of_int (LOG2 (PAGE_SIZE div bsize)),
    m_ea := ea, m_es := es, m_clean := l_init (m_clean m), m_dirty := l_init (m_dirty m),
    m_table := ht, hit_time := 0, miss_time := 0, promotion_time := 0, demotion_time := 0,
    writeback_time := 0, mapping_lock := spinlock_init (mapping_lock m)\<rparr>"
  have t': "htab es ht {}" using t(2) by (simp add: htab_def)
  have "length (index_range 0 n) = unat n" by (simp add: index_range_def)
  then have nr: "nr_elts (ea_free ea) = n"
    using dll_nr_elts [OF a(2)] by (simp add: unsigned_word_eqI)
  have core: "mcore ?m (index_range 0 n) [] [] {} {}"
    using a(2,3,4) nr t' assms(3) set_index_range [of 0 n]
    by (auto simp: mcore_def distinct_index_range)
  have na: "\<not> is_alloc (ent ?m x)" for x
    using assms(4) [of x] link_frame_flags(3) [OF a(5), of x] by (simp add: ent_def alloc_es_def)
  then have "minv ?m (index_range 0 n) [] [] {} {}"
    using core by (simp add: minv_def flags_ok_def)
  then have "map_inv {} ?m"
    by (rule map_invI) (use assms(5) in \<open>simp add: ready_def\<close>)
  moreover have "view_of ?m = empty_view n (of_int (LOG2 (CACHE_BLOCK_SIZE div bsize)))"
    by (rule view_eqI [OF core]) (use na assms(6) in \<open>simp_all add: empty_view_def\<close>)
  moreover have "init_mapping m bsize n = Some (0, ?m)"
    using assms(1,2) a(1) t(1) by (simp add: init_mapping_def)
  ultimately show ?thesis by auto
qed

lemma zero_mapping_start:
  "\<not> is_alloc (ent zero_mapping x)" "wq_inv (m_wq zero_mapping)" "items (m_wq zero_mapping) = []"
  by (simp_all add: zero_mapping_def zero_es_def ent_def is_alloc_def wq_inv_def items_def consts_simps)

text \<open>A small cache to apply the properties to: eight blocks on a device with 512 byte sectors.\<close>

definition small_map :: mapping where
  "small_map = snd (the (init_mapping zero_mapping 512 8))"

lemma LOG2_64: "LOG2 64 = 6"
  by (simp add: LOG2.simps)

lemma small_map_law: "map_inv {} small_map" "view_of small_map = empty_view 8 6"
proof -
  have n: "(8 :: u32) \<le> CACHE_BLOCK_NUMBER" "CACHE_BLOCK_SIZE div 512 = 64" by (simp_all add: consts_simps)
  obtain m where "init_mapping zero_mapping 512 8 = Some (0, m)" "map_inv {} m" "view_of m = empty_view 8 6"
    using init_mapping_law [OF _ _ n(1), of 512 zero_mapping] zero_mapping_start n(2) by (auto simp: LOG2_64)
  then show "map_inv {} small_map" "view_of small_map = empty_view 8 6"
    by (simp_all add: small_map_def)
qed

lemma small_free: "v_free (empty_view 8 s) = [0, 1, 2, 3, 4, 5, 6, 7]"
  by (simp add: empty_view_def index_range_def upt_rec)

end
