(* ===== verification/Mapping_Spec.thy ===== *)
theory Mapping_Spec
  imports Mapping_Moves
begin

text \<open>
  The properties of the mapping: every operation of \<^verbatim>\<open>lib/ssd_cache_mapping.c\<close> that users
  call refines an operation of the abstract cache of \<open>Mapping_Ops\<close>, the blocks of the cache
  are always divided among the free list, the two queues and the blocks in transit, and what
  the completion of a move does to data that was written meanwhile.
\<close>

subsection \<open>The blocks of the cache\<close>

text \<open>
  Under the invariant the free list, the clean queue and the dirty queue have no
  block twice and none in common, a block is on none of them exactly when a move has it, and
  exactly the blocks of the cache are on one of them or in transit.
\<close>

lemma partition_law:
  assumes "map_inv P m"
  defines "v \<equiv> view_of m"
  shows "distinct (v_free v @ v_clean v @ v_dirty v) \<and>
    {x. x < v_blocks v} = set (v_free v @ v_clean v @ v_dirty v) \<union> {x. x < v_blocks v \<and> v_moving v x \<noteq> None} \<and>
    set (v_free v @ v_clean v @ v_dirty v) \<inter> {x. x < v_blocks v \<and> v_moving v x \<noteq> None} = {}"
proof -
  obtain F C D T where inv: "minv m F C D T P" using assms(1) by (auto elim: map_invE)
  note core = minv_core(1) [OF inv]
  have T: "{x. x < cache_block_num m \<and> v_moving v x \<noteq> None} = T"
    using in_flight_iff [OF inv] by (auto simp: in_flight_def v_def)
  have lists: "v_free v @ v_clean v @ v_dirty v = F @ C @ D" and n: "v_blocks v = cache_block_num m"
    by (simp_all add: v_def view_fields [OF core])
  have "distinct (F @ C @ D)" and disj: "T \<inter> set (F @ C @ D) = {}"
      and all: "T \<union> set (F @ C @ D) = {i. i < cache_block_num m}"
    using core by (simp_all only: mcore_def)
  moreover have "{x. x < cache_block_num m} = set (F @ C @ D) \<union> T" using all by (simp only: Un_commute)
  moreover have "set (F @ C @ D) \<inter> T = {}" using disj by (simp only: Int_commute)
  ultimately show ?thesis unfolding n lists T by (simp only: simp_thms)
qed

text \<open>The small cache with one block in use.\<close>

lemma small_insert:
  "\<exists>m. lookup_mapping_with_insert small_map ''f'' 8 0 = Some (True, 0, m) \<and> map_inv {} m \<and>
    view_of m = (empty_view 8 6)\<lparr>v_free := [1, 2, 3, 4, 5, 6, 7], v_dirty := [0], v_misses := 1,
      v_key := [0 \<mapsto> (''f'', 1)], v_map := [(''f'', 1) \<mapsto> 0]\<rparr>"
proof -
  have i: "to_cache_page_index 8 = 1"
    by (simp add: to_cache_page_index_def drop_bit_eq_div)
  have "a_insert (''f'', 1) (empty_view 8 6) = (Some 0, (empty_view 8 6)\<lparr>v_free := [1, 2, 3, 4, 5, 6, 7],
      v_dirty := [0], v_misses := 1, v_key := [0 \<mapsto> (''f'', 1)], v_map := [(''f'', 1) \<mapsto> 0]\<rparr>)"
    using small_free [of 6]
    by (simp add: a_insert_def a_miss_def held_back_def empty_view_def fun_eq_iff)
  with lookup_with_insert_law [OF small_map_law(1), of "''f''" 8 0] show ?thesis
    by (simp add: small_map_law(2) i consts_simps)
qed

lemma small_queued:
  assumes "length p \<le> MAX_PATH_SIZE"
  shows "\<exists>m. lookup_mapping small_map p 8 0 = Some (False, 0, m) \<and> map_inv {} m \<and>
    view_of m = (empty_view 8 6)\<lparr>v_misses := 1, v_work := [\<lparr>work_path = p, work_index = 1\<rparr>]\<rparr>"
proof -
  have "to_cache_page_index 8 = 1"
    by (simp add: to_cache_page_index_def drop_bit_eq_div)
  moreover have "a_lookup (p, 1) (empty_view 8 6) =
      (None, (empty_view 8 6)\<lparr>v_misses := 1, v_work := [\<lparr>work_path = p, work_index = 1\<rparr>]\<rparr>)"
    by (simp add: a_lookup_def a_request_def a_miss_def work_of_def empty_view_def)
  ultimately show ?thesis
    using lookup_mapping_law [OF small_map_law(1) assms, of 8 0] by (simp add: small_map_law(2))
qed

text \<open>
  The map from keys to blocks is the inverse of the keys of the blocks: a key has a
  block exactly when that block is used under the key and is not still being promoted, so two keys
  never share a block and a block in use has one key.
\<close>

lemma injective_law:
  assumes "map_inv P m"
  shows "v_map (view_of m) k = Some x \<longleftrightarrow>
    x < v_blocks (view_of m) \<and> x \<notin> P \<and> v_key (view_of m) x = Some k"
proof -
  obtain F C D T where inv: "minv m F C D T P" using assms(1) by (auto elim: map_invE)
  note core = minv_core(1) [OF inv]
  have all: "x < v_blocks (view_of m) \<longleftrightarrow> x \<in> T \<union> set (F @ C @ D)"
    using core by (simp only: mcore_def view_fields(1) [OF core] mem_Collect_eq)
  have P: "x \<in> P \<Longrightarrow> x \<in> T" using minv_core(3) [OF inv] by blast
  show ?thesis
    unfolding all find_iff [OF inv] view_fields(5) [OF core]
    using minv_flags [OF inv, of x] mcore_dll [OF core] P by auto
qed

subsection \<open>Requests\<close>

text \<open>
  C14: \<open>lookup_mapping\<close> returns from every state that satisfies the invariant, keeps it,
  answers with the block of the key when there is one, counts the hit and moves a clean block to
  the most recently used end; otherwise it counts the miss and queues the key for promotion,
  unless it is queued already or the queue is full. It is the abstract lookup exactly.
\<close>

theorem lookup_refines:
  assumes "map_inv P m" and "length p \<le> MAX_PATH_SIZE"
  shows "\<exists>m'. lookup_mapping m p i cblock =
      Some (v_map (view_of m) (p, to_cache_page_index i) \<noteq> None,
        result_block (v_map (view_of m) (p, to_cache_page_index i)) cblock, m') \<and>
    map_inv P m' \<and> view_of m' = snd (a_lookup (p, to_cache_page_index i) (view_of m))"
proof -
  have "fst (a_lookup k v) = v_map v k" for k v
    by (simp add: a_lookup_def split: option.split)
  with lookup_mapping_law [OF assms, of i cblock] show ?thesis by simp
qed

theorem lookup_refines_witness:
  "\<exists>m. lookup_mapping small_map ''f'' 8 7 = Some (False, 7, m) \<and>
    v_work (view_of m) = [\<lparr>work_path = ''f'', work_index = 1\<rparr>] \<and> v_misses (view_of m) = 1"
proof -
  have i: "to_cache_page_index 8 = 1"
    by (simp add: to_cache_page_index_def drop_bit_eq_div)
  have v: "v_map (empty_view 8 6) (''f'', 1) = None" by (simp add: empty_view_def)
  have "length ''f'' \<le> MAX_PATH_SIZE" by (simp add: consts_simps)
  from lookup_refines [OF small_map_law(1) this, of 8 7] show ?thesis
    unfolding small_map_law(2) i v
    by (auto simp: a_lookup_def v a_request_def a_miss_def work_of_def) (simp_all add: empty_view_def)
qed

text \<open>
  C13: \<open>lookup_mapping_with_insert\<close> does the same on a hit. On a miss it takes the oldest
  free block for the key and puts it at the end of the dirty queue, unless a queued work with a
  prefix of the path holds the key back, or no block is free and the key is queued instead.
\<close>

theorem insert_refines:
  assumes "map_inv P m" and "length p \<le> MAX_PATH_SIZE"
  shows "let r = a_insert (p, to_cache_page_index i) (view_of m)
    in \<exists>m'. lookup_mapping_with_insert m p i cblock = Some (fst r \<noteq> None, result_block (fst r) cblock, m') \<and>
      map_inv P m' \<and> view_of m' = snd r"
  using lookup_with_insert_law [OF assms] by (simp add: Let_def)

theorem insert_refines_witness:
  "\<exists>m. lookup_mapping_with_insert small_map ''f'' 8 0 = Some (True, 0, m) \<and> v_dirty (view_of m) = [0] \<and>
    v_map (view_of m) (''f'', 1) = Some 0"
proof -
  have i: "to_cache_page_index 8 = 1"
    by (simp add: to_cache_page_index_def drop_bit_eq_div)
  have "length ''f'' \<le> MAX_PATH_SIZE" by (simp add: consts_simps)
  from insert_refines [OF small_map_law(1) this, of 8 0]
  show ?thesis
    using small_free [of 6] unfolding small_map_law(2) i
    by (auto simp: Let_def a_insert_def a_miss_def held_back_def) (auto simp: empty_view_def)
qed

text \<open>
  C15: \<open>remove_mapping\<close> of a key whose block is not in transit unlinks the block from its
  queue and from the table and puts it behind the free blocks; a key without block is left alone.
\<close>

theorem remove_refines:
  assumes "map_inv P m"
    and "\<forall>x. v_map (view_of m) (p, to_cache_page_index i) = Some x \<longrightarrow> v_moving (view_of m) x = None"
  shows "let r = a_remove (p, to_cache_page_index i) (view_of m)
    in \<exists>m'. remove_mapping m p i = Some (fst r, m') \<and> map_inv P m' \<and> view_of m' = snd r"
  using remove_mapping_law [OF assms(1)] assms(2) by (simp add: Let_def)

theorem remove_refines_witness:
  "\<exists>m m'. lookup_mapping_with_insert small_map ''f'' 8 0 = Some (True, 0, m) \<and>
    remove_mapping m ''f'' 15 = Some (True, m') \<and> v_free (view_of m') = [1, 2, 3, 4, 5, 6, 7, 0]"
proof -
  obtain m where m: "lookup_mapping_with_insert small_map ''f'' 8 0 = Some (True, 0, m)" "map_inv {} m"
      "view_of m = (empty_view 8 6)\<lparr>v_free := [1, 2, 3, 4, 5, 6, 7], v_dirty := [0], v_misses := 1,
      v_key := [0 \<mapsto> (''f'', 1)], v_map := [(''f'', 1) \<mapsto> 0]\<rparr>"
    using small_insert by blast
  have "\<forall>x. v_map (view_of m) (''f'', to_cache_page_index 15) = Some x \<longrightarrow> v_moving (view_of m) x = None"
    by (simp add: m(3) empty_view_def)
  from remove_refines [OF m(2) this] m(1) show ?thesis
    by (auto simp: Let_def m(3) a_remove_def to_cache_page_index_def drop_bit_eq_div)
qed

text \<open>
  C16: \<open>set_dirty_after_write\<close> on a block of the cache returns; a block in use moves to the
  end of the dirty queue, whatever the flag it is given says, and a block in transit gets its dirty bit.
\<close>

theorem set_dirty_refines:
  assumes "map_inv P m" and "x < cache_block_num m"
  shows "\<exists>m'. set_dirty_after_write m x d = Some m' \<and> map_inv P m' \<and> view_of m' = a_set_dirty x (view_of m)"
  by (rule set_dirty_law [OF assms])

theorem set_dirty_refines_witness:
  "\<exists>m m'. lookup_mapping_with_insert small_map ''f'' 8 0 = Some (True, 0, m) \<and>
    set_dirty_after_write m 0 False = Some m' \<and> v_dirty (view_of m') = [0]"
proof -
  obtain m where m: "lookup_mapping_with_insert small_map ''f'' 8 0 = Some (True, 0, m)" "map_inv {} m"
      "view_of m = (empty_view 8 6)\<lparr>v_free := [1, 2, 3, 4, 5, 6, 7], v_dirty := [0], v_misses := 1,
      v_key := [0 \<mapsto> (''f'', 1)], v_map := [(''f'', 1) \<mapsto> 0]\<rparr>"
    using small_insert by blast
  have "v_blocks (view_of m) = 8" by (simp add: m(3) empty_view_def)
  then have "0 < cache_block_num m" by (simp add: view_of_def)
  from set_dirty_refines [OF m(2) this, of False] m(1) show ?thesis
    by (auto simp: m(3) a_set_dirty_def empty_view_def)
qed


subsection \<open>Moves\<close>

text \<open>
  A promotion of an uncached key into the oldest free block keeps the key unknown
  until the data is on the device; once it completes with success the key has that block, at the
  most recently used end of the clean queue; when it fails the block is free again and the key
  still unknown.
\<close>

theorem promotion_caches_key:
  assumes "map_inv P m" and "length p \<le> MAX_PATH_SIZE" and "v_free (view_of m) = x # F"
    and "v_map (view_of m) (p, c) = None"
  shows "\<exists>m1 m2. promotion_free_to_clean m p c cblock = Some (True, x, m1) \<and> v_map (view_of m1) (p, c) = None \<and>
    promotion_complete m1 x ok = Some m2 \<and> map_inv P m2 \<and>
    (if ok then v_map (view_of m2) (p, c) = Some x \<and> v_clean (view_of m2) = v_clean (view_of m) @ [x]
     else v_map (view_of m2) (p, c) = None \<and> v_free (view_of m2) = F @ [x])"
proof -
  define v1 where "v1 = (view_of m)\<lparr>v_free := F, v_key := (v_key (view_of m))(x \<mapsto> (p, c)),
    v_moving := (v_moving (view_of m))(x \<mapsto> False)\<rparr>"
  have "a_promote_start (p, c) (view_of m) = Some (x, v1)"
    by (simp add: a_promote_start_def assms(3) v1_def)
  then obtain m1 where m1: "promotion_free_to_clean m p c cblock = Some (True, x, m1)" "map_inv (insert x P) m1"
      "view_of m1 = v1" "x \<notin> P"
    using promotion_start_law [OF assms(1,2), of c cblock] by auto
  have "v_map (view_of m1) (the (v_key (view_of m1) x)) = None"
    by (simp add: m1(3) v1_def assms(4))
  then obtain m2 where m2: "promotion_complete m1 x ok = Some m2" "map_inv (insert x P - {x}) m2"
      "view_of m2 = a_promote_end x ok (view_of m1)"
    using promotion_complete_law [OF m1(2), of x ok] by auto
  have "map_inv P m2" using m2(2) m1(4) by simp
  moreover have "v_map (view_of m1) (p, c) = None" by (simp add: m1(3) v1_def assms(4))
  ultimately show ?thesis
    using m1(1) m2(1) by (auto simp: m2(3) m1(3) v1_def a_promote_end_def a_settle_def enqueue_def a_drop_def assms(4))
qed

theorem promotion_caches_key_witness:
  "\<exists>m1 m2. promotion_free_to_clean small_map ''f'' 1 9 = Some (True, 0, m1) \<and>
    promotion_complete m1 0 True = Some m2 \<and> v_map (view_of m2) (''f'', 1) = Some 0"
proof -
  have len: "length ''f'' \<le> MAX_PATH_SIZE" by (simp add: consts_simps)
  have "v_map (view_of small_map) (''f'', 1) = None" by (simp add: small_map_law(2) empty_view_def)
  from promotion_caches_key [OF small_map_law(1) len small_free [of 6, folded small_map_law(2)] this, of 9 True]
  show ?thesis by auto
qed

text \<open>
  C21: when the writeback of the oldest dirty block fails, the block goes to the
  front of the clean queue: its dirty bit was cleared at the start and is not set again. The only
  copy of its data is then the next to be demoted.
\<close>

theorem failed_writeback_looks_clean:
  assumes "map_inv P m" and "v_dirty (view_of m) = x # D"
  shows "\<exists>m1 m2. writeback_dirty_to_clean m cblock = Some (True, x, m1) \<and> writeback_complete m1 x False = Some m2 \<and>
    map_inv P m2 \<and> v_clean (view_of m2) = x # v_clean (view_of m) \<and> v_dirty (view_of m2) = D \<and>
    v_writebacks (view_of m2) = v_writebacks (view_of m)"
proof -
  define v1 where "v1 = (view_of m)\<lparr>v_dirty := D, v_moving := (v_moving (view_of m))(x \<mapsto> False)\<rparr>"
  have "a_writeback_start (view_of m) = Some (x, v1)"
    by (simp add: a_writeback_start_def assms(2) v1_def)
  then obtain m1 where m1: "writeback_dirty_to_clean m cblock = Some (True, x, m1)" "map_inv P m1" "view_of m1 = v1"
      "in_flight x m1" "x \<notin> P"
    using writeback_start_law [OF assms(1), of cblock] by auto
  obtain m2 where "writeback_complete m1 x False = Some m2" "map_inv P m2" "view_of m2 = a_writeback_end x False v1"
    using writeback_complete_law [OF m1(2,4,5), of False] m1(3) by auto
  with m1(1) show ?thesis by (simp add: v1_def a_writeback_end_def a_settle_def enqueue_def)
qed

theorem failed_writeback_looks_clean_witness:
  "\<exists>m m1 m2. lookup_mapping_with_insert small_map ''f'' 8 0 = Some (True, 0, m) \<and>
    writeback_dirty_to_clean m 9 = Some (True, 0, m1) \<and> writeback_complete m1 0 False = Some m2 \<and>
    v_clean (view_of m2) = [0] \<and> v_dirty (view_of m2) = []"
proof -
  obtain m where m: "lookup_mapping_with_insert small_map ''f'' 8 0 = Some (True, 0, m)" "map_inv {} m"
      "v_dirty (view_of m) = [0]" "v_clean (view_of m) = []"
    using small_insert by (auto simp: empty_view_def)
  from failed_writeback_looks_clean [OF m(2,3), of 9] m(1,4) show ?thesis by auto
qed

text \<open>
  C22: a write that reaches the block while it is being demoted sets its dirty bit, and
  the completion of the demotion frees the block all the same: the key is gone, and with it the
  written data.
\<close>

theorem demotion_loses_write:
  assumes "map_inv P m" and "v_clean (view_of m) = x # C"
    and "unat (v_blocks (view_of m)) div 2 < length (v_clean (view_of m))"
    and "v_map (view_of m) k = Some x"
  shows "\<exists>m1 m2 m3. demotion_clean_to_free m cblock = Some (True, x, m1) \<and>
    set_dirty_after_write m1 x True = Some m2 \<and> v_moving (view_of m2) x = Some True \<and>
    demotion_complete m2 x True = Some m3 \<and> map_inv P m3 \<and>
    v_map (view_of m3) k = None \<and> v_free (view_of m3) = v_free (view_of m) @ [x]"
proof -
  define v1 where "v1 = (view_of m)\<lparr>v_clean := C, v_moving := (v_moving (view_of m))(x \<mapsto> False)\<rparr>"
  have "a_demote_start (view_of m) = Some (x, v1)"
    using assms(3) by (simp add: a_demote_start_def assms(2) v1_def)
  then obtain m1 where m1: "demotion_clean_to_free m cblock = Some (True, x, m1)" "map_inv P m1" "view_of m1 = v1"
      "in_flight x m1" "x \<notin> P"
    using demotion_start_law [OF assms(1), of cblock] by auto
  have "x < cache_block_num m1" using m1(4) by (simp add: in_flight_def)
  then obtain m2 where m2: "set_dirty_after_write m1 x True = Some m2" "map_inv P m2" "view_of m2 = a_set_dirty x v1"
    using set_dirty_law [OF m1(2)] m1(3) by metis
  obtain F C' D T where inv: "minv m F C' D T P" using assms(1) by (auto elim: map_invE)
  have "x \<in> set C' \<union> set D \<union> (T - P)" and k: "mkey m x = k"
    using assms(4) find_iff [OF inv] by auto
  then have key: "v_key (view_of m) x = Some k"
    using minv_flags(2-4) [OF inv, of x] by (auto simp: view_fields [OF minv_core(1) [OF inv]])
  then have v2: "view_of m2 = v1\<lparr>v_moving := (v_moving (view_of m))(x \<mapsto> True)\<rparr>"
    using m2(3) by (simp add: a_set_dirty_def v1_def)
  have "in_flight x m2"
    using m1(4) m1(3) by (simp add: in_flight_view v2 v1_def)
  then obtain m3 where "demotion_complete m2 x True = Some m3" "map_inv P m3" "view_of m3 = a_demote_end x True (view_of m2)"
    using demotion_complete_law [OF m2(2) _ m1(5), of True] by auto
  with m1(1) m2(1) show ?thesis
    using key by (simp add: v2 v1_def a_demote_end_def a_drop_def)
qed

text \<open>A cache of one block, filled by a promotion.\<close>

definition one_map :: mapping where
  "one_map = snd (the (init_mapping zero_mapping 512 1))"

lemma one_map_law: "map_inv {} one_map" "view_of one_map = empty_view 1 6"
proof -
  have n: "(1 :: u32) \<le> CACHE_BLOCK_NUMBER" "CACHE_BLOCK_SIZE div 512 = 64" by (simp_all add: consts_simps)
  obtain m where "init_mapping zero_mapping 512 1 = Some (0, m)" "map_inv {} m" "view_of m = empty_view 1 6"
    using init_mapping_law [OF _ _ n(1), of 512 zero_mapping] zero_mapping_start n(2) by (auto simp: LOG2_64)
  then show "map_inv {} one_map" "view_of one_map = empty_view 1 6"
    by (simp_all add: one_map_def)
qed

lemma one_map_filled:
  "\<exists>m1 m2. promotion_free_to_clean one_map ''f'' 1 0 = Some (True, 0, m1) \<and>
    promotion_complete m1 0 True = Some m2 \<and> map_inv {} m2 \<and>
    view_of m2 = (empty_view 1 6)\<lparr>v_free := [], v_clean := [0], v_promotions := 1,
      v_key := [0 \<mapsto> (''f'', 1)], v_map := [(''f'', 1) \<mapsto> 0]\<rparr>"
proof -
  note one = one_map_law
  have len: "length ''f'' \<le> MAX_PATH_SIZE" by (simp add: consts_simps)
  let ?v1 = "(empty_view 1 6)\<lparr>v_free := [], v_key := [0 \<mapsto> (''f'', 1)], v_moving := [0 \<mapsto> False]\<rparr>"
  have "a_promote_start (''f'', 1) (empty_view 1 6) = Some (0, ?v1)"
    by (simp add: a_promote_start_def empty_view_def index_range_def)
  then obtain m1 where m1: "promotion_free_to_clean one_map ''f'' 1 0 = Some (True, 0, m1)" "map_inv {0} m1" "view_of m1 = ?v1"
    using promotion_start_law [OF one(1) len, of 1 0] one(2) by auto
  have "v_map (view_of m1) (the (v_key (view_of m1) 0)) = None" by (simp add: m1(3) empty_view_def)
  then obtain m2 where "promotion_complete m1 0 True = Some m2" "map_inv ({0} - {0}) m2"
      "view_of m2 = a_promote_end 0 True (view_of m1)"
    using promotion_complete_law [OF m1(2), of 0 True] by auto
  with m1(1,3) show ?thesis
    by (simp add: a_promote_end_def a_settle_def enqueue_def) (simp add: empty_view_def)
qed

theorem demotion_loses_write_witness:
  "\<exists>m m1 m2 m3. v_map (view_of m) (''f'', 1) = Some 0 \<and> demotion_clean_to_free m 9 = Some (True, 0, m1) \<and>
    set_dirty_after_write m1 0 True = Some m2 \<and> v_moving (view_of m2) 0 = Some True \<and>
    demotion_complete m2 0 True = Some m3 \<and> v_map (view_of m3) (''f'', 1) = None"
proof -
  obtain m where m: "map_inv {} m" "view_of m = (empty_view 1 6)\<lparr>v_free := [], v_clean := [0], v_promotions := 1,
      v_key := [0 \<mapsto> (''f'', 1)], v_map := [(''f'', 1) \<mapsto> 0]\<rparr>"
    using one_map_filled by blast
  have "v_clean (view_of m) = [0]" "v_map (view_of m) (''f'', 1) = Some 0"
      "unat (v_blocks (view_of m)) div 2 < length (v_clean (view_of m))"
    by (simp_all add: m(2)) (simp add: empty_view_def)
  from demotion_loses_write [OF m(1) this(1,3,2), of 9] this(2) show ?thesis by auto
qed

end
