(* ===== verification/Spdk.thy ===== *)
theory Spdk
  imports Config
begin

text \<open>
  The device layer of \<^verbatim>\<open>lib/spdk.c\<close>, over an external world. The SPDK driver and
  the kernel are parameters: \<open>submit\<close> performs one command and \<open>poll\<close> is
  \<open>spdk_nvme_qpair_process_completions\<close>, which reports the completions whose callbacks it
  runs, each with its error status. The world \<open>'w\<close> is arbitrary. \<open>logged S\<close> is the same
  world with a record of the commands, so that properties can speak of what was sent.
\<close>

unbundle bit_operations_syntax

subsection \<open>The external world\<close>

type_synonym addr = u64

record iovec =
  iov_base :: addr
  iov_len :: u64

text \<open>
  The request behind a vectored command. The driver gets it with the command and walks its
  buffers through \<open>reset_sgl_fn\<close> and \<open>next_sge_fn\<close>.
\<close>

record io_req =
  is_completed :: bool
  iov_offset :: u32
  iovs :: "iovec list"
  iov_pos :: int
  iov_cnt :: int

datatype open_mode = O_RDONLY | O_WRONLY | O_RDONLY_CREAT | O_WRONLY_CREAT

datatype io_cmd =
    NsRead queue_type addr u64 u32
  | NsWrite queue_type addr u64 u32
  | NsReadv queue_type io_req u64 u32
  | NsWritev queue_type io_req u64 u32
  | NsDeallocate queue_type u64 u32
  | OpenFile "cstring option" open_mode
  | CloseFile int
  | Pread int addr u32 u64
  | Pwrite int addr u32 u64
  | Preadv int "iovec list" int u64
  | Pwritev int "iovec list" int u64

datatype callback = IoComplete | CbFn | TrimComplete

record 'w driver =
  submit :: "io_cmd \<Rightarrow> 'w \<Rightarrow> int \<times> 'w"
  poll :: "queue_type \<Rightarrow> 'w \<Rightarrow> (callback \<times> bool) list \<times> 'w"

definition logged :: "'w driver \<Rightarrow> ('w \<times> io_cmd list) driver" where
  "logged S = \<lparr>submit = (\<lambda>c (w, cs). let (rc, w') = submit S c w in (rc, (w', cs @ [c]))),
     poll = (\<lambda>q (w, cs). let (done, w') = poll S q w in (done, (w', cs)))\<rparr>"

lemma logged_simps [simp]:
  "submit (logged S) c (w, cs) = (fst (submit S c w), (snd (submit S c w), cs @ [c]))"
  "poll (logged S) q (w, cs) = (fst (poll S q w), (snd (poll S q w), cs))"
  by (simp_all add: logged_def split: prod.splits)

subsection \<open>Shifts of C\<close>

text \<open>A shift by the width or more has no defined result; nor has a signed one that overflows.\<close>

definition shl_u32 :: "u32 \<Rightarrow> u32 \<Rightarrow> u32 option" where
  "shl_u32 x s = (if s < 32 then Some (push_bit (unat s) x) else None)"

definition shl_int :: "int \<Rightarrow> u32 \<Rightarrow> int option" where
  "shl_int x s = (if s < 32 \<and> 0 \<le> x \<and> x * 2 ^ unat s < 2 ^ 31 then Some (x * 2 ^ unat s) else None)"

subsection \<open>Callbacks and the polling loop\<close>

text \<open>
  \<open>io_complete\<close> and \<open>cb_fn\<close> set the caller's flag whatever the status of the command is. The flag is
  found by the kind of the callback: a process waits for each of its transfers before it submits
  the next one on a queue pair, so the only other commands outstanding there are trims.
\<close>

definition io_complete :: "bool \<Rightarrow> bool \<Rightarrow> bool" where
  "io_complete flag is_error = True"

definition cb_fn :: "bool \<Rightarrow> bool \<Rightarrow> bool" where
  "cb_fn flag is_error = True"

definition trim_complete :: "bool \<Rightarrow> bool \<Rightarrow> bool" where
  "trim_complete flag is_error = flag"

fun run_callback :: "callback \<Rightarrow> callback \<times> bool \<Rightarrow> bool \<Rightarrow> bool" where
  "run_callback mine (cb, is_error) flag =
     (if cb \<noteq> mine then flag
      else case cb of
        IoComplete \<Rightarrow> io_complete flag is_error
      | CbFn \<Rightarrow> cb_fn flag is_error
      | TrimComplete \<Rightarrow> trim_complete flag is_error)"

partial_function (option) await :: "'w driver \<Rightarrow> queue_type \<Rightarrow> callback \<Rightarrow> bool \<Rightarrow> 'w \<Rightarrow> 'w option" where
  "await S q mine flag w =
     (if flag then Some w
      else (let (ds, w') = poll S q w
            in await S q mine (fold (run_callback mine) ds flag) w'))"

subsection \<open>Commands\<close>

definition read_spdk :: "'w driver \<Rightarrow> addr \<Rightarrow> u64 \<Rightarrow> u32 \<Rightarrow> queue_type \<Rightarrow> 'w \<Rightarrow> (int \<times> 'w) option" where
  "read_spdk S dma_buf offset_block num_block q w =
     (let (rc, w) = submit S (NsRead q dma_buf offset_block num_block) w
      in if rc \<noteq> 0 then Some (rc, w)
         else do { w \<leftarrow> await S q IoComplete False w; Some (0, w) })"

definition write_spdk :: "'w driver \<Rightarrow> addr \<Rightarrow> u64 \<Rightarrow> u32 \<Rightarrow> queue_type \<Rightarrow> 'w \<Rightarrow> (int \<times> 'w) option" where
  "write_spdk S dma_buf offset_block num_block q w =
     (let (rc, w) = submit S (NsWrite q dma_buf offset_block num_block) w
      in if rc \<noteq> 0 then Some (rc, w)
         else do { w \<leftarrow> await S q IoComplete False w; Some (0, w) })"

definition trim_spdk :: "'w driver \<Rightarrow> u64 \<Rightarrow> u32 \<Rightarrow> queue_type \<Rightarrow> 'w \<Rightarrow> int \<times> 'w" where
  "trim_spdk S offset_block num_block q w = submit S (NsDeallocate q offset_block num_block) w"

subsection \<open>Vectored commands\<close>

definition init_req :: "io_req \<Rightarrow> iovec list \<Rightarrow> int \<Rightarrow> io_req" where
  "init_req req iov iovcnt =
     req\<lparr>is_completed := False, iovs := iov, iov_pos := 0, iov_cnt := iovcnt\<rparr>"

definition iov_at :: "io_req \<Rightarrow> int \<Rightarrow> iovec option" where
  "iov_at req i = (if 0 \<le> i \<and> i < int (length (iovs req)) then Some (iovs req ! nat i) else None)"

text \<open>The loop of \<open>reset_sgl_fn\<close>, with \<open>iov_pos\<close> already set to 0.\<close>

function seek_iov :: "io_req \<Rightarrow> io_req option" where
  "seek_iov req =
     (if iov_pos req < iov_cnt req
      then do {
        iov \<leftarrow> iov_at req (iov_pos req);
        if ucast (iov_offset req) < iov_len iov then Some req
        else seek_iov (req\<lparr>iov_offset := ucast (ucast (iov_offset req) - iov_len iov),
               iov_pos := iov_pos req + 1\<rparr>)
      }
      else Some req)"
  by pat_completeness auto
termination
  by (relation "measure (\<lambda>req. nat (iov_cnt req - iov_pos req))") auto

declare seek_iov.simps [simp del]

definition reset_sgl_fn :: "io_req \<Rightarrow> u32 \<Rightarrow> io_req option" where
  "reset_sgl_fn req sgl_offset = seek_iov (req\<lparr>iov_offset := sgl_offset, iov_pos := 0\<rparr>)"

definition next_sge_fn :: "io_req \<Rightarrow> (int \<times> addr \<times> u32 \<times> io_req) option" where
  "next_sge_fn req = do {
     iov \<leftarrow> iov_at req (iov_pos req);
     (address, len) \<leftarrow> Some (if iov_offset req \<noteq> 0
       then (iov_base iov + ucast (iov_offset req), ucast (iov_len iov) - iov_offset req)
       else (iov_base iov, ucast (iov_len iov)));
     req \<leftarrow> Some (req\<lparr>iov_offset := iov_offset req + len\<rparr>);
     req \<leftarrow> (if ucast (iov_offset req) = iov_len iov
       then do { pos \<leftarrow> c_int (iov_pos req + 1); Some (req\<lparr>iov_pos := pos, iov_offset := 0\<rparr>) }
       else Some req);
     Some (0, address, len, req)
   }"

text \<open>The request on the caller's stack, whatever it held; every field is set before use.\<close>

definition stack_req :: io_req where
  "stack_req = \<lparr>is_completed = False, iov_offset = 0, iovs = [], iov_pos = 0, iov_cnt = 0\<rparr>"

definition readv_spdk :: "'w driver \<Rightarrow> iovec list \<Rightarrow> int \<Rightarrow> u64 \<Rightarrow> u32 \<Rightarrow> queue_type \<Rightarrow> 'w \<Rightarrow> (int \<times> 'w) option" where
  "readv_spdk S iov iovcnt offset_block num_block q w =
     (let req = init_req stack_req iov iovcnt;
          (rc, w) = submit S (NsReadv q req offset_block num_block) w
      in if rc \<noteq> 0 then Some (rc, w)
         else do { w \<leftarrow> await S q CbFn (is_completed req) w; Some (0, w) })"

definition writev_spdk :: "'w driver \<Rightarrow> iovec list \<Rightarrow> int \<Rightarrow> u64 \<Rightarrow> u32 \<Rightarrow> queue_type \<Rightarrow> 'w \<Rightarrow> (int \<times> 'w) option" where
  "writev_spdk S iov iovcnt offset_block num_block q w =
     (let req = init_req stack_req iov iovcnt;
          (rc, w) = submit S (NsWritev q req offset_block num_block) w
      in if rc \<noteq> 0 then Some (rc, w)
         else do { w \<leftarrow> await S q CbFn (is_completed req) w; Some (0, w) })"


subsection \<open>Polling ends when the device answers\<close>

text \<open>What the code relies on: an accepted command completes after some number of polls.\<close>

primrec completes_within :: "'w driver \<Rightarrow> queue_type \<Rightarrow> callback \<Rightarrow> nat \<Rightarrow> 'w \<Rightarrow> bool" where
  "completes_within S q mine 0 w = False"
| "completes_within S q mine (Suc n) w =
     (let (ds, w') = poll S q w
      in mine \<in> fst ` set ds \<or> completes_within S q mine n w')"

fun awaited :: "io_cmd \<Rightarrow> (queue_type \<times> callback) option" where
  "awaited (NsRead q a off n) = Some (q, IoComplete)"
| "awaited (NsWrite q a off n) = Some (q, IoComplete)"
| "awaited (NsReadv q r off n) = Some (q, CbFn)"
| "awaited (NsWritev q r off n) = Some (q, CbFn)"
| "awaited c = None"

definition answers :: "'w driver \<Rightarrow> bool" where
  "answers S \<longleftrightarrow> (\<forall>c q cb w. awaited c = Some (q, cb) \<longrightarrow> fst (submit S c w) = 0 \<longrightarrow>
     (\<exists>n. completes_within S q cb n (snd (submit S c w))))"

lemma run_callbacks_set:
  assumes "mine \<noteq> TrimComplete"
  shows "fold (run_callback mine) ds b \<longleftrightarrow> b \<or> mine \<in> fst ` set ds"
proof (induction ds arbitrary: b)
  case (Cons d ds)
  obtain cb e where d: "d = (cb, e)" by (cases d)
  show ?case
    using assms by (cases "cb = mine") (auto simp: Cons d io_complete_def cb_fn_def split: callback.splits)
qed simp

lemma await_returns:
  assumes "mine \<noteq> TrimComplete" and "completes_within S q mine n w"
  shows "\<exists>w'. await S q mine b w = Some w'"
  using assms(2)
proof (induction n arbitrary: b w)
  case (Suc n)
  obtain ds w' where p: "poll S q w = (ds, w')" by (cases "poll S q w")
  have stop: "await S q mine True w' = Some w'" by (subst await.simps) simp
  show ?case
  proof (cases b)
    case True
    then show ?thesis by (subst await.simps) simp
  next
    case False
    then have "await S q mine b w = await S q mine (mine \<in> fst ` set ds) w'"
      by (subst await.simps) (simp add: p run_callbacks_set [OF assms(1)])
    moreover have "\<exists>w''. await S q mine (mine \<in> fst ` set ds) w' = Some w''"
      using Suc.prems Suc.IH stop p by (cases "mine \<in> fst ` set ds") (auto simp: Let_def)
    ultimately show ?thesis by simp
  qed
qed simp

text \<open>Polling sends nothing.\<close>

lemma await_logged:
  assumes "await S q mine b w = Some w'"
  shows "await (logged S) q mine b (w, cs) = Some (w', cs)"
  using assms
proof (rule await.raw_induct [where P = "\<lambda>S q mine b w w'. await (logged S) q mine b (w, cs) = Some (w', cs)", rotated])
  fix f :: "'a driver \<Rightarrow> queue_type \<Rightarrow> callback \<Rightarrow> bool \<Rightarrow> 'a \<Rightarrow> 'a option"
    and S :: "'a driver" and q mine b w w'
  assume IH: "\<And>S q mine b w w'. f S q mine b w = Some w' \<Longrightarrow> await (logged S) q mine b (w, cs) = Some (w', cs)"
    and eq: "(if b then Some w else (let (ds, w') = poll S q w in f S q mine (fold (run_callback mine) ds b) w')) = Some w'"
  show "await (logged S) q mine b (w, cs) = Some (w', cs)"
    using eq IH by (subst await.simps) (auto split: if_splits prod.splits)
qed


lemma completes_logged: "completes_within (logged S) q mine n (w, cs) = completes_within S q mine n w"
  by (induction n arbitrary: w) (simp_all add: Let_def split: prod.splits)

lemma answers_logged: "answers S \<Longrightarrow> answers (logged S)"
  by (auto simp: answers_def completes_logged)

lemma answers_await:
  assumes "answers S" and "awaited c = Some (q, cb)" and "fst (submit S c w) = 0"
  shows "\<exists>w'. await S q cb False (snd (submit S c w)) = Some w'"
proof -
  have "cb \<noteq> TrimComplete" using assms(2) by (cases c) auto
  moreover obtain n where "completes_within S q cb n (snd (submit S c w))"
    using assms unfolding answers_def by blast
  ultimately show ?thesis by (rule await_returns)
qed

text \<open>
  Each command of the device returns, sends exactly itself, and returns 0 when the driver
  accepted it.
\<close>

lemma spdk_io_law:
  assumes "answers S"
  shows "\<exists>rc w'. read_spdk (logged S) a off n q (w, cs) = Some (rc, (w', cs @ [NsRead q a off n]))"
    and "\<exists>rc w'. write_spdk (logged S) a off n q (w, cs) = Some (rc, (w', cs @ [NsWrite q a off n]))"
    and "\<exists>rc w'. readv_spdk (logged S) iov k off n q (w, cs) =
      Some (rc, (w', cs @ [NsReadv q (init_req stack_req iov k) off n]))"
    and "\<exists>rc w'. writev_spdk (logged S) iov k off n q (w, cs) =
      Some (rc, (w', cs @ [NsWritev q (init_req stack_req iov k) off n]))"
proof -
  have law: "fst (submit S c w) = 0 \<Longrightarrow> \<exists>w'. await (logged S) q cb False (snd (submit S c w), cs') = Some (w', cs')"
    if "awaited c = Some (q, cb)" for c cb cs'
    using answers_await [OF assms that, of w] await_logged [of S q cb False _ _ cs'] by blast
  show "\<exists>rc w'. read_spdk (logged S) a off n q (w, cs) = Some (rc, (w', cs @ [NsRead q a off n]))"
    using law [of "NsRead q a off n" IoComplete "cs @ [NsRead q a off n]"] by (auto simp: read_spdk_def)
  show "\<exists>rc w'. write_spdk (logged S) a off n q (w, cs) = Some (rc, (w', cs @ [NsWrite q a off n]))"
    using law [of "NsWrite q a off n" IoComplete "cs @ [NsWrite q a off n]"] by (auto simp: write_spdk_def)
  let ?r = "init_req stack_req iov k"
  have "is_completed ?r = False" by (simp add: init_req_def)
  then show "\<exists>rc w'. readv_spdk (logged S) iov k off n q (w, cs) = Some (rc, (w', cs @ [NsReadv q ?r off n]))"
      "\<exists>rc w'. writev_spdk (logged S) iov k off n q (w, cs) = Some (rc, (w', cs @ [NsWritev q ?r off n]))"
    using law [of "NsReadv q ?r off n" CbFn "cs @ [NsReadv q ?r off n]"]
      law [of "NsWritev q ?r off n" CbFn "cs @ [NsWritev q ?r off n]"]
    by (auto simp: readv_spdk_def writev_spdk_def Let_def)
qed

text \<open>Between its submission and its return a call only polls its queue.\<close>

inductive polled :: "'w driver \<Rightarrow> queue_type \<Rightarrow> 'w \<Rightarrow> 'w \<Rightarrow> bool" for S :: "'w driver" and q :: queue_type where
  polled_refl: "polled S q w w"
| polled_step: "poll S q w = (ds, w1) \<Longrightarrow> polled S q w1 w2 \<Longrightarrow> polled S q w w2"

lemma await_polled:
  assumes "await S q mine b w = Some w'"
  shows "polled S q w w'"
  using assms
proof (rule await.raw_induct [where P = "\<lambda>S q mine b w w'. polled S q w w'", rotated])
  fix f :: "'a driver \<Rightarrow> queue_type \<Rightarrow> callback \<Rightarrow> bool \<Rightarrow> 'a \<Rightarrow> 'a option"
    and S :: "'a driver" and q mine b w w'
  assume IH: "\<And>S q mine b w w'. f S q mine b w = Some w' \<Longrightarrow> polled S q w w'"
    and eq: "(if b then Some w else (let (ds, w') = poll S q w in f S q mine (fold (run_callback mine) ds b) w')) = Some w'"
  show "polled S q w w'"
    using eq IH by (auto split: if_splits prod.splits intro: polled_refl polled_step)
qed

lemma transfer_sends:
  assumes "answers S"
  shows "\<exists>w'. read_spdk (logged S) a off n q (w, cs) = Some (fst (submit S (NsRead q a off n) w), (w', cs @ [NsRead q a off n])) \<and>
      polled S q (snd (submit S (NsRead q a off n) w)) w'"
    and "\<exists>w'. write_spdk (logged S) a off n q (w, cs) = Some (fst (submit S (NsWrite q a off n) w), (w', cs @ [NsWrite q a off n])) \<and>
      polled S q (snd (submit S (NsWrite q a off n) w)) w'"
proof -
  have law: "\<exists>w'. (if fst (submit S c w) \<noteq> 0 then Some (fst (submit S c w), (snd (submit S c w), cs @ [c]))
      else do { w \<leftarrow> await (logged S) q IoComplete False (snd (submit S c w), cs @ [c]); Some (0, w) }) =
      Some (fst (submit S c w), (w', cs @ [c])) \<and> polled S q (snd (submit S c w)) w'"
    if c: "awaited c = Some (q, IoComplete)" for c
  proof (cases "fst (submit S c w) = 0")
    case True
    then obtain w' where w': "await S q IoComplete False (snd (submit S c w)) = Some w'"
      using answers_await [OF assms c] by blast
    then show ?thesis using await_logged [OF w', of "cs @ [c]"] await_polled [OF w'] True by simp
  qed (simp add: polled_refl)
  show "\<exists>w'. read_spdk (logged S) a off n q (w, cs) = Some (fst (submit S (NsRead q a off n) w), (w', cs @ [NsRead q a off n])) \<and>
      polled S q (snd (submit S (NsRead q a off n) w)) w'"
    using law [of "NsRead q a off n"] by (simp add: read_spdk_def)
  show "\<exists>w'. write_spdk (logged S) a off n q (w, cs) = Some (fst (submit S (NsWrite q a off n) w), (w', cs @ [NsWrite q a off n])) \<and>
      polled S q (snd (submit S (NsWrite q a off n) w)) w'"
    using law [of "NsWrite q a off n"] by (simp add: write_spdk_def)
qed

subsection \<open>The scatter list a driver sees\<close>

text \<open>The driver resets to an offset and asks for segments until the request is used up.\<close>

primrec sge_walk :: "nat \<Rightarrow> io_req \<Rightarrow> (addr \<times> u32) list option" where
  "sge_walk 0 req = Some []"
| "sge_walk (Suc n) req =
     (if iov_pos req = iov_cnt req then Some []
      else do {
        (rc, address, len, req) \<leftarrow> next_sge_fn req;
        rest \<leftarrow> sge_walk n req;
        Some ((address, len) # rest)
      })"

definition segment_bytes :: "addr \<times> u32 \<Rightarrow> addr list" where
  "segment_bytes s = map (\<lambda>k. fst s + of_nat k) [0..<unat (snd s)]"

definition iov_bytes :: "iovec list \<Rightarrow> addr list" where
  "iov_bytes vs = concat (map (\<lambda>v. map (\<lambda>k. iov_base v + of_nat k) [0..<unat (iov_len v)]) vs)"

lemma iov_bytes_simps [simp]:
  "iov_bytes [] = []"
  "iov_bytes (v # vs) = map (\<lambda>k. iov_base v + of_nat k) [0..<unat (iov_len v)] @ iov_bytes vs"
  by (simp_all add: iov_bytes_def)

text \<open>A request that stands at buffer \<open>vs ! 0\<close> of what is left, \<open>o'\<close> bytes into it.\<close>

definition stands_at :: "io_req \<Rightarrow> iovec list \<Rightarrow> u32 \<Rightarrow> bool" where
  "stands_at req vs o' \<longleftrightarrow> iov_cnt req = int (length (iovs req)) \<and> length (iovs req) < 2 ^ 31 \<and>
     (\<forall>v \<in> set (iovs req). iov_len v < 2 ^ 32) \<and> 0 \<le> iov_pos req \<and> nat (iov_pos req) \<le> length (iovs req) \<and>
     drop (nat (iov_pos req)) (iovs req) = vs \<and> iov_offset req = o'"

lemma unat_ucast_up [simp]: "unat (ucast (x :: u32) :: u64) = unat x"
  using unat_lt [of x] by (simp add: unsigned_ucast_eq take_bit_nat_eq_self_iff)

lemma unat_ucast_down: "x < 2 ^ 32 \<Longrightarrow> unat (ucast (x :: u64) :: u32) = unat x"
  by (simp add: unsigned_ucast_eq take_bit_nat_eq_self_iff word_less_nat_alt)


lemma stands_at_Cons:
  assumes "stands_at req (v # vs) o'"
  shows "iov_pos req < int (length (iovs req))" and "iov_pos req < iov_cnt req"
    and "iov_at req (iov_pos req) = Some v" and "v \<in> set (iovs req)" and "iov_len v < 2 ^ 32"
    and "stands_at (req\<lparr>iov_pos := iov_pos req + 1, iov_offset := o''\<rparr>) vs o''"
proof -
  let ?p = "nat (iov_pos req)"
  note st = assms [unfolded stands_at_def]
  have len: "?p < length (iovs req)"
    using st by (metis drop_all list.distinct(1) not_le)
  then have v: "iovs req ! ?p = v" and vs: "drop (Suc ?p) (iovs req) = vs"
    using st Cons_nth_drop_Suc [of ?p "iovs req"] by auto
  then show v': "v \<in> set (iovs req)" using len nth_mem by blast
  then show "iov_len v < 2 ^ 32" using st by blast
  show "iov_pos req < int (length (iovs req))" "iov_pos req < iov_cnt req"
    using st len by auto
  show "iov_at req (iov_pos req) = Some v"
    using st len v by (simp add: iov_at_def)
  have "nat (iov_pos req + 1) = Suc ?p" using st by (simp add: nat_add_distrib)
  with st len vs show "stands_at (req\<lparr>iov_pos := iov_pos req + 1, iov_offset := o''\<rparr>) vs o''"
    by (simp add: stands_at_def)
qed

lemma seek_law:
  assumes "stands_at req vs o'"
  shows "\<exists>req' vs' o''. seek_iov req = Some req' \<and> stands_at req' vs' o'' \<and>
    (vs' = [] \<or> unat o'' < unat (iov_len (hd vs'))) \<and>
    drop (unat o') (iov_bytes vs) = drop (unat o'') (iov_bytes vs')"
  using assms
proof (induction req arbitrary: vs o' rule: seek_iov.induct)
  case (1 req)
  note st = "1.prems" [unfolded stands_at_def]
  show ?case
  proof (cases vs)
    case Nil
    then have "\<not> iov_pos req < iov_cnt req" using st by auto
    then have "seek_iov req = Some req" by (subst seek_iov.simps) simp
    with "1.prems" Nil show ?thesis by blast
  next
    case (Cons v vs')
    note here = stands_at_Cons [OF "1.prems" [unfolded Cons]]
    show ?thesis
    proof (cases "ucast (iov_offset req) < iov_len v")
      case True
      then have "seek_iov req = Some req"
        using here(2,3) by (subst seek_iov.simps) simp
      with True "1.prems" Cons st show ?thesis
        by (intro exI [of _ req] exI [of _ vs] exI [of _ o']) (auto simp: word_less_nat_alt)
    next
      case False
      let ?o = "ucast (ucast (iov_offset req) - iov_len v) :: u32"
      let ?req = "req\<lparr>iov_offset := ?o, iov_pos := iov_pos req + 1\<rparr>"
      have le: "unat (iov_len v) \<le> unat o'"
        using False st by (simp add: word_less_nat_alt)
      have o: "unat ?o = unat o' - unat (iov_len v)"
      proof -
        have "unat (ucast o' - iov_len v) = unat o' - unat (iov_len v)"
          using le by (simp add: unat_sub word_le_nat_alt)
        moreover have "ucast o' - iov_len v < 2 ^ 32"
          using calculation unat_lt [of o'] by (simp add: word_less_nat_alt)
        ultimately show ?thesis using st by (simp add: unat_ucast_down)
      qed
      have "stands_at ?req vs' ?o"
        using here(6) [of ?o] by (simp add: stands_at_def)
      from "1.IH" [OF here(2,3) False this] obtain req' vs'' o'' where r: "seek_iov ?req = Some req'"
          "stands_at req' vs'' o''" "vs'' = [] \<or> unat o'' < unat (iov_len (hd vs''))"
          "drop (unat ?o) (iov_bytes vs') = drop (unat o'') (iov_bytes vs'')"
        by blast
      have "seek_iov req = Some req'"
        using here(2,3) False r(1) by (subst seek_iov.simps) simp
      moreover have "drop (unat o') (iov_bytes vs) = drop (unat ?o) (iov_bytes vs')"
        using Cons le o by simp
      ultimately show ?thesis using r by auto
    qed
  qed
qed

lemma sge_walk_law:
  assumes "stands_at req vs o'" and "length vs \<le> n" and "vs = [] \<or> o' = 0 \<or> unat o' < unat (iov_len (hd vs))"
  shows "\<exists>segs. sge_walk n req = Some segs \<and> concat (map segment_bytes segs) =
    (if vs = [] then [] else drop (unat o') (iov_bytes vs))"
  using assms
proof (induction n arbitrary: req vs o')
  case (Suc n)
  note st = Suc.prems(1) [unfolded stands_at_def]
  show ?case
  proof (cases vs)
    case Nil
    then show ?thesis using st by auto
  next
    case (Cons v vs')
    note here = stands_at_Cons [OF Suc.prems(1) [unfolded Cons]]
    let ?len = "ucast (iov_len v) - o' :: u32"
    let ?a = "iov_base v + ucast o'"
    let ?req = "req\<lparr>iov_pos := iov_pos req + 1, iov_offset := 0\<rparr>"
    have len: "unat (ucast (iov_len v) :: u32) = unat (iov_len v)"
      by (rule unat_ucast_down [OF here(5)])
    have same: "ucast (ucast (iov_len v) :: u32) = iov_len v"
      using len by (intro unsigned_word_eqI [where 'a = nat]) simp
    have le: "unat o' \<le> unat (iov_len v)"
      using Suc.prems(3) Cons by auto
    then have ulen: "unat ?len = unat (iov_len v) - unat o'"
      by (simp add: unat_sub word_le_nat_alt len)
    have sge: "next_sge_fn req = Some (0, ?a, ?len, ?req)"
      using here(1,3) st same by (auto simp: next_sge_fn_def Let_def algebra_simps)
    obtain segs where segs: "sge_walk n ?req = Some segs"
        "concat (map segment_bytes segs) = (if vs' = [] then [] else iov_bytes vs')"
      using Suc.IH [OF here(6) [of 0]] Suc.prems(2) Cons by auto
    have "segment_bytes (?a, ?len) = drop (unat o') (map (\<lambda>k. iov_base v + of_nat k) [0..<unat (iov_len v)])"
      by (rule nth_equalityI) (use ulen le in \<open>auto simp: segment_bytes_def add.assoc of_nat_unat\<close>)
    with segs sge here(2) Cons le show ?thesis by (auto simp: drop_append)
  qed
qed (auto simp: stands_at_def)

lemma seek_keeps: "seek_iov req = Some req' \<Longrightarrow> iovs req' = iovs req \<and> iov_cnt req' = iov_cnt req"
proof (induction req rule: seek_iov.induct)
  case (1 req)
  show ?case
  proof (cases "iov_pos req < iov_cnt req")
    case True
    note prem = "1.prems" [unfolded seek_iov.simps [of req]]
    from True prem obtain v where v: "iov_at req (iov_pos req) = Some v"
      by (cases "iov_at req (iov_pos req)") auto
    show ?thesis
      using prem True v "1.IH" [OF True v] by (cases "ucast (iov_offset req) < iov_len v") simp_all
  next
    case False
    with "1.prems" show ?thesis by (subst (asm) seek_iov.simps) simp
  qed
qed

subsection \<open>A device to apply the properties to\<close>

text \<open>It accepts every command and completes those of a queue pair in order, one with each poll.\<close>

definition fifo_device :: "(queue_type \<Rightarrow> callback list) driver" where
  "fifo_device = \<lparr>
     submit = (\<lambda>c w. (0, case awaited c of None \<Rightarrow> w | Some (q, cb) \<Rightarrow> w(q := w q @ [cb]))),
     poll = (\<lambda>q w. case w q of [] \<Rightarrow> ([], w) | cb # cbs \<Rightarrow> ([(cb, False)], w(q := cbs)))\<rparr>"

lemma fifo_completes: "w q = xs @ [cb] \<Longrightarrow> \<exists>n. completes_within fifo_device q cb n w"
proof (induction xs arbitrary: w)
  case Nil
  then have "completes_within fifo_device q cb (Suc 0) w" by (simp add: fifo_device_def)
  then show ?case by blast
next
  case (Cons x xs)
  have "(w(q := xs @ [cb])) q = xs @ [cb]" by simp
  then obtain n where "completes_within fifo_device q cb n (w(q := xs @ [cb]))"
    using Cons.IH by blast
  then have "completes_within fifo_device q cb (Suc n) w"
    using Cons.prems by (simp add: fifo_device_def)
  then show ?case by blast
qed

lemma fifo_answers: "answers fifo_device"
  unfolding answers_def
proof (intro allI impI)
  fix c q cb w
  assume "awaited c = Some (q, cb)"
  then have "snd (submit fifo_device c w) q = w q @ [cb]" by (simp add: fifo_device_def)
  then show "\<exists>n. completes_within fifo_device q cb n (snd (submit fifo_device c w))"
    by (rule fifo_completes)
qed

subsection \<open>Properties\<close>

lemma await_ends:
  assumes "await S q mine b w = Some w'" and "mine \<noteq> TrimComplete" and "\<not> b"
  shows "\<exists>n. completes_within S q mine n w"
  using assms
proof (rule await.raw_induct [where P = "\<lambda>S q mine b w w'. mine \<noteq> TrimComplete \<longrightarrow> \<not> b \<longrightarrow>
    (\<exists>n. completes_within S q mine n w)", THEN mp, THEN mp, rotated])
  fix f :: "'a driver \<Rightarrow> queue_type \<Rightarrow> callback \<Rightarrow> bool \<Rightarrow> 'a \<Rightarrow> 'a option"
    and S :: "'a driver" and q mine b w w'
  assume IH: "\<And>S q mine b w w'. f S q mine b w = Some w' \<Longrightarrow> mine \<noteq> TrimComplete \<longrightarrow> \<not> b \<longrightarrow>
      (\<exists>n. completes_within S q mine n w)"
    and eq: "(if b then Some w else (let (ds, w') = poll S q w in f S q mine (fold (run_callback mine) ds b) w')) = Some w'"
  show "mine \<noteq> TrimComplete \<longrightarrow> \<not> b \<longrightarrow> (\<exists>n. completes_within S q mine n w)"
  proof (intro impI)
    assume mine: "mine \<noteq> TrimComplete" and b: "\<not> b"
    obtain ds w1 where p: "poll S q w = (ds, w1)" by (cases "poll S q w")
    show "\<exists>n. completes_within S q mine n w"
    proof (cases "mine \<in> fst ` set ds")
      case True
      then have "completes_within S q mine (Suc 0) w" by (simp add: p)
      then show ?thesis by blast
    next
      case False
      then have "f S q mine False w1 = Some w'"
        using eq b p run_callbacks_set [OF mine, of ds b] by simp
      then obtain n where "completes_within S q mine n w1" using IH mine by blast
      then have "completes_within S q mine (Suc n) w" by (simp add: p)
      then show ?thesis by blast
    qed
  qed
qed

text \<open>What a command returns: the code of its submission, unless it waits for ever.\<close>

definition command_result :: "'w driver \<Rightarrow> io_cmd \<Rightarrow> 'w \<Rightarrow> int option" where
  "command_result S c w = (let (rc, w') = submit S c w in case awaited c of
     None \<Rightarrow> Some rc
   | Some (q, cb) \<Rightarrow> if rc = 0 \<and> (\<nexists>n. completes_within S q cb n w') then None else Some rc)"

lemma command_waits:
  assumes "awaited c = Some (q, cb)"
  shows "map_option fst (let (rc, w) = submit S c w in
      if rc \<noteq> 0 then Some (rc, w) else do { w \<leftarrow> await S q cb False w; Some (0, w) }) = command_result S c w"
proof -
  have cb: "cb \<noteq> TrimComplete" using assms by (cases c) auto
  obtain rc w1 where r: "submit S c w = (rc, w1)" by (cases "submit S c w")
  have "await S q cb False w1 = None \<longleftrightarrow> (\<nexists>n. completes_within S q cb n w1)"
    using await_returns [OF cb, of S q _ w1 False] await_ends [of S q cb False w1] cb by fastforce
  then show ?thesis
    using assms r by (cases "await S q cb False w1") (auto simp: command_result_def)
qed

text \<open>
  C31: the four transfers return exactly when the driver refuses the command or its completion
  arrives after finitely many polls, and what they return is the code of the submission: the
  status of the completion does not matter.
\<close>

theorem commands_return:
  "map_option fst (read_spdk S a off n q w) = command_result S (NsRead q a off n) w \<and>
   map_option fst (write_spdk S a off n q w) = command_result S (NsWrite q a off n) w \<and>
   map_option fst (readv_spdk S iov k off n q w) = command_result S (NsReadv q (init_req stack_req iov k) off n) w \<and>
   map_option fst (writev_spdk S iov k off n q w) = command_result S (NsWritev q (init_req stack_req iov k) off n) w"
proof -
  have flag: "is_completed (init_req stack_req iov k) = False" by (simp add: init_req_def)
  show ?thesis
    using command_waits [of "NsRead q a off n" q IoComplete S w] command_waits [of "NsWrite q a off n" q IoComplete S w]
      command_waits [of "NsReadv q (init_req stack_req iov k) off n" q CbFn S w]
      command_waits [of "NsWritev q (init_req stack_req iov k) off n" q CbFn S w]
    unfolding read_spdk_def write_spdk_def readv_spdk_def writev_spdk_def Let_def flag by (intro conjI) simp_all
qed

lemma scatter_law:
  assumes "length vs < 2 ^ 31" and "\<forall>v \<in> set vs. iov_len v < 2 ^ 32"
  shows "\<exists>req segs. reset_sgl_fn (init_req r vs (int (length vs))) off = Some req \<and>
    sge_walk (length vs) req = Some segs \<and>
    concat (map segment_bytes segs) = drop (unat off) (iov_bytes vs)"
proof -
  let ?req = "(init_req r vs (int (length vs)))\<lparr>iov_offset := off, iov_pos := 0\<rparr>"
  have "stands_at ?req vs off"
    using assms by (simp add: stands_at_def init_req_def)
  from seek_law [OF this] obtain req vs' o' where s: "seek_iov ?req = Some req" "stands_at req vs' o'"
      "vs' = [] \<or> unat o' < unat (iov_len (hd vs'))" "drop (unat off) (iov_bytes vs) = drop (unat o') (iov_bytes vs')"
    by blast
  have "iovs req = vs" using seek_keeps [OF s(1)] by (simp add: init_req_def)
  then have "length vs' \<le> length vs" using s(2) by (auto simp: stands_at_def)
  then obtain segs where "sge_walk (length vs) req = Some segs"
      "concat (map segment_bytes segs) = (if vs' = [] then [] else drop (unat o') (iov_bytes vs'))"
    using sge_walk_law [OF s(2)] s(3) by blast
  with s(1,4) show ?thesis by (auto simp: reset_sgl_fn_def)
qed

text \<open>
  C30: whatever offset the driver resets to, the segments it then collects with
  \<open>next_sge_fn\<close> are the bytes of the buffers from that offset on, in order, none twice and none left
  out, and it needs at most one segment per buffer.
\<close>

theorem scatter_list_covers:
  assumes "length vs < 2 ^ 31" and "\<forall>v \<in> set vs. iov_len v < 2 ^ 32"
  shows "\<exists>req segs. reset_sgl_fn (init_req r vs (int (length vs))) off = Some req \<and>
    sge_walk (length vs) req = Some segs \<and>
    concat (map segment_bytes segs) = drop (unat off) (iov_bytes vs)"
  by (rule scatter_law [OF assms])

theorem scatter_list_covers_witness:
  "\<exists>req segs. reset_sgl_fn (init_req stack_req [\<lparr>iov_base = 100, iov_len = 2\<rparr>, \<lparr>iov_base = 300, iov_len = 3\<rparr>] 2) 3 = Some req \<and>
    sge_walk 2 req = Some segs \<and> concat (map segment_bytes segs) = [301, 302]"
proof -
  let ?vs = "[\<lparr>iov_base = 100, iov_len = 2\<rparr>, \<lparr>iov_base = 300, iov_len = 3\<rparr>] :: iovec list"
  have "length ?vs < 2 ^ 31" "\<forall>v \<in> set ?vs. iov_len v < 2 ^ 32" by simp_all
  from scatter_list_covers [OF this, of stack_req 3]
  obtain req segs where r: "reset_sgl_fn (init_req stack_req ?vs (int (length ?vs))) 3 = Some req"
      "sge_walk (length ?vs) req = Some segs" "concat (map segment_bytes segs) = drop (unat (3 :: u32)) (iov_bytes ?vs)"
    by blast
  have len: "length ?vs = 2" and int: "int 2 = 2" by simp_all
  have "drop (unat (3 :: u32)) (iov_bytes ?vs) = [301, 302]" by (simp add: upt_rec)
  with r show ?thesis unfolding len int by metis
qed

end
