(* ===== verification/Migration.thy ===== *)
theory Migration
  imports Mapping_Spec Spdk
begin

text \<open>
  The migration worker of \<^verbatim>\<open>lib/ssd_cache_mapping.c\<close>: \<open>mg_start\<close> moves the data of one
  cache block, \<open>do_migration_work\<close> takes the oldest work and tries promotion, then demotion,
  then writeback. The I/O goes to the external world of \<open>Spdk\<close>.
\<close>

unbundle bit_operations_syntax

subsection \<open>Moving the data\<close>

definition mg_start :: "'w driver \<Rightarrow> mapping \<Rightarrow> addr \<Rightarrow> cstring option \<Rightarrow> u32 \<Rightarrow> u32 \<Rightarrow> mg_type \<Rightarrow> 'w \<Rightarrow>
    (bool \<times> 'w) option" where
  "mg_start S m dma_buf path cp cblock type w = (case type of
     PROMOTION \<Rightarrow>
       (let (fd, w) = submit S (OpenFile path O_RDONLY) w
        in if fd < 0 then Some (False, w)
           else (let (rc, w) = submit S (Pread fd dma_buf CACHE_BLOCK_SIZE (ucast (push_bit CBLOCK_SHIFT cp))) w
             in if rc < 0 then Some (False, w)
                else (let (_, w) = submit S (CloseFile fd) w in do {
                  off \<leftarrow> shl_u32 cblock (block_per_cblock_shift m);
                  n \<leftarrow> shl_int 1 (block_per_cblock_shift m);
                  (rc, w) \<leftarrow> write_spdk S dma_buf (ucast off) (of_int n) MG_QUEUE w;
                  Some (rc = 0, w)
                })))
   | DEMOTION \<Rightarrow> do {
       off \<leftarrow> shl_u32 cp (block_per_cblock_shift m);
       n \<leftarrow> shl_int 1 (block_per_cblock_shift m);
       (_, w) \<leftarrow> Some (trim_spdk S (ucast off) (of_int n) MG_QUEUE w);
       Some (True, w)
     }
   | WRITEBACK \<Rightarrow> do {
       off \<leftarrow> shl_u32 cblock (block_per_cblock_shift m);
       n \<leftarrow> shl_int 1 (block_per_cblock_shift m);
       (rc, w) \<leftarrow> read_spdk S dma_buf (ucast off) (of_int n) MG_QUEUE w;
       if rc \<noteq> 0 then Some (False, w)
       else (let (fd, w) = submit S (OpenFile path O_WRONLY) w
         in if fd < 0 then Some (False, w)
            else (let (rc, w) = submit S (Pwrite fd dma_buf CACHE_BLOCK_SIZE (ucast (push_bit CBLOCK_SHIFT cp))) w
              in if rc < 0 then Some (False, w)
                 else (let (_, w) = submit S (CloseFile fd) w in Some (True, w))))
     })"

text \<open>
  The body of \<open>do_migration_work\<close> once it has a work: whichever move is possible, from start to
  completion. The locals that the start of a move fills are not read before.
\<close>

definition round_move :: "'w driver \<Rightarrow> mapping \<Rightarrow> addr \<Rightarrow> cstring \<Rightarrow> u32 \<Rightarrow> 'w \<Rightarrow> (mapping \<times> 'w) option" where
  "round_move S m dma_buf path cp w = do {
     (promoting, cblock, m) \<leftarrow> promotion_free_to_clean m path cp 0;
     if promoting
     then do {
       (success, w) \<leftarrow> mg_start S m dma_buf (Some path) cp cblock PROMOTION w;
       m \<leftarrow> promotion_complete m cblock success;
       Some (m, w)
     }
     else do {
       (demoting, cblock, m) \<leftarrow> demotion_clean_to_free m cblock;
       if demoting
       then do {
         (success, w) \<leftarrow> mg_start S m 0 None 0 cblock DEMOTION w;
         m \<leftarrow> demotion_complete m cblock success;
         Some (m, w)
       }
       else do {
         (writing, cblock, m) \<leftarrow> writeback_dirty_to_clean m cblock;
         if writing
         then do {
           e \<leftarrow> to_entry (m_es m) cblock;
           x \<leftarrow> deref (m_es m) e;
           (success, w) \<leftarrow> mg_start S m dma_buf (Some (full_path_name x)) (cache_page_index x)
             cblock WRITEBACK w;
           m \<leftarrow> writeback_complete m cblock success;
           Some (m, w)
         }
         else Some (m, w)
       }
     }
   }"

text \<open>The path buffer of \<open>do_migration_work\<close> has \<open>MAX_PATH_SIZE\<close> bytes.\<close>

definition do_migration_work :: "'w driver \<Rightarrow> mapping \<Rightarrow> addr \<Rightarrow> 'w \<Rightarrow> (bool \<times> mapping \<times> 'w) option" where
  "do_migration_work S m dma_buf w = do {
     (found, path, cp, q) \<leftarrow> peak_work (m_wq m) MAX_PATH_SIZE [] 0;
     m \<leftarrow> Some (m\<lparr>m_wq := q\<rparr>);
     if \<not> found then Some (False, m, w)
     else do {
       (m, w) \<leftarrow> round_move S m dma_buf path cp w;
       (removed, q) \<leftarrow> remove_work (m_wq m);
       Some (True, m\<lparr>m_wq := q\<rparr>, w)
     }
   }"

subsection \<open>What a move sends\<close>

text \<open>Block geometry: a cache block is \<open>2 ^ s\<close> device blocks and all of them can be addressed.\<close>

definition geometry_ok :: "mapping \<Rightarrow> bool" where
  "geometry_ok m \<longleftrightarrow> block_per_cblock_shift m \<le> 15"

lemma geometry_shl:
  assumes "geometry_ok m"
  shows "shl_u32 x (block_per_cblock_shift m) = Some (push_bit (unat (block_per_cblock_shift m)) x)"
    and "shl_int 1 (block_per_cblock_shift m) = Some (2 ^ unat (block_per_cblock_shift m))"
proof -
  have s: "unat (block_per_cblock_shift m) \<le> 15"
    using assms by (simp add: geometry_ok_def word_le_nat_alt)
  then have "block_per_cblock_shift m < 32" by (simp add: word_less_nat_alt)
  moreover have "(2 :: int) ^ unat (block_per_cblock_shift m) \<le> 2 ^ 15"
    using s by (intro power_increasing) auto
  ultimately show "shl_u32 x (block_per_cblock_shift m) = Some (push_bit (unat (block_per_cblock_shift m)) x)"
    "shl_int 1 (block_per_cblock_shift m) = Some (2 ^ unat (block_per_cblock_shift m))"
    by (simp_all add: shl_u32_def shl_int_def)
qed

text \<open>The first device block of a cache block, and the number of them.\<close>

definition cblock_lba :: "mapping \<Rightarrow> u32 \<Rightarrow> u64" where
  "cblock_lba m x = ucast (push_bit (unat (block_per_cblock_shift m)) x)"

definition cblock_len :: "mapping \<Rightarrow> u32" where
  "cblock_len m = of_int (2 ^ unat (block_per_cblock_shift m))"

text \<open>The byte offset in the file that a move reads or writes: 32 bit arithmetic, then widened.\<close>

definition file_offset :: "u32 \<Rightarrow> u64" where
  "file_offset cp = ucast (push_bit CBLOCK_SHIFT cp)"

lemma mg_start_eq:
  assumes "geometry_ok m"
  shows "mg_start S m dma path cp x PROMOTION w =
      (let (fd, w) = submit S (OpenFile path O_RDONLY) w
       in if fd < 0 then Some (False, w)
          else (let (rc, w) = submit S (Pread fd dma CACHE_BLOCK_SIZE (file_offset cp)) w
            in if rc < 0 then Some (False, w)
               else (let (_, w) = submit S (CloseFile fd) w in do {
                 (rc, w) \<leftarrow> write_spdk S dma (cblock_lba m x) (cblock_len m) MG_QUEUE w;
                 Some (rc = 0, w)
               })))"
    and "mg_start S m dma path cp x DEMOTION w =
      Some (True, snd (trim_spdk S (cblock_lba m cp) (cblock_len m) MG_QUEUE w))"
    and "mg_start S m dma path cp x WRITEBACK w = do {
       (rc, w) \<leftarrow> read_spdk S dma (cblock_lba m x) (cblock_len m) MG_QUEUE w;
       if rc \<noteq> 0 then Some (False, w)
       else (let (fd, w) = submit S (OpenFile path O_WRONLY) w
         in if fd < 0 then Some (False, w)
            else (let (rc, w) = submit S (Pwrite fd dma CACHE_BLOCK_SIZE (file_offset cp)) w
              in if rc < 0 then Some (False, w)
                 else (let (_, w) = submit S (CloseFile fd) w in Some (True, w))))
     }"
  unfolding file_offset_def
  by (simp_all add: mg_start_def geometry_shl [OF assms] cblock_lba_def cblock_len_def split: prod.splits)

text \<open>
  The commands of a move, in order. They are sent one after the other until the code takes an
  answer for a failure; \<open>sends S script w sent ok w'\<close> says that from the world \<open>w\<close> this sends the
  commands \<open>sent\<close> and ends in \<open>w'\<close>, and \<open>ok\<close> that none failed.
\<close>

fun failed :: "io_cmd \<Rightarrow> int \<Rightarrow> bool" where
  "failed (OpenFile path mode) rc \<longleftrightarrow> rc < 0"
| "failed (Pread fd a n off) rc \<longleftrightarrow> rc < 0"
| "failed (Pwrite fd a n off) rc \<longleftrightarrow> rc < 0"
| "failed (NsRead q a off n) rc \<longleftrightarrow> rc \<noteq> 0"
| "failed (NsWrite q a off n) rc \<longleftrightarrow> rc \<noteq> 0"
| "failed c rc \<longleftrightarrow> False"

inductive sends :: "'w driver \<Rightarrow> io_cmd list \<Rightarrow> 'w \<Rightarrow> io_cmd list \<Rightarrow> bool \<Rightarrow> 'w \<Rightarrow> bool" for S :: "'w driver" where
  all_sent: "sends S [] w [] True w"
| accepted: "submit S c w = (rc, w1) \<Longrightarrow> \<not> failed c rc \<Longrightarrow> polled S MG_QUEUE w1 w2 \<Longrightarrow>
    sends S script w2 sent ok w3 \<Longrightarrow> sends S (c # script) w (c # sent) ok w3"
| refused: "submit S c w = (rc, w1) \<Longrightarrow> failed c rc \<Longrightarrow> sends S (c # script) w [c] False w1"

lemma sends_prefix: "sends S script w sent ok w' \<Longrightarrow> (\<exists>rest. script = sent @ rest) \<and> (ok \<longrightarrow> sent = script)"
  by (induction rule: sends.induct) auto

text \<open>The same, command by command.\<close>

lemma sends_next: "\<not> failed c (fst (submit S c w)) \<Longrightarrow> sends S script (snd (submit S c w)) sent ok w' \<Longrightarrow>
    sends S (c # script) w (c # sent) ok w'"
  by (rule accepted [where rc = "fst (submit S c w)"]) (auto intro: polled_refl)

lemma sends_transfer: "\<not> failed c (fst (submit S c w)) \<Longrightarrow> polled S MG_QUEUE (snd (submit S c w)) w2 \<Longrightarrow>
    sends S script w2 sent ok w' \<Longrightarrow> sends S (c # script) w (c # sent) ok w'"
  by (rule accepted [where rc = "fst (submit S c w)"]) auto

lemma sends_stop: "failed c (fst (submit S c w)) \<Longrightarrow> sends S (c # script) w [c] False (snd (submit S c w))"
  by (rule refused [where rc = "fst (submit S c w)"]) auto

definition promotion_script :: "mapping \<Rightarrow> addr \<Rightarrow> cstring option \<Rightarrow> u32 \<Rightarrow> u32 \<Rightarrow> int \<Rightarrow> io_cmd list" where
  "promotion_script m dma path cp x fd =
     [OpenFile path O_RDONLY, Pread fd dma CACHE_BLOCK_SIZE (file_offset cp), CloseFile fd,
      NsWrite MG_QUEUE dma (cblock_lba m x) (cblock_len m)]"

definition writeback_script :: "mapping \<Rightarrow> addr \<Rightarrow> cstring option \<Rightarrow> u32 \<Rightarrow> u32 \<Rightarrow> int \<Rightarrow> io_cmd list" where
  "writeback_script m dma path cp x fd =
     [NsRead MG_QUEUE dma (cblock_lba m x) (cblock_len m), OpenFile path O_WRONLY,
      Pwrite fd dma CACHE_BLOCK_SIZE (file_offset cp), CloseFile fd]"

lemma promotion_sends:
  assumes "answers S" and "geometry_ok m"
  shows "\<exists>ok w' sent fd. mg_start (logged S) m dma path cp x PROMOTION (w, cs) = Some (ok, (w', cs @ sent)) \<and>
    sends S (promotion_script m dma path cp x fd) w sent ok w'"
proof -
  let ?open = "OpenFile path O_RDONLY" and ?save = "NsWrite MG_QUEUE dma (cblock_lba m x) (cblock_len m)"
  define fd w1 where "fd = fst (submit S ?open w)" and "w1 = snd (submit S ?open w)"
  let ?load = "Pread fd dma CACHE_BLOCK_SIZE (file_offset cp)"
  define rc w2 where "rc = fst (submit S ?load w1)" and "w2 = snd (submit S ?load w1)"
  define w3 where "w3 = snd (submit S (CloseFile fd) w2)"
  note defs = mg_start_eq [OF assms(2)] promotion_script_def fd_def rc_def w1_def w2_def w3_def
  consider "fd < 0" | "fd \<ge> 0" "rc < 0" | "fd \<ge> 0" "rc \<ge> 0" by linarith
  then show ?thesis
  proof cases
    case 1
    then have "mg_start (logged S) m dma path cp x PROMOTION (w, cs) = Some (False, (w1, cs @ [?open]))"
      by (simp add: defs)
    moreover have "sends S (promotion_script m dma path cp x fd) w [?open] False w1"
      unfolding promotion_script_def w1_def by (rule sends_stop) (use 1 in \<open>simp add: fd_def\<close>)
    ultimately show ?thesis by blast
  next
    case 2
    then have "mg_start (logged S) m dma path cp x PROMOTION (w, cs) = Some (False, (w2, cs @ [?open, ?load]))"
      by (simp add: defs)
    moreover have "sends S (promotion_script m dma path cp x fd) w [?open, ?load] False w2"
      unfolding promotion_script_def w2_def w1_def
      by (intro sends_next sends_stop) (use 2 in \<open>simp_all add: fd_def rc_def w1_def\<close>)
    ultimately show ?thesis by blast
  next
    case 3
    obtain w' where w': "write_spdk (logged S) dma (cblock_lba m x) (cblock_len m) MG_QUEUE
        (w3, ((cs @ [?open]) @ [?load]) @ [CloseFile fd]) =
        Some (fst (submit S ?save w3), (w', (((cs @ [?open]) @ [?load]) @ [CloseFile fd]) @ [?save]))"
        "polled S MG_QUEUE (snd (submit S ?save w3)) w'"
      using transfer_sends(2) [OF assms(1)] by blast
    have step: "mg_start (logged S) m dma path cp x PROMOTION (w, cs) =
        Some (fst (submit S ?save w3) = 0, (w', cs @ promotion_script m dma path cp x fd))"
      using 3 w'(1) by (simp add: defs)
    have pre: "sends S (promotion_script m dma path cp x fd) w (promotion_script m dma path cp x fd) ok w''"
      if "sends S [?save] w3 [?save] ok w''" for ok w''
      unfolding promotion_script_def
      by (rule sends_next [OF _ sends_next [OF _ sends_next [OF _ that [unfolded w3_def w2_def w1_def]]]])
        (use 3 in \<open>simp_all add: fd_def rc_def w1_def\<close>)
    show ?thesis
    proof (cases "fst (submit S ?save w3) = 0")
      case True
      have "sends S [?save] w3 [?save] True w'"
        by (rule sends_transfer [OF _ w'(2) all_sent]) (simp add: True)
      from pre [OF this] step True show ?thesis by auto
    next
      case False
      then have "write_spdk (logged S) dma (cblock_lba m x) (cblock_len m) MG_QUEUE
          (w3, ((cs @ [?open]) @ [?load]) @ [CloseFile fd]) =
          Some (fst (submit S ?save w3), (snd (submit S ?save w3), (((cs @ [?open]) @ [?load]) @ [CloseFile fd]) @ [?save]))"
        by (simp add: write_spdk_def)
      then have "w' = snd (submit S ?save w3)" using w'(1) by simp
      moreover have "sends S [?save] w3 [?save] False (snd (submit S ?save w3))"
        by (rule sends_stop) (simp add: False)
      ultimately show ?thesis using pre step False by auto
    qed
  qed
qed

lemma demotion_sends:
  assumes "geometry_ok m"
  shows "\<exists>w'. mg_start (logged S) m dma path cp x DEMOTION (w, cs) =
      Some (True, (w', cs @ [NsDeallocate MG_QUEUE (cblock_lba m cp) (cblock_len m)])) \<and>
    sends S [NsDeallocate MG_QUEUE (cblock_lba m cp) (cblock_len m)] w
      [NsDeallocate MG_QUEUE (cblock_lba m cp) (cblock_len m)] True w'"
  by (auto simp: mg_start_eq [OF assms] trim_spdk_def intro: sends_next all_sent)

lemma writeback_sends:
  assumes "answers S" and "geometry_ok m"
  shows "\<exists>ok w' sent fd. mg_start (logged S) m dma path cp x WRITEBACK (w, cs) = Some (ok, (w', cs @ sent)) \<and>
    sends S (writeback_script m dma path cp x fd) w sent ok w'"
proof -
  let ?load = "NsRead MG_QUEUE dma (cblock_lba m x) (cblock_len m)" and ?open = "OpenFile path O_WRONLY"
  obtain w1 where r: "read_spdk (logged S) dma (cblock_lba m x) (cblock_len m) MG_QUEUE (w, cs) =
      Some (fst (submit S ?load w), (w1, cs @ [?load]))" "polled S MG_QUEUE (snd (submit S ?load w)) w1"
    using transfer_sends(1) [OF assms(1)] by blast
  define fd w2 where "fd = fst (submit S ?open w1)" and "w2 = snd (submit S ?open w1)"
  let ?save = "Pwrite fd dma CACHE_BLOCK_SIZE (file_offset cp)"
  define rc w3 where "rc = fst (submit S (?save) w2)" and "w3 = snd (submit S (?save) w2)"
  define w4 where "w4 = snd (submit S (CloseFile fd) w3)"
  note defs = mg_start_eq [OF assms(2)] fd_def rc_def w2_def w3_def w4_def
  let ?p = "writeback_script m dma path cp x fd"
  have pre: "sends S ?p w (?load # sent) ok w'"
    if "fst (submit S ?load w) = 0" "sends S [?open, ?save, CloseFile fd] w1 sent ok w'" for sent ok w'
    unfolding writeback_script_def by (rule sends_transfer [OF _ r(2) that(2)]) (simp add: that(1))
  consider "fst (submit S ?load w) \<noteq> 0" | "fst (submit S ?load w) = 0" "fd < 0"
    | "fst (submit S ?load w) = 0" "fd \<ge> 0" "rc < 0" | "fst (submit S ?load w) = 0" "fd \<ge> 0" "rc \<ge> 0" by linarith
  then show ?thesis
  proof cases
    case 1
    then have "read_spdk (logged S) dma (cblock_lba m x) (cblock_len m) MG_QUEUE (w, cs) =
        Some (fst (submit S ?load w), (snd (submit S ?load w), cs @ [?load]))" by (simp add: read_spdk_def)
    with 1 have "mg_start (logged S) m dma path cp x WRITEBACK (w, cs) = Some (False, (snd (submit S ?load w), cs @ [?load]))"
      by (simp add: defs)
    moreover have "sends S ?p w [?load] False (snd (submit S ?load w))"
      unfolding writeback_script_def by (rule sends_stop) (simp add: 1)
    ultimately show ?thesis by blast
  next
    case 2
    then have "mg_start (logged S) m dma path cp x WRITEBACK (w, cs) = Some (False, (w2, cs @ [?load, ?open]))"
      using r(1) by (simp add: defs)
    moreover have "sends S [?open, ?save, CloseFile fd] w1 [?open] False w2"
      unfolding w2_def by (rule sends_stop) (use 2 in \<open>simp add: fd_def\<close>)
    ultimately show ?thesis using pre [OF 2(1)] by blast
  next
    case 3
    then have "mg_start (logged S) m dma path cp x WRITEBACK (w, cs) = Some (False, (w3, cs @ [?load, ?open, ?save]))"
      using r(1) by (simp add: defs)
    moreover have "sends S [?open, ?save, CloseFile fd] w1 [?open, ?save] False w3"
      unfolding w3_def w2_def by (intro sends_next sends_stop) (use 3 in \<open>simp_all add: fd_def rc_def w2_def\<close>)
    ultimately show ?thesis using pre [OF 3(1)] by blast
  next
    case 4
    then have "mg_start (logged S) m dma path cp x WRITEBACK (w, cs) =
        Some (True, (w4, cs @ [?load, ?open, ?save, CloseFile fd]))"
      using r(1) by (simp add: defs)
    moreover have "sends S [?open, ?save, CloseFile fd] w1 [?open, ?save, CloseFile fd] True w4"
      unfolding w4_def w3_def w2_def
      by (intro sends_next all_sent) (use 4 in \<open>simp_all add: fd_def rc_def w2_def w3_def\<close>)
    ultimately show ?thesis using pre [OF 4(1)] by blast
  qed
qed


subsection \<open>One round of the worker\<close>

definition key_of :: "work \<Rightarrow> key" where
  "key_of w = (work_path w, work_index w)"

text \<open>\<open>success\<close> is the outcome of the I/O; a demotion ignores it.\<close>

definition a_move :: "key \<Rightarrow> bool \<Rightarrow> cache_view \<Rightarrow> cache_view" where
  "a_move k success v = (case a_promote_start k v of
     Some (x, v1) \<Rightarrow> a_promote_end x success v1
   | None \<Rightarrow> (case a_demote_start v of
       Some (x, v1) \<Rightarrow> a_demote_end x True v1
     | None \<Rightarrow> (case a_writeback_start v of
         Some (x, v1) \<Rightarrow> a_writeback_end x success v1
       | None \<Rightarrow> v)))"

definition a_migrate :: "bool \<Rightarrow> cache_view \<Rightarrow> bool \<times> cache_view" where
  "a_migrate success v = (case v_work v of
     [] \<Rightarrow> (False, v)
   | w # ws \<Rightarrow> (True, (a_move (key_of w) success v)\<lparr>v_work := ws\<rparr>))"

text \<open>
  What a round sends, by the move it makes: \<open>ok\<close> is the outcome of the move, and without a move
  nothing is sent.
\<close>

definition move_sends :: "'w driver \<Rightarrow> key \<Rightarrow> addr \<Rightarrow> mapping \<Rightarrow> 'w \<Rightarrow> io_cmd list \<Rightarrow> bool \<Rightarrow> 'w \<Rightarrow> bool" where
  "move_sends S k dma m w sent ok w' \<longleftrightarrow> (case a_promote_start k (view_of m) of
     Some (x, v) \<Rightarrow> \<exists>fd. sends S (promotion_script m dma (Some (fst k)) (snd k) x fd) w sent ok w'
   | None \<Rightarrow> (case a_demote_start (view_of m) of
       Some (x, v) \<Rightarrow> sends S [NsDeallocate MG_QUEUE 0 (cblock_len m)] w sent ok w'
     | None \<Rightarrow> (case a_writeback_start (view_of m) of
         Some (x, v) \<Rightarrow> \<exists>fd. sends S (writeback_script m dma
           (map_option fst (v_key (view_of m) x)) (snd (the (v_key (view_of m) x))) x fd) w sent ok w'
       | None \<Rightarrow> sends S [] w sent ok w')))"

lemma view_shift: "block_per_cblock_shift m = v_shift (view_of m)"
  by (simp add: view_of_def)

lemma cblock_view_cong:
  assumes "v_shift (view_of m') = v_shift (view_of m)"
  shows "geometry_ok m' = geometry_ok m" and "cblock_lba m' = cblock_lba m"
    and "cblock_len m' = cblock_len m"
  using assms by (simp_all add: geometry_ok_def cblock_lba_def cblock_len_def view_shift fun_eq_iff)

lemma cblock_lba_0 [simp]: "cblock_lba m 0 = 0"
  by (simp add: cblock_lba_def)

lemma a_start_simps:
  "a_promote_start k v = Some (x, v1) \<Longrightarrow> v_shift v1 = v_shift v \<and> v_work v1 = v_work v \<and> v_key v1 x = Some k \<and>
     v_map v1 = v_map v"
  "a_demote_start v = Some (x, v1) \<Longrightarrow> v_shift v1 = v_shift v \<and> v_work v1 = v_work v"
  "a_writeback_start v = Some (x, v1) \<Longrightarrow> v_shift v1 = v_shift v \<and> v_work v1 = v_work v \<and> v_key v1 = v_key v"
  by (auto simp: a_promote_start_def a_demote_start_def a_writeback_start_def split: list.splits if_splits)

lemma a_end_simps [simp]:
  "v_work (a_promote_end x ok v) = v_work v" "v_work (a_demote_end x ok v) = v_work v"
  "v_work (a_writeback_end x ok v) = v_work v"
  "v_shift (a_promote_end x ok v) = v_shift v" "v_shift (a_demote_end x ok v) = v_shift v"
  "v_shift (a_writeback_end x ok v) = v_shift v"
  by (simp_all add: a_promote_end_def a_demote_end_def a_writeback_end_def a_settle_def enqueue_def a_drop_def)

text \<open>
  A round that promotes, demotes or writes back: the move of the data, then the completion,
  which always succeeds.
\<close>

definition move_then :: "('w \<Rightarrow> (bool \<times> 'w) option) \<Rightarrow> (bool \<Rightarrow> mapping option) \<Rightarrow> 'w \<Rightarrow> (mapping \<times> 'w) option" where
  "move_then io complete w = do { (ok, w) \<leftarrow> io w; m \<leftarrow> complete ok; Some (m, w) }"

definition completes :: "(bool \<Rightarrow> mapping option) \<Rightarrow> (bool \<Rightarrow> cache_view) \<Rightarrow> bool" where
  "completes f g \<longleftrightarrow> (\<forall>ok. \<exists>m. f ok = Some m \<and> map_inv {} m \<and> view_of m = g ok)"

lemma move_then_returns:
  assumes "r = move_then io f w" and "completes f g" and "io w = Some (ok, w')" and "v' = g ok"
  shows "\<exists>m. r = Some (m, w') \<and> map_inv {} m \<and> view_of m = v'"
proof -
  obtain m where "f ok = Some m" "map_inv {} m" "view_of m = g ok"
    using assms(2) unfolding completes_def by blast
  then show ?thesis using assms(1,3,4) by (simp add: move_then_def)
qed

lemma move_then_inv:
  assumes "move_then io f w = Some (m, w')" and "completes f g"
  shows "\<exists>ok. io w = Some (ok, w') \<and> view_of m = g ok"
proof -
  obtain ok w1 where io: "io w = Some (ok, w1)"
    using assms(1) by (cases "io w") (auto simp: move_then_def)
  obtain m1 where m1: "f ok = Some m1" "view_of m1 = g ok"
    using assms(2) unfolding completes_def by blast
  then show ?thesis using assms(1) io by (simp add: move_then_def)
qed

lemma round_promotes:
  assumes "map_inv {} m" and "length (fst k) \<le> MAX_PATH_SIZE" and "v_map (view_of m) k = None"
    and "a_promote_start k (view_of m) = Some (x, v1)"
  shows "\<exists>m1. view_of m1 = v1 \<and> completes (promotion_complete m1 x) (\<lambda>ok. a_promote_end x ok v1) \<and>
    round_move S m dma (fst k) (snd k) w =
      move_then (mg_start S m1 dma (Some (fst k)) (snd k) x PROMOTION) (promotion_complete m1 x) w"
proof -
  obtain m1 where m1: "promotion_free_to_clean m (fst k) (snd k) 0 = Some (True, x, m1)"
      "map_inv {x} m1" "view_of m1 = v1"
    using promotion_start_law [OF assms(1,2), of "snd k" 0] assms(4) by auto
  have free: "v_map (view_of m1) (the (v_key (view_of m1) x)) = None"
    using a_start_simps(1) [OF assms(4)] m1(3) assms(3) by simp
  have "completes (promotion_complete m1 x) (\<lambda>ok. a_promote_end x ok v1)"
    unfolding completes_def
  proof
    fix ok
    show "\<exists>m. promotion_complete m1 x ok = Some m \<and> map_inv {} m \<and> view_of m = a_promote_end x ok v1"
      using promotion_complete_law [OF m1(2) _ free, of ok] m1(3) by auto
  qed
  moreover have "round_move S m dma (fst k) (snd k) w =
      move_then (mg_start S m1 dma (Some (fst k)) (snd k) x PROMOTION) (promotion_complete m1 x) w"
    by (simp add: round_move_def m1(1) move_then_def)
  ultimately show ?thesis using m1(3) by blast
qed

lemma round_demotes:
  assumes "map_inv {} m" and "length (fst k) \<le> MAX_PATH_SIZE" and "a_promote_start k (view_of m) = None"
    and "a_demote_start (view_of m) = Some (x, v1)"
  shows "\<exists>m1. view_of m1 = v1 \<and> completes (demotion_complete m1 x) (\<lambda>ok. a_demote_end x ok v1) \<and>
    round_move S m dma (fst k) (snd k) w =
      move_then (mg_start S m1 0 None 0 x DEMOTION) (demotion_complete m1 x) w"
proof -
  have p: "promotion_free_to_clean m (fst k) (snd k) 0 = Some (False, 0, m)"
    using promotion_start_law [OF assms(1,2), of "snd k" 0] assms(3) by simp
  obtain m1 where m1: "demotion_clean_to_free m 0 = Some (True, x, m1)"
      "map_inv {} m1" "view_of m1 = v1" "in_flight x m1"
    using demotion_start_law [OF assms(1), of 0] assms(4) by auto
  have "completes (demotion_complete m1 x) (\<lambda>ok. a_demote_end x ok v1)"
    using demotion_complete_law [OF m1(2,4)] m1(3) by (auto simp: completes_def)
  moreover have "round_move S m dma (fst k) (snd k) w =
      move_then (mg_start S m1 0 None 0 x DEMOTION) (demotion_complete m1 x) w"
    by (simp add: round_move_def p m1(1) move_then_def)
  ultimately show ?thesis using m1(3) by blast
qed

lemma round_writes_back:
  assumes "map_inv {} m" and "length (fst k) \<le> MAX_PATH_SIZE" and "a_promote_start k (view_of m) = None"
    and "a_demote_start (view_of m) = None" and "a_writeback_start (view_of m) = Some (x, v1)"
  shows "\<exists>m1 k'. view_of m1 = v1 \<and> v_key (view_of m) x = Some k' \<and> x < CACHE_BLOCK_NUMBER \<and>
    completes (writeback_complete m1 x) (\<lambda>ok. a_writeback_end x ok v1) \<and>
    round_move S m dma (fst k) (snd k) w =
      move_then (mg_start S m1 dma (Some (fst k')) (snd k') x WRITEBACK) (writeback_complete m1 x) w"
proof -
  have no: "promotion_free_to_clean m (fst k) (snd k) 0 = Some (False, 0, m)"
      "demotion_clean_to_free m 0 = Some (False, 0, m)"
    using promotion_start_law [OF assms(1,2), of "snd k" 0] demotion_start_law [OF assms(1), of 0] assms(3,4)
    by simp_all
  obtain m1 where m1: "writeback_dirty_to_clean m 0 = Some (True, x, m1)"
      "map_inv {} m1" "view_of m1 = v1" "in_flight x m1"
    using writeback_start_law [OF assms(1), of 0] assms(5) by auto
  obtain F C D T where inv1: "minv m1 F C D T {}" using m1(2) by (auto elim: map_invE)
  have xT: "x \<in> T" using in_flight_iff [OF inv1] m1(4) by blast
  have x: "x < CACHE_BLOCK_NUMBER" using mcore_bound [OF minv_core(1) [OF inv1]] xT by blast
  let ?k = "(full_path_name (ent m1 x), cache_page_index (ent m1 x))"
  have key: "v_key (view_of m) x = Some ?k"
    using in_flight_key [OF inv1 xT] a_start_simps(3) [OF assms(5)] m1(3) by (simp add: mkey_def ekey_def)
  have "completes (writeback_complete m1 x) (\<lambda>ok. a_writeback_end x ok v1)"
    using writeback_complete_law [OF m1(2,4)] m1(3) by (auto simp: completes_def)
  moreover have "round_move S m dma (fst k) (snd k) w =
      move_then (mg_start S m1 dma (Some (fst ?k)) (snd ?k) x WRITEBACK) (writeback_complete m1 x) w"
    using x by (simp add: round_move_def no m1(1) ent_def move_then_def)
  ultimately show ?thesis using key x m1(3) by blast
qed

lemma round_idle:
  assumes "map_inv {} m" and "length (fst k) \<le> MAX_PATH_SIZE" and "a_promote_start k (view_of m) = None"
    and "a_demote_start (view_of m) = None" and "a_writeback_start (view_of m) = None"
  shows "round_move S m dma (fst k) (snd k) w = Some (m, w)"
  using promotion_start_law [OF assms(1,2), of "snd k" 0] demotion_start_law [OF assms(1), of 0]
    writeback_start_law [OF assms(1), of 0] assms(3-5)
  by (simp add: round_move_def)

lemma round_move_law:
  assumes "answers S" and "map_inv {} m" and "geometry_ok m" and "length (fst k) \<le> MAX_PATH_SIZE"
    and "v_map (view_of m) k = None"
  shows "\<exists>ok m' w' cs'. round_move (logged S) m dma (fst k) (snd k) (w, cs) = Some (m', (w', cs @ cs')) \<and>
    map_inv {} m' \<and> view_of m' = a_move k ok (view_of m) \<and> move_sends S k dma m w cs' ok w'"
proof (cases "a_promote_start k (view_of m)")
  case (Some r)
  obtain x v1 where r: "r = (x, v1)" by (cases r)
  obtain m1 where m1: "view_of m1 = v1" "completes (promotion_complete m1 x) (\<lambda>ok. a_promote_end x ok v1)"
      "round_move (logged S) m dma (fst k) (snd k) (w, cs) =
        move_then (mg_start (logged S) m1 dma (Some (fst k)) (snd k) x PROMOTION) (promotion_complete m1 x) (w, cs)"
    using round_promotes [OF assms(2,4,5) Some [unfolded r], of "logged S" dma "(w, cs)"] by blast
  note geo = cblock_view_cong [of m1 m, unfolded m1(1), OF a_start_simps(1) [OF Some [unfolded r], THEN conjunct1]]
  have script: "promotion_script m1 = promotion_script m"
    using geo by (simp add: promotion_script_def fun_eq_iff)
  obtain ok w' sent fd where io: "mg_start (logged S) m1 dma (Some (fst k)) (snd k) x PROMOTION (w, cs) =
      Some (ok, (w', cs @ sent))" "sends S (promotion_script m dma (Some (fst k)) (snd k) x fd) w sent ok w'"
    using promotion_sends [OF assms(1), of m1] geo(1) assms(3) script by metis
  have "move_sends S k dma m w sent ok w'"
    using Some r io(2) by (auto simp: move_sends_def)
  moreover have "a_move k ok (view_of m) = a_promote_end x ok v1"
    using Some r by (simp add: a_move_def)
  ultimately show ?thesis
    using move_then_returns [OF m1(3,2) io(1)] by blast
next
  case no_free: None
  show ?thesis
  proof (cases "a_demote_start (view_of m)")
    case (Some r)
    obtain x v1 where r: "r = (x, v1)" by (cases r)
    obtain m1 where m1: "view_of m1 = v1" "completes (demotion_complete m1 x) (\<lambda>ok. a_demote_end x ok v1)"
        "round_move (logged S) m dma (fst k) (snd k) (w, cs) =
          move_then (mg_start (logged S) m1 0 None 0 x DEMOTION) (demotion_complete m1 x) (w, cs)"
      using round_demotes [OF assms(2,4) no_free Some [unfolded r], of "logged S" dma "(w, cs)"] by blast
    note geo = cblock_view_cong [of m1 m, unfolded m1(1), OF a_start_simps(2) [OF Some [unfolded r], THEN conjunct1]]
    obtain w' where io: "mg_start (logged S) m1 0 None 0 x DEMOTION (w, cs) =
        Some (True, (w', cs @ [NsDeallocate MG_QUEUE 0 (cblock_len m)]))"
        "sends S [NsDeallocate MG_QUEUE 0 (cblock_len m)] w [NsDeallocate MG_QUEUE 0 (cblock_len m)] True w'"
      using demotion_sends [of m1 S 0 None 0 x w cs] geo assms(3) by auto
    have "move_sends S k dma m w [NsDeallocate MG_QUEUE 0 (cblock_len m)] True w'"
      using no_free Some r io(2) by (simp add: move_sends_def)
    moreover have "a_move k True (view_of m) = a_demote_end x True v1"
      using no_free Some r by (simp add: a_move_def)
    ultimately show ?thesis
      using move_then_returns [OF m1(3,2) io(1)] by blast
  next
    case no_clean: None
    show ?thesis
    proof (cases "a_writeback_start (view_of m)")
      case (Some r)
      obtain x v1 where r: "r = (x, v1)" by (cases r)
      obtain m1 k' where m1: "view_of m1 = v1" "v_key (view_of m) x = Some k'"
          "completes (writeback_complete m1 x) (\<lambda>ok. a_writeback_end x ok v1)"
          "round_move (logged S) m dma (fst k) (snd k) (w, cs) =
            move_then (mg_start (logged S) m1 dma (Some (fst k')) (snd k') x WRITEBACK) (writeback_complete m1 x) (w, cs)"
        using round_writes_back [OF assms(2,4) no_free no_clean Some [unfolded r], of "logged S" dma "(w, cs)"] by blast
      note geo = cblock_view_cong [of m1 m, unfolded m1(1), OF a_start_simps(3) [OF Some [unfolded r], THEN conjunct1]]
      have script: "writeback_script m1 = writeback_script m"
        using geo by (simp add: writeback_script_def fun_eq_iff)
      obtain ok w' sent fd where io: "mg_start (logged S) m1 dma (Some (fst k')) (snd k') x WRITEBACK (w, cs) =
          Some (ok, (w', cs @ sent))" "sends S (writeback_script m dma (Some (fst k')) (snd k') x fd) w sent ok w'"
        using writeback_sends [OF assms(1), of m1] geo(1) assms(3) script by metis
      have "move_sends S k dma m w sent ok w'"
        using no_free no_clean Some r m1(2) io(2) by (auto simp: move_sends_def)
      moreover have "a_move k ok (view_of m) = a_writeback_end x ok v1"
        using no_free no_clean Some r by (simp add: a_move_def)
      ultimately show ?thesis
        using move_then_returns [OF m1(4,3) io(1)] by blast
    next
      case None
      have "move_sends S k dma m w [] True w" "a_move k True (view_of m) = view_of m"
        using no_free no_clean None by (simp_all add: move_sends_def a_move_def all_sent)
      then show ?thesis
        using round_idle [OF assms(2,4) no_free no_clean None] assms(2) by (metis append_Nil2)
    qed
  qed
qed

lemma a_move_work [simp]: "v_work (a_move k ok v) = v_work v" "v_shift (a_move k ok v) = v_shift v"
  using a_start_simps by (auto simp: a_move_def split: option.splits)

lemma map_inv_wq: "map_inv P m \<Longrightarrow> wq_inv q \<Longrightarrow> map_inv P (m\<lparr>m_wq := q\<rparr>)"
  by (auto simp: map_inv_def ready_def)

lemma map_inv_ready: "map_inv P m \<Longrightarrow> wq_inv (m_wq m)"
  by (simp add: map_inv_def ready_def)

lemma view_work: "v_work (view_of m) = items (m_wq m)"
  by (simp add: view_of_def)

text \<open>The oldest work fits the path buffer and its key is not in the table.\<close>

definition head_promotable :: "cache_view \<Rightarrow> bool" where
  "head_promotable v \<longleftrightarrow> (case v_work v of [] \<Rightarrow> True
     | w # _ \<Rightarrow> length (work_path w) < MAX_PATH_SIZE \<and> v_map v (key_of w) = None)"

lemma do_migration_law:
  assumes "answers S" and "map_inv {} m" and "geometry_ok m"
    and "head_promotable (view_of m)"
  shows "\<exists>ok m' w' cs'. do_migration_work (logged S) m dma (w, cs) =
      Some (fst (a_migrate ok (view_of m)), m', (w', cs @ cs')) \<and>
    map_inv {} m' \<and> view_of m' = snd (a_migrate ok (view_of m)) \<and>
    (case v_work (view_of m) of [] \<Rightarrow> cs' = [] \<and> w' = w | wk # _ \<Rightarrow> move_sends S (key_of wk) dma m w cs' ok w')"
proof (cases "v_work (view_of m)")
  case Nil
  then have "do_migration_work (logged S) m dma (w, cs) = Some (False, m, (w, cs @ []))"
    using peak_work_empty [OF map_inv_ready [OF assms(2)]]
    by (simp add: do_migration_work_def view_work)
  then show ?thesis using Nil assms(2) by (simp add: a_migrate_def)
next
  case (Cons wk ws)
  have wk: "length (work_path wk) < MAX_PATH_SIZE \<and> v_map (view_of m) (key_of wk) = None"
    using assms(4) Cons by (simp add: head_promotable_def)
  have peak: "peak_work (m_wq m) MAX_PATH_SIZE [] 0 = Some (True, work_path wk, work_index wk, m_wq m)"
    using peak_work_front [OF map_inv_ready [OF assms(2)]] Cons wk by (simp add: view_work)
  have len: "length (fst (key_of wk)) \<le> MAX_PATH_SIZE" using wk by (simp add: key_of_def)
  have keys: "fst (key_of wk) = work_path wk" "snd (key_of wk) = work_index wk"
    by (simp_all add: key_of_def)
  obtain ok m1 w' cs' where m1: "round_move (logged S) m dma (work_path wk) (work_index wk) (w, cs) =
        Some (m1, (w', cs @ cs'))"
      "map_inv {} m1" "view_of m1 = a_move (key_of wk) ok (view_of m)" "move_sends S (key_of wk) dma m w cs' ok w'"
    using round_move_law [OF assms(1-3) len wk [THEN conjunct2], of dma w cs] unfolding keys by blast
  obtain q where q: "remove_work (m_wq m1) = Some (items (m_wq m1) \<noteq> [], q)" "wq_inv q"
      "items q = tl (items (m_wq m1))"
    using remove_work_law [OF map_inv_ready [OF m1(2)]] by blast
  have "items (m_wq m1) = wk # ws"
    using m1(3) Cons view_work [of m1] by simp
  then have "view_of (m1\<lparr>m_wq := q\<rparr>) = snd (a_migrate ok (view_of m))"
    using m1(3) Cons q(3) by (simp add: a_migrate_def)
  moreover have "do_migration_work (logged S) m dma (w, cs) = Some (True, m1\<lparr>m_wq := q\<rparr>, (w', cs @ cs'))"
    using peak m1(1) q(1) by (simp add: do_migration_work_def)
  moreover have "map_inv {} (m1\<lparr>m_wq := q\<rparr>)"
    by (rule map_inv_wq [OF m1(2) q(2)])
  ultimately show ?thesis using Cons m1(4) by (fastforce simp: a_migrate_def)
qed

lemma do_migration_overflow:
  assumes "map_inv P m" and "v_work (view_of m) = wk # ws" and "length (work_path wk) = MAX_PATH_SIZE"
  shows "do_migration_work S m dma w = None"
  using peak_work_front [OF map_inv_ready [OF assms(1)]] assms(2,3)
  by (simp add: do_migration_work_def view_work)

subsection \<open>Properties\<close>

abbreviation idle_device :: "queue_type \<Rightarrow> callback list" where
  "idle_device \<equiv> (\<lambda>_. [])"

lemma small_queued_ok:
  assumes "view_of m = (empty_view 8 6)\<lparr>v_misses := 1, v_work := [\<lparr>work_path = ''f'', work_index = 1\<rparr>]\<rparr>"
  shows "geometry_ok m" and "head_promotable (view_of m)"
  using assms by (simp_all add: geometry_ok_def view_shift head_promotable_def consts_simps empty_view_def)

text \<open>
  C9: one call of \<open>do_migration_work\<close>, on a device that answers and with an oldest work whose
  path is shorter than 32 characters (migration_path_overflow) and whose key has no block yet (as
  always, by queued_work_is_uncached), returns, keeps the invariant of the mapping and does what the
  abstract round does: it takes the oldest work and promotes it, or else demotes the least recently
  used clean block, or else writes back the oldest dirty one. It sends the commands of this move in
  their order up to the first that fails, and the move counts as done exactly if none does.
\<close>

theorem migration_refines:
  assumes "answers S" and "map_inv {} m" and "geometry_ok m" and "head_promotable (view_of m)"
  shows "\<exists>ok m' w' cs'. do_migration_work (logged S) m dma (w, cs) =
      Some (fst (a_migrate ok (view_of m)), m', (w', cs @ cs')) \<and>
    map_inv {} m' \<and> view_of m' = snd (a_migrate ok (view_of m)) \<and>
    (case v_work (view_of m) of [] \<Rightarrow> cs' = [] \<and> w' = w | wk # _ \<Rightarrow> move_sends S (key_of wk) dma m w cs' ok w')"
  by (rule do_migration_law [OF assms])

theorem migration_refines_witness:
  "\<exists>m m' w cs. lookup_mapping small_map ''f'' 8 0 = Some (False, 0, m) \<and>
    do_migration_work (logged fifo_device) m 4096 (idle_device, []) = Some (True, m', (w, cs)) \<and>
    v_work (view_of m') = []"
proof -
  obtain m where m: "lookup_mapping small_map ''f'' 8 0 = Some (False, 0, m)" "map_inv {} m"
      "view_of m = (empty_view 8 6)\<lparr>v_misses := 1, v_work := [\<lparr>work_path = ''f'', work_index = 1\<rparr>]\<rparr>"
    using small_queued [of "''f''"] by (auto simp: consts_simps)
  have "fst (a_migrate ok (view_of m))" "v_work (snd (a_migrate ok (view_of m))) = []" for ok
    by (simp_all add: m(3) a_migrate_def)
  with migration_refines [OF fifo_answers m(2) small_queued_ok [OF m(3)], of 4096 idle_device "[]"] m(1)
  show ?thesis by fastforce
qed

lemma cblock_lba_unat:
  assumes "geometry_ok m" and "x < CACHE_BLOCK_NUMBER"
  shows "unat (cblock_lba m x) = unat x * 2 ^ unat (block_per_cblock_shift m)"
proof -
  let ?s = "unat (block_per_cblock_shift m)"
  have s: "?s \<le> 15" using assms(1) by (simp add: geometry_ok_def word_le_nat_alt)
  have x: "unat x < 2 ^ 15"
    using assms(2) by (simp add: consts_simps word_less_nat_alt)
  have "(2 :: nat) ^ ?s \<le> 2 ^ 15" using s by (intro power_increasing) auto
  then have "unat x * 2 ^ ?s \<le> 2 ^ 15 * 2 ^ 15" using x by (intro mult_mono) auto
  then have lt: "unat x * 2 ^ ?s < 2 ^ 32" by simp
  have "unat (push_bit ?s x) = take_bit 32 (push_bit ?s (unat x))"
    by (simp only: unsigned_push_bit_eq len_num1 len_bit0) simp
  also have "\<dots> = unat x * 2 ^ ?s"
    using lt by (simp add: push_bit_eq_mult take_bit_nat_eq_self_iff)
  finally show ?thesis by (simp add: cblock_lba_def)
qed

lemma cblock_len_unat:
  assumes "geometry_ok m"
  shows "unat (cblock_len m) = 2 ^ unat (block_per_cblock_shift m)"
proof -
  have "(2 :: nat) ^ unat (block_per_cblock_shift m) < 2 ^ 32"
    using assms by (intro power_strict_increasing) (simp_all add: geometry_ok_def word_le_nat_alt)
  then have "unat (of_nat (2 ^ unat (block_per_cblock_shift m)) :: u32) = 2 ^ unat (block_per_cblock_shift m)"
    by (simp only: unat_of_nat len_num1 len_bit0) simp
  then show ?thesis by (simp add: cblock_len_def)
qed

lemma cblock_lba_nonzero:
  assumes "geometry_ok m" and "x < CACHE_BLOCK_NUMBER" and "x \<noteq> 0"
  shows "cblock_lba m x \<noteq> 0"
proof -
  have "unat x \<noteq> 0" using assms(3) by (simp add: unat_eq_0)
  then have "unat (cblock_lba m x) \<noteq> 0"
    by (simp add: cblock_lba_unat [OF assms(1,2)])
  then show ?thesis by auto
qed

text \<open>
  C24: whichever block \<open>x\<close> a round demotes, the one command it sends deallocates the
  device blocks of cache block 0, because the caller passes 0 as the index that the trim uses; the
  device blocks of any other \<open>x\<close> start elsewhere.
\<close>

theorem demotion_trims_block_zero:
  assumes "answers S" and "map_inv {} m" and "geometry_ok m" and "length (fst k) \<le> MAX_PATH_SIZE"
    and "v_map (view_of m) k = None" and "v_free (view_of m) = []"
    and "a_demote_start (view_of m) = Some (x, v)"
  shows "\<exists>m' w'. round_move (logged S) m dma (fst k) (snd k) (w, cs) =
      Some (m', (w', cs @ [NsDeallocate MG_QUEUE 0 (cblock_len m)])) \<and>
    v_free (view_of m') = [x] \<and> (x \<noteq> 0 \<longrightarrow> cblock_lba m x \<noteq> 0)"
proof -
  have no_free: "a_promote_start k (view_of m) = None"
    by (simp add: a_promote_start_def assms(6))
  obtain ok m' w' cs' where r: "round_move (logged S) m dma (fst k) (snd k) (w, cs) = Some (m', (w', cs @ cs'))"
      "view_of m' = a_move k ok (view_of m)" "move_sends S k dma m w cs' ok w'"
    using round_move_law [OF assms(1-5)] by blast
  have "cs' = [NsDeallocate MG_QUEUE 0 (cblock_len m)]"
    using r(3) no_free assms(7) by (auto simp: move_sends_def elim: sends.cases)
  moreover have "v_free v = []" using assms(6,7) by (auto simp: a_demote_start_def split: list.splits if_splits)
  then have "v_free (view_of m') = [x]"
    using r(2) no_free assms(7) by (simp add: a_move_def a_demote_end_def a_drop_def)
  moreover have "x < CACHE_BLOCK_NUMBER"
  proof -
    obtain F C D T where inv: "minv m F C D T {}" using assms(2) by (auto elim: map_invE)
    have "x \<in> set C"
      using assms(7) view_fields(3) [OF minv_core(1) [OF inv]]
      by (auto simp: a_demote_start_def split: list.splits if_splits)
    then show ?thesis using mcore_bound [OF minv_core(1) [OF inv]] by blast
  qed
  ultimately show ?thesis using r(1) cblock_lba_nonzero [OF assms(3)] by blast
qed

theorem demotion_trims_block_zero_witness:
  "\<exists>m m' w. v_clean (view_of m) = [0] \<and>
    round_move (logged fifo_device) m 4096 ''g'' 5 (idle_device, []) =
      Some (m', (w, [NsDeallocate MG_QUEUE 0 (cblock_len m)])) \<and> v_free (view_of m') = [0]"
proof -
  obtain m where m: "map_inv {} m" "view_of m = (empty_view 1 6)\<lparr>v_free := [], v_clean := [0], v_promotions := 1,
      v_key := [0 \<mapsto> (''f'', 1)], v_map := [(''f'', 1) \<mapsto> 0]\<rparr>"
    using one_map_filled by blast
  have geo: "geometry_ok m" by (simp add: geometry_ok_def view_shift m(2) empty_view_def)
  have key: "length (fst (''g'', 5 :: u32)) \<le> MAX_PATH_SIZE" "v_map (view_of m) (''g'', 5) = None" "v_free (view_of m) = []"
    by (simp_all add: m(2) consts_simps empty_view_def)
  obtain v where v: "a_demote_start (view_of m) = Some (0, v)"
    by (simp add: a_demote_start_def m(2) empty_view_def)
  have "v_clean (view_of m) = [0]" by (simp add: m(2))
  moreover have "\<exists>m' w. round_move (logged fifo_device) m 4096 ''g'' 5 (idle_device, []) =
      Some (m', (w, [NsDeallocate MG_QUEUE 0 (cblock_len m)])) \<and> v_free (view_of m') = [0]"
    using demotion_trims_block_zero [OF fifo_answers m(1) geo key v, of 4096 idle_device "[]"] by auto
  ultimately show ?thesis by blast
qed

text \<open>
  C25: a path of exactly \<open>MAX_PATH_SIZE\<close> characters, which the queue and the entries
  accept, overflows the local buffer of \<open>do_migration_work\<close> when its turn comes: there is no room
  for the terminating zero.
\<close>

theorem migration_path_overflow:
  assumes "map_inv P m" and "v_work (view_of m) = wk # ws" and "length (work_path wk) = MAX_PATH_SIZE"
  shows "do_migration_work S m dma w = None"
  by (rule do_migration_overflow [OF assms])

theorem migration_path_overflow_witness:
  "\<exists>m. lookup_mapping small_map (replicate 32 (CHR ''x'')) 8 0 = Some (False, 0, m) \<and>
    do_migration_work fifo_device m 4096 idle_device = None"
proof -
  obtain m where m: "lookup_mapping small_map (replicate 32 (CHR ''x'')) 8 0 = Some (False, 0, m)" "map_inv {} m"
      "v_work (view_of m) = [\<lparr>work_path = replicate 32 (CHR ''x''), work_index = 1\<rparr>]"
    using small_queued [of "replicate 32 (CHR ''x'')"] by (auto simp: consts_simps)
  from migration_path_overflow [OF m(2,3)] m(1) show ?thesis by (auto simp: consts_simps)
qed

end
