(* ===== verification/Pio.thy ===== *)
theory Pio
  imports Spdk
begin

text \<open>
  Page requests, \<^verbatim>\<open>lib/pio.c\<close> and \<^verbatim>\<open>inc/pio.h\<close>, with the conversion to an I/O
  vector of \<^verbatim>\<open>lib/ssd_cache_target.c\<close>. A \<open>struct pio\<close> chain is built by
  \<open>append_pio\<close> only, so it is a list of nodes; the empty list is the null pointer. What a
  function writes through its pointer to the chain is returned as the new chain.
\<close>

record pio_node =
  pio_path :: cstring
  pio_fd :: int
  pio_page_index :: u32
  pio_operation :: operate
  pio_buffer :: addr
  pio_cnt :: u32

type_synonym pio = "pio_node list"

text \<open>\<open>alloc\<close> says whether \<open>malloc\<close> finds memory.\<close>

definition create_pio :: "bool \<Rightarrow> cstring \<Rightarrow> int \<Rightarrow> u32 \<Rightarrow> operate \<Rightarrow> addr \<Rightarrow> u32 \<Rightarrow> pio" where
  "create_pio alloc path fd page op buf cnt =
     (if \<not> alloc then []
      else [\<lparr>pio_path = path, pio_fd = fd, pio_page_index = page, pio_operation = op,
        pio_buffer = buf, pio_cnt = cnt\<rparr>])"

fun append_pio :: "bool \<Rightarrow> pio \<Rightarrow> addr \<Rightarrow> pio option" where
  "append_pio alloc [] buf = None"
| "append_pio alloc [x] buf = Some (x # create_pio alloc (pio_path x) (pio_fd x)
     (pio_page_index x + 1) (pio_operation x) buf (pio_cnt x))"
| "append_pio alloc (x # y # ps) buf = do { ps \<leftarrow> append_pio alloc (y # ps) buf; Some (x # ps) }"

text \<open>The nodes that \<open>free_pio\<close> gives back, in the order of its calls of \<open>free\<close>.\<close>

fun free_pio :: "pio \<Rightarrow> pio_node list" where
  "free_pio [] = []"
| "free_pio (x # ps) = free_pio ps @ [x]"

text \<open>
  The loop of \<open>pio_to_iovec\<close>: \<open>n\<close> rounds to go. The first assignment of \<open>iov_len\<close> is
  overwritten by the second.
\<close>

fun pio_to_iovec :: "nat \<Rightarrow> pio \<Rightarrow> iovec list option" where
  "pio_to_iovec 0 p = Some []"
| "pio_to_iovec (Suc n) [] = None"
| "pio_to_iovec (Suc n) (x # ps) = do {
     vs \<leftarrow> pio_to_iovec n ps;
     Some (\<lparr>iov_base = pio_buffer x, iov_len = ucast PAGE_SIZE\<rparr> # vs)
   }"

definition page_vec :: "addr \<Rightarrow> iovec" where
  "page_vec a = \<lparr>iov_base = a, iov_len = 4096\<rparr>"

lemma pio_to_iovec_law:
  "pio_to_iovec n p = (if n \<le> length p then Some (map (page_vec \<circ> pio_buffer) (take n p)) else None)"
  by (induction n p rule: pio_to_iovec.induct) (simp_all add: page_vec_def consts_simps)

lemma append_pio_law:
  "append_pio alloc p buf = (if p = [] then None
     else if alloc then Some (p @ [(last p)\<lparr>pio_page_index := pio_page_index (last p) + 1, pio_buffer := buf\<rparr>])
     else Some p)"
  by (induction alloc p buf rule: append_pio.induct) (simp_all add: create_pio_def)

lemma free_pio_rev: "free_pio p = rev p"
  by (induction p) simp_all

text \<open>Building a request: one head and an append for every further page.\<close>

fun append_all :: "pio \<Rightarrow> addr list \<Rightarrow> pio option" where
  "append_all p [] = Some p"
| "append_all p (b # bs) = do { p \<leftarrow> append_pio True p b; append_all p bs }"

lemma append_all_law:
  assumes "p \<noteq> []"
  shows "append_all p bs = Some (p @ map (\<lambda>i. (last p)\<lparr>pio_page_index := pio_page_index (last p) + 1 + of_nat i,
      pio_buffer := bs ! i\<rparr>) [0..<length bs])"
  using assms
proof (induction bs arbitrary: p)
  case (Cons b bs)
  let ?x = "(last p)\<lparr>pio_page_index := pio_page_index (last p) + 1, pio_buffer := b\<rparr>"
  have "map (\<lambda>i. (last p)\<lparr>pio_page_index := pio_page_index (last p) + 1 + of_nat i,
      pio_buffer := (b # bs) ! i\<rparr>) [0..<Suc (length bs)] =
    ?x # map (\<lambda>i. ?x\<lparr>pio_page_index := pio_page_index ?x + 1 + of_nat i, pio_buffer := bs ! i\<rparr>) [0..<length bs]"
    by (subst upt_conv_Cons) (simp_all add: map_Suc_upt [symmetric] add.assoc comp_def del: upt_Suc)
  with Cons show ?case by (simp add: append_pio_law del: upt_Suc)
qed simp

subsection \<open>Properties\<close>

text \<open>
  A request built by \<open>create_pio\<close> and one \<open>append_pio\<close> per further buffer has consecutive
  page numbers, becomes the I/O vector of exactly its buffers, one page each and in order, and is
  freed from the last node to the first, each node once.
\<close>

theorem request_pages:
  "\<exists>p. append_all (create_pio True path fd page op b cnt) bs = Some p \<and>
    map pio_page_index p = map (\<lambda>i. page + of_nat i) [0..<Suc (length bs)] \<and>
    pio_to_iovec (Suc (length bs)) p = Some (map page_vec (b # bs)) \<and> free_pio p = rev p"
proof -
  let ?x = "\<lparr>pio_path = path, pio_fd = fd, pio_page_index = page, pio_operation = op, pio_buffer = b, pio_cnt = cnt\<rparr>"
  let ?p = "?x # map (\<lambda>i. ?x\<lparr>pio_page_index := page + 1 + of_nat i, pio_buffer := bs ! i\<rparr>) [0..<length bs]"
  have build: "append_all (create_pio True path fd page op b cnt) bs = Some ?p"
    using append_all_law [of "[?x]" bs] by (simp add: create_pio_def)
  have pages: "map pio_page_index ?p = map (\<lambda>i. page + of_nat i) [0..<Suc (length bs)]"
    by (simp add: upt_conv_Cons map_Suc_upt [symmetric] comp_def add.assoc del: upt_Suc)
  have "map pio_buffer ?p = b # bs"
    by (simp add: comp_def map_nth)
  then have vec: "map (page_vec \<circ> pio_buffer) ?p = map page_vec (b # bs)"
    by (simp only: list.map_comp [symmetric])
  have len: "length ?p = Suc (length bs)" by simp
  then have "take (Suc (length bs)) ?p = ?p" by (simp only: take_all order_refl)
  then have "pio_to_iovec (Suc (length bs)) ?p = Some (map page_vec (b # bs))"
    by (simp only: pio_to_iovec_law order_refl if_True vec len)
  with build pages show ?thesis using free_pio_rev by blast
qed

end
