(* ===== verification/Target.thy ===== *)
theory Target
  imports Migration Pio
begin

text \<open>
  The request path of \<^verbatim>\<open>lib/ssd_cache_target.c\<close>: a page request is checked, looked up in
  the mapping, and served by the cache device or by the file. The record \<open>cache\<close> is
  \<open>struct cache\<close> of \<^verbatim>\<open>inc/cache.h\<close>. The I/O vectors are assumed to be allocated
  (\<open>malloc\<close> of at most 128 bytes).
\<close>

unbundle bit_operations_syntax

subsection \<open>The shared cache\<close>

record device =
  dev_block_size :: u32
  dev_device_size :: u64
  dev_cache_block_num :: u32
  dev_block_per_cblock_shift :: u32
  dev_block_per_page_shift :: u32

record state =
  st_running :: bool
  st_count :: u32
  st_lock :: spinlock

record cache =
  cache_state :: state
  cache_dev :: device
  cache_map :: mapping
  mg_worker :: u64
  wb_worker :: u64

subsection \<open>Serving a request\<close>

definition target_block :: "cache \<Rightarrow> pio_node \<Rightarrow> u32 \<Rightarrow> u32 option" where
  "target_block c x cblock = do {
     a \<leftarrow> shl_u32 cblock (block_per_cblock_shift (cache_map c));
     b \<leftarrow> shl_u32 (pio_page_index x AND MOD_PAGE_PER_CBLOCK_SHIFT) (dev_block_per_page_shift (cache_dev c));
     Some (a + b)
   }"

definition write_cache :: "'w driver \<Rightarrow> cache \<Rightarrow> pio \<Rightarrow> u32 \<Rightarrow> 'w \<Rightarrow> (int \<times> cache \<times> 'w) option" where
  "write_cache S c p cblock w = (case p of
     [] \<Rightarrow> None
   | x # _ \<Rightarrow> do {
       lba \<leftarrow> target_block c x cblock;
       iovcnt \<leftarrow> Some (sint (pio_cnt x));
       vec \<leftarrow> pio_to_iovec (nat iovcnt) p;
       n \<leftarrow> shl_int iovcnt (dev_block_per_page_shift (cache_dev c));
       (rc, w) \<leftarrow> writev_spdk S vec iovcnt (ucast lba) (of_int n) IO_QUEUE w;
       if rc \<noteq> 0 then Some (rc, c, w)
       else do {
         m \<leftarrow> set_dirty_after_write (cache_map c) cblock True;
         Some (rc, c\<lparr>cache_map := m\<rparr>, w)
       }
     })"

definition read_cache :: "'w driver \<Rightarrow> cache \<Rightarrow> pio \<Rightarrow> u32 \<Rightarrow> 'w \<Rightarrow> (int \<times> cache \<times> 'w) option" where
  "read_cache S c p cblock w = (case p of
     [] \<Rightarrow> None
   | x # _ \<Rightarrow> do {
       lba \<leftarrow> target_block c x cblock;
       iovcnt \<leftarrow> Some (sint (pio_cnt x));
       vec \<leftarrow> pio_to_iovec (nat iovcnt) p;
       n \<leftarrow> shl_int iovcnt (dev_block_per_page_shift (cache_dev c));
       (rc, w) \<leftarrow> readv_spdk S vec iovcnt (ucast lba) (of_int n) IO_QUEUE w;
       Some (rc, c, w)
     })"

definition write_origin :: "'w driver \<Rightarrow> cache \<Rightarrow> pio \<Rightarrow> 'w \<Rightarrow> (int \<times> cache \<times> 'w) option" where
  "write_origin S c p w = (case p of
     [] \<Rightarrow> None
   | x # _ \<Rightarrow> do {
       iovcnt \<leftarrow> Some (sint (pio_cnt x));
       vec \<leftarrow> pio_to_iovec (nat iovcnt) p;
       if pio_fd x = 0
       then (let (fd, w) = submit S (OpenFile (Some (pio_path x)) O_WRONLY_CREAT) w
         in if fd < 0 then Some (1, c, w)
            else (let (res, w) = submit S (Pwritev fd vec iovcnt (ucast (push_bit 12 (pio_page_index x)))) w;
                      (_, w) = submit S (CloseFile fd) w
                  in Some (if res = 0 then 0 else 1, c, w)))
       else (let (res, w) = submit S (Pwritev (pio_fd x) vec iovcnt (ucast (push_bit 12 (pio_page_index x)))) w
             in Some (if res = 0 then 0 else 1, c, w))
     })"

definition read_origin :: "'w driver \<Rightarrow> cache \<Rightarrow> pio \<Rightarrow> 'w \<Rightarrow> (int \<times> cache \<times> 'w) option" where
  "read_origin S c p w = (case p of
     [] \<Rightarrow> None
   | x # _ \<Rightarrow> do {
       iovcnt \<leftarrow> Some (sint (pio_cnt x));
       vec \<leftarrow> pio_to_iovec (nat iovcnt) p;
       if pio_fd x = 0
       then (let (fd, w) = submit S (OpenFile (Some (pio_path x)) O_RDONLY_CREAT) w
         in if fd < 0 then Some (1, c, w)
            else (let (res, w) = submit S (Preadv fd vec iovcnt (ucast (push_bit 12 (pio_page_index x)))) w;
                      (_, w) = submit S (CloseFile fd) w
                  in Some (if res = 0 then 0 else 1, c, w)))
       else (let (res, w) = submit S (Preadv (pio_fd x) vec iovcnt (ucast (push_bit 12 (pio_page_index x)))) w
             in Some (if res = 0 then 0 else 1, c, w))
     })"

definition map_to_cache :: "'w driver \<Rightarrow> cache \<Rightarrow> pio \<Rightarrow> u32 \<Rightarrow> 'w \<Rightarrow> (int \<times> cache \<times> 'w) option" where
  "map_to_cache S c p cblock w = (case p of
     [] \<Rightarrow> None
   | x # _ \<Rightarrow> if pio_operation x = READ then read_cache S c p cblock w else write_cache S c p cblock w)"

definition map_to_origin :: "'w driver \<Rightarrow> cache \<Rightarrow> pio \<Rightarrow> 'w \<Rightarrow> (int \<times> cache \<times> 'w) option" where
  "map_to_origin S c p w = (case p of
     [] \<Rightarrow> None
   | x # _ \<Rightarrow> if pio_operation x = READ then read_origin S c p w else write_origin S c p w)"

definition check_pio :: "pio_node \<Rightarrow> bool" where
  "check_pio x \<longleftrightarrow> 8 - (pio_page_index x AND 7) \<ge> pio_cnt x"

definition overwritable :: "pio_node \<Rightarrow> bool" where
  "overwritable x \<longleftrightarrow> pio_cnt x = 8 \<and> pio_page_index x AND 0b111 = 0"

definition optimizable :: "pio_node \<Rightarrow> bool" where
  "optimizable x \<longleftrightarrow> pio_operation x = WRITE \<and> overwritable x"

definition discard_pio :: "cache \<Rightarrow> pio \<Rightarrow> (int \<times> cache) option" where
  "discard_pio c p = (case p of
     [] \<Rightarrow> None
   | x # _ \<Rightarrow> if \<not> check_pio x then Some (1, c)
       else do {
         (removed, m) \<leftarrow> remove_mapping (cache_map c) (pio_path x) (pio_page_index x);
         Some (if removed then 1 else 0, c\<lparr>cache_map := m\<rparr>)
       })"

text \<open>The local \<open>cblock\<close> of \<open>map_pio\<close> is read only after a lookup has filled it.\<close>

definition map_pio :: "'w driver \<Rightarrow> cache \<Rightarrow> pio \<Rightarrow> 'w \<Rightarrow> (int \<times> cache \<times> 'w) option" where
  "map_pio S c p w = (case p of
     [] \<Rightarrow> None
   | x # _ \<Rightarrow> if \<not> check_pio x then Some (1, c, w)
       else do {
         (hit_or_inserted, cblock, m) \<leftarrow> (if optimizable x
           then lookup_mapping_with_insert (cache_map c) (pio_path x) (pio_page_index x) 0
           else lookup_mapping (cache_map c) (pio_path x) (pio_page_index x) 0);
         c \<leftarrow> Some (c\<lparr>cache_map := m\<rparr>);
         if hit_or_inserted then map_to_cache S c p cblock w else map_to_origin S c p w
       })"

definition submit_to_target :: "'w driver \<Rightarrow> cache \<Rightarrow> pio \<Rightarrow> 'w \<Rightarrow> (int \<times> cache \<times> 'w) option" where
  "submit_to_target S c p w = (case p of
     [] \<Rightarrow> None
   | x # _ \<Rightarrow> if pio_operation x = DISCARD
       then do { (rc, c) \<leftarrow> discard_pio c p; Some (rc, c, w) }
       else map_pio S c p w)"

subsection \<open>Addresses inside a cache block\<close>

text \<open>A page is at most 4096 blocks of the device, and a cache block is eight pages.\<close>

definition cache_geometry :: "cache \<Rightarrow> bool" where
  "cache_geometry c \<longleftrightarrow> dev_block_per_page_shift (cache_dev c) \<le> 12 \<and>
     block_per_cblock_shift (cache_map c) = dev_block_per_page_shift (cache_dev c) + 3"

lemma cache_geometry_unat:
  assumes "cache_geometry c"
  shows "unat (dev_block_per_page_shift (cache_dev c)) \<le> 12"
    and "unat (block_per_cblock_shift (cache_map c)) = unat (dev_block_per_page_shift (cache_dev c)) + 3"
proof -
  let ?p = "dev_block_per_page_shift (cache_dev c)"
  show p: "unat ?p \<le> 12"
    using assms by (simp add: cache_geometry_def word_le_nat_alt)
  then have "unat (?p + 3) = unat ?p + 3"
    by (subst unat_add_lem [THEN iffD1]) simp_all
  then show "unat (block_per_cblock_shift (cache_map c)) = unat ?p + 3"
    using assms by (simp add: cache_geometry_def)
qed

lemma page_in_block: "unat (p AND 7 :: u32) < 8"
proof -
  have "p AND 7 \<le> 7" by (rule word_and_le1)
  then show ?thesis by (simp add: word_le_nat_alt)
qed

lemma push_bit_unat:
  assumes "unat (x :: u32) * 2 ^ n < 2 ^ 32"
  shows "unat (push_bit n x) = unat x * 2 ^ n"
proof -
  have "unat (push_bit n x) = take_bit 32 (push_bit n (unat x))"
    by (simp only: unsigned_push_bit_eq len_num1 len_bit0) simp
  also have "\<dots> = unat x * 2 ^ n"
    using assms by (simp add: push_bit_eq_mult take_bit_nat_eq_self_iff)
  finally show ?thesis .
qed

text \<open>
  A request that passes \<open>check_pio\<close>, served from cache block \<open>x < CACHE_BLOCK_NUMBER\<close>:
  its device blocks lie inside those of \<open>x\<close>.
\<close>

lemma target_block_law:
  assumes "cache_geometry c" and "cblock < CACHE_BLOCK_NUMBER"
  defines "s \<equiv> unat (dev_block_per_page_shift (cache_dev c))"
  shows "\<exists>lba. target_block c x cblock = Some lba \<and>
    unat lba = (unat cblock * 8 + unat (pio_page_index x AND 7)) * 2 ^ s"
proof -
  define page where "page = pio_page_index x AND 7"
  note g = cache_geometry_unat [OF assms(1)]
  have s: "s \<le> 12" and cs: "unat (block_per_cblock_shift (cache_map c)) = s + 3"
    using g by (simp_all add: s_def)
  have pow: "(2 :: nat) ^ s \<le> 2 ^ 12" using s by (intro power_increasing) auto
  have cb: "unat cblock < 2 ^ 15"
    using assms(2) by (simp add: consts_simps word_less_nat_alt)
  have "unat cblock * (8 * 2 ^ s) \<le> (2 ^ 15 - 1) * (8 * 2 ^ 12)"
    using cb pow by (intro mult_mono) auto
  then have c0: "unat cblock * 2 ^ (s + 3) \<le> (2 ^ 15 - 1) * 2 ^ 15"
    by (simp add: power_add mult_ac)
  have p0: "unat page * 2 ^ s \<le> 7 * 2 ^ 12"
    using page_in_block [of "pio_page_index x"] pow unfolding page_def by (intro mult_mono) auto
  have u1: "unat (push_bit (s + 3) cblock) = unat cblock * 2 ^ (s + 3)"
    by (rule push_bit_unat) (use c0 in simp)
  have u2: "unat (push_bit s page) = unat page * 2 ^ s"
    by (rule push_bit_unat) (use p0 in simp)
  have "unat (push_bit (s + 3) cblock) + unat (push_bit s page) < 2 ^ 32"
    unfolding u1 u2 using c0 p0 by simp
  then have "unat (push_bit (s + 3) cblock + push_bit s page) = unat cblock * 2 ^ (s + 3) + unat page * 2 ^ s"
    by (subst unat_add_lem [THEN iffD1]) (simp_all add: u1 u2)
  moreover have "block_per_cblock_shift (cache_map c) < 32" "dev_block_per_page_shift (cache_dev c) < 32"
    using s cs by (simp_all add: word_less_nat_alt s_def)
  ultimately show ?thesis
    using cs by (simp add: target_block_def shl_u32_def consts_simps s_def power_add algebra_simps
      del: push_bit_and flip: page_def)
qed

lemma check_pio_law: "check_pio x \<longleftrightarrow> unat (pio_page_index x AND 7) + unat (pio_cnt x) \<le> 8"
proof -
  let ?p = "pio_page_index x AND 7"
  have "unat (8 - ?p) = 8 - unat ?p"
    using page_in_block [of "pio_page_index x"] by (subst unat_sub) (simp_all add: word_le_nat_alt)
  then show ?thesis
    using page_in_block [of "pio_page_index x"] by (auto simp: check_pio_def word_le_nat_alt)
qed


subsection \<open>What a request does\<close>

definition pio_key :: "pio_node \<Rightarrow> key" where
  "pio_key x = (pio_path x, to_cache_page_index (pio_page_index x))"

definition pio_vec :: "pio \<Rightarrow> iovec list" where
  "pio_vec p = map (page_vec \<circ> pio_buffer) (take (unat (pio_cnt (hd p))) p)"

text \<open>The one command that serves a hit in block \<open>b\<close>: the pages of the request, inside the block.\<close>

definition block_cmd :: "cache \<Rightarrow> pio \<Rightarrow> u32 \<Rightarrow> io_cmd \<Rightarrow> bool" where
  "block_cmd c p b cmd \<longleftrightarrow> (\<exists>off n.
     cmd = (if pio_operation (hd p) = READ then NsReadv else NsWritev)
       IO_QUEUE (init_req stack_req (pio_vec p) (uint (pio_cnt (hd p)))) off n \<and>
     unat off = (unat b * 8 + unat (pio_page_index (hd p) AND 7)) *
       2 ^ unat (dev_block_per_page_shift (cache_dev c)) \<and>
     unat n = unat (pio_cnt (hd p)) * 2 ^ unat (dev_block_per_page_shift (cache_dev c)))"

text \<open>The commands that serve a miss from the file; the last two are missing when it cannot be opened.\<close>

definition origin_script :: "pio \<Rightarrow> int \<Rightarrow> io_cmd list" where
  "origin_script p fd = (let x = hd p; rw = (if pio_operation x = READ then Preadv else Pwritev);
       io = (\<lambda>fd. rw fd (pio_vec p) (uint (pio_cnt x)) (ucast (push_bit 12 (pio_page_index x))))
     in if pio_fd x = 0
        then [OpenFile (Some (pio_path x)) (if pio_operation x = READ then O_RDONLY_CREAT else O_WRONLY_CREAT),
          io fd, CloseFile fd]
        else [io (pio_fd x)])"

definition request_ok :: "pio \<Rightarrow> bool" where
  "request_ok p \<longleftrightarrow> p \<noteq> [] \<and> check_pio (hd p) \<and> unat (pio_cnt (hd p)) \<le> length p \<and>
     length (pio_path (hd p)) \<le> MAX_PATH_SIZE"

lemma small_sint:
  assumes "unat (x :: u32) \<le> 8"
  shows "sint x = uint x"
proof -
  have "x \<le> 8" using assms by (simp add: word_le_nat_alt)
  then have "uint x \<le> 8" by (simp add: word_le_def)
  moreover have "- (2 ^ 31) \<le> uint x" by (rule order_trans [of _ 0]) simp_all
  ultimately have "signed_take_bit 31 (uint x) = uint x"
    by (intro signed_take_bit_int_eq_self) auto
  then show ?thesis by (simp add: sint_uint)
qed

lemma request_vec:
  assumes "request_ok p"
  shows "sint (pio_cnt (hd p)) = uint (pio_cnt (hd p))"
    and "pio_to_iovec (unat (pio_cnt (hd p))) p = Some (pio_vec p)"
    and "unat (pio_cnt (hd p)) \<le> 8"
proof -
  show le: "unat (pio_cnt (hd p)) \<le> 8"
    using assms by (auto simp: request_ok_def check_pio_law)
  then show "sint (pio_cnt (hd p)) = uint (pio_cnt (hd p))"
    using small_sint [of "pio_cnt (hd p)"] by simp
  show "pio_to_iovec (unat (pio_cnt (hd p))) p = Some (pio_vec p)"
    using assms by (simp add: pio_to_iovec_law pio_vec_def request_ok_def)
qed

lemma block_count:
  assumes "cache_geometry c" and "unat (k :: u32) \<le> 8"
  obtains n where "shl_int (uint k) (dev_block_per_page_shift (cache_dev c)) = Some n"
    and "unat (of_int n :: u32) = unat k * 2 ^ unat (dev_block_per_page_shift (cache_dev c))"
proof
  let ?s = "dev_block_per_page_shift (cache_dev c)"
  define pow where "pow = (2 :: nat) ^ unat ?s"
  have s: "unat ?s \<le> 12" by (rule cache_geometry_unat(1) [OF assms(1)])
  then have "pow \<le> 2 ^ 12" unfolding pow_def by (intro power_increasing) auto
  then have "unat k * pow \<le> 8 * 2 ^ 12" using assms(2) by (intro mult_mono) auto
  then have lt: "unat k * pow < 2 ^ 31" by simp
  have int: "uint k * 2 ^ unat ?s = int (unat k * pow)"
    by (simp add: pow_def)
  have "?s < 32" using s by (simp add: word_less_nat_alt)
  then show "shl_int (uint k) ?s = Some (int (unat k * pow))"
    using lt by (simp only: shl_int_def int) (simp del: of_nat_mult)
  show "unat (of_int (int (unat k * pow)) :: u32) = unat k * 2 ^ unat ?s"
    unfolding of_int_of_nat_eq using lt by (subst unat_of_nat_lt_len) (simp_all add: pow_def)
qed

lemma serve_cache:
  assumes "answers S" and "cache_geometry c" and "request_ok p" and "pio_operation (hd p) \<noteq> DISCARD"
    and "b < cache_block_num (cache_map c)" and "map_inv P (cache_map c)"
  shows "\<exists>rc m' w' cmd. map_to_cache (logged S) c p b (w, cs) =
      Some (rc, c\<lparr>cache_map := m'\<rparr>, (w', cs @ [cmd])) \<and> block_cmd c p b cmd \<and> map_inv P m' \<and>
    view_of m' = (if pio_operation (hd p) = WRITE \<and> rc = 0
      then a_set_dirty b (view_of (cache_map c)) else view_of (cache_map c))"
proof -
  obtain x ps where p: "p = x # ps" using assms(3) by (cases p) (auto simp: request_ok_def)
  let ?s = "dev_block_per_page_shift (cache_dev c)" and ?k = "unat (pio_cnt x)"
  let ?req = "init_req stack_req (pio_vec p) (uint (pio_cnt x))"
  note vec = request_vec [OF assms(3), unfolded p list.sel]
  obtain F C D T where inv: "minv (cache_map c) F C D T P" using assms(6) by (auto elim: map_invE)
  have "b \<in> T \<union> set (F @ C @ D)"
    using minv_core(1) [OF inv] assms(5) by (simp only: mcore_def mem_Collect_eq)
  then have b: "b < CACHE_BLOCK_NUMBER" using mcore_bound [OF minv_core(1) [OF inv]] by auto
  obtain lba where lba: "target_block c x b = Some lba"
      "unat lba = (unat b * 8 + unat (pio_page_index x AND 7)) * 2 ^ unat ?s"
    using target_block_law [OF assms(2) b] by blast
  obtain n where cnt: "shl_int (uint (pio_cnt x)) ?s = Some n"
      "unat (of_int n :: u32) = ?k * 2 ^ unat ?s"
    by (rule block_count [OF assms(2) vec(3)])
  let ?n = "of_int n :: u32"
  note defs = map_to_cache_def p lba(1) vec(1,2) [unfolded p] cnt(1)
  show ?thesis
  proof (cases "pio_operation x = READ")
    case True
    obtain rc w' where r: "readv_spdk (logged S) (pio_vec p) (uint (pio_cnt x)) (ucast lba) ?n IO_QUEUE (w, cs) =
        Some (rc, (w', cs @ [NsReadv IO_QUEUE ?req (ucast lba) ?n]))"
      using spdk_io_law(3) [OF assms(1)] by blast
    have "map_to_cache (logged S) c p b (w, cs) =
        Some (rc, c\<lparr>cache_map := cache_map c\<rparr>, (w', cs @ [NsReadv IO_QUEUE ?req (ucast lba) ?n]))"
      using True r [unfolded p] by (simp add: defs read_cache_def)
    moreover have "block_cmd c p b (NsReadv IO_QUEUE ?req (ucast lba) ?n)"
      unfolding block_cmd_def using True p lba(2) cnt(2) by (intro exI conjI) auto
    ultimately show ?thesis
      using True p assms(6) by (intro exI [of _ rc] exI [of _ "cache_map c"] exI [of _ w']
        exI [of _ "NsReadv IO_QUEUE ?req (ucast lba) ?n"]) simp
  next
    case False
    obtain rc w' where r: "writev_spdk (logged S) (pio_vec p) (uint (pio_cnt x)) (ucast lba) ?n IO_QUEUE (w, cs) =
        Some (rc, (w', cs @ [NsWritev IO_QUEUE ?req (ucast lba) ?n]))"
      using spdk_io_law(4) [OF assms(1)] by blast
    have cmd: "block_cmd c p b (NsWritev IO_QUEUE ?req (ucast lba) ?n)"
      unfolding block_cmd_def using False p lba(2) cnt(2) by (intro exI conjI) auto
    have w: "pio_operation x = WRITE" using False assms(4) p by (cases "pio_operation x") auto
    obtain m' where m': "set_dirty_after_write (cache_map c) b True = Some m'" "map_inv P m'"
        "view_of m' = a_set_dirty b (view_of (cache_map c))"
      using set_dirty_law [OF assms(6,5)] by blast
    show ?thesis
    proof (cases "rc = 0")
      case True
      have "map_to_cache (logged S) c p b (w, cs) =
          Some (rc, c\<lparr>cache_map := m'\<rparr>, (w', cs @ [NsWritev IO_QUEUE ?req (ucast lba) ?n]))"
        using False True m'(1) r [unfolded p] by (simp add: defs write_cache_def)
      then show ?thesis
        using cmd m' w True p by (intro exI [of _ rc] exI [of _ m'] exI [of _ w']
          exI [of _ "NsWritev IO_QUEUE ?req (ucast lba) ?n"]) simp
    next
      case err: False
      have "map_to_cache (logged S) c p b (w, cs) =
          Some (rc, c\<lparr>cache_map := cache_map c\<rparr>, (w', cs @ [NsWritev IO_QUEUE ?req (ucast lba) ?n]))"
        using False err r [unfolded p] by (simp add: defs write_cache_def)
      then show ?thesis
        using cmd assms(6) err by (intro exI [of _ rc] exI [of _ "cache_map c"] exI [of _ w']
          exI [of _ "NsWritev IO_QUEUE ?req (ucast lba) ?n"]) simp
    qed
  qed
qed

lemma serve_origin:
  assumes "request_ok p" and "pio_operation (hd p) \<noteq> DISCARD"
  shows "\<exists>rc w' n fd. map_to_origin (logged S) c p (w, cs) =
    Some (rc, c, (w', cs @ take n (origin_script p fd))) \<and> 0 < n"
proof -
  obtain x ps where p: "p = x # ps" using assms(1) by (cases p) (auto simp: request_ok_def)
  note vec = request_vec [OF assms(1), unfolded p list.sel]
  let ?k = "uint (pio_cnt x)" and ?off = "ucast (push_bit 12 (pio_page_index x)) :: u64"
  note defs = map_to_origin_def p read_origin_def write_origin_def vec(1,2) origin_script_def
  show ?thesis
  proof (cases "pio_fd x = 0")
    case False
    then have "\<exists>rc w'. map_to_origin (logged S) c p (w, cs) = Some (rc, c, (w', cs @ take 1 (origin_script p 0)))"
      by (simp add: defs)
    then show ?thesis using zero_less_one by blast
  next
    case True
    let ?open = "OpenFile (Some (pio_path x)) (if pio_operation x = READ then O_RDONLY_CREAT else O_WRONLY_CREAT)"
    define fd where "fd = fst (submit S ?open w)"
    show ?thesis
    proof (cases "fd < 0")
      case err: True
      then have "\<exists>rc w'. map_to_origin (logged S) c p (w, cs) = Some (rc, c, (w', cs @ take 1 (origin_script p 0)))"
        using True by (simp add: defs fd_def split: if_splits)
      then show ?thesis using zero_less_one by blast
    next
      case ok: False
      then have "\<exists>rc w'. map_to_origin (logged S) c p (w, cs) = Some (rc, c, (w', cs @ take 3 (origin_script p fd)))"
        using True by (simp add: defs fd_def split: if_splits)
      moreover have "(0 :: nat) < 3" by simp
      ultimately show ?thesis by blast
    qed
  qed
qed


text \<open>The lookup of a request: a whole-block write takes a free block on a miss.\<close>

definition a_request_lookup :: "pio_node \<Rightarrow> cache_view \<Rightarrow> u32 option \<times> cache_view" where
  "a_request_lookup x v = (if optimizable x then a_insert (pio_key x) v else a_lookup (pio_key x) v)"

text \<open>The mapping after a request, given whether a write to the device was accepted.\<close>

definition a_serve :: "pio_node \<Rightarrow> bool \<Rightarrow> cache_view \<Rightarrow> cache_view" where
  "a_serve x accepted v = (case a_request_lookup x v of
     (Some b, v') \<Rightarrow> if pio_operation x = WRITE \<and> accepted then a_set_dirty b v' else v'
   | (None, v') \<Rightarrow> v')"

lemma a_lookup_fixed [simp]:
  "v_blocks (snd (a_lookup k v)) = v_blocks v" "v_blocks (snd (a_insert k v)) = v_blocks v"
  "v_shift (snd (a_lookup k v)) = v_shift v" "v_shift (snd (a_insert k v)) = v_shift v"
  by (auto simp: a_lookup_def a_insert_def a_hit_def a_request_def a_miss_def split: option.splits list.splits)

lemma view_blocks: "v_blocks (view_of m) = cache_block_num m"
  by (simp add: view_of_def)

lemma lookup_block_bound:
  assumes "map_inv P m" and "fst (a_request_lookup x (view_of m)) = Some b"
  shows "b < cache_block_num m"
proof -
  obtain F C D T where inv: "minv m F C D T P" using assms(1) by (auto elim: map_invE)
  note core = minv_core(1) [OF inv]
  have "v_map (view_of m) (pio_key x) = Some b \<or> (\<exists>F. v_free (view_of m) = b # F)"
    using assms(2) by (auto simp: a_request_lookup_def a_lookup_def a_insert_def split: if_splits option.splits list.splits)
  then have "b \<in> T \<union> set (F @ C @ D)"
    using find_iff [OF inv] view_fields(2) [OF core] by auto
  then show ?thesis using core by (simp only: mcore_def mem_Collect_eq)
qed

lemma request_lookup_law:
  assumes "map_inv P m" and "length (pio_path x) \<le> MAX_PATH_SIZE"
  defines "r \<equiv> a_request_lookup x (view_of m)"
  shows "\<exists>m'. (if optimizable x then lookup_mapping_with_insert m (pio_path x) (pio_page_index x) 0
      else lookup_mapping m (pio_path x) (pio_page_index x) 0) =
    Some (fst r \<noteq> None, result_block (fst r) 0, m') \<and> map_inv P m' \<and> view_of m' = snd r"
  using lookup_mapping_law [OF assms(1,2), of "pio_page_index x" 0]
    lookup_with_insert_law [OF assms(1,2), of "pio_page_index x" 0]
  by (simp add: r_def a_request_lookup_def pio_key_def)

lemma submit_law:
  fixes c :: cache and p :: pio
  assumes "answers S" and "cache_geometry c" and "map_inv P (cache_map c)"
    and "request_ok p" and "pio_operation (hd p) \<noteq> DISCARD"
  defines "r \<equiv> a_request_lookup (hd p) (view_of (cache_map c))"
  shows "\<exists>rc m' w' cs'. submit_to_target (logged S) c p (w, cs) =
      Some (rc, c\<lparr>cache_map := m'\<rparr>, (w', cs @ cs')) \<and> map_inv P m' \<and>
    view_of m' = a_serve (hd p) (rc = 0) (view_of (cache_map c)) \<and>
    (case fst r of
       Some b \<Rightarrow> \<exists>cmd. cs' = [cmd] \<and> block_cmd c p b cmd
     | None \<Rightarrow> \<exists>n fd. 0 < n \<and> cs' = take n (origin_script p fd))"
proof -
  obtain x ps where p: "p = x # ps" using assms(4) by (cases p) (auto simp: request_ok_def)
  have ok: "check_pio x" "length (pio_path x) \<le> MAX_PATH_SIZE"
    using assms(4) p by (simp_all add: request_ok_def)
  obtain m1 where m1: "(if optimizable x then lookup_mapping_with_insert (cache_map c) (pio_path x) (pio_page_index x) 0
        else lookup_mapping (cache_map c) (pio_path x) (pio_page_index x) 0) =
      Some (fst r \<noteq> None, result_block (fst r) 0, m1)" "map_inv P m1" "view_of m1 = snd r"
    using request_lookup_law [OF assms(3) ok(2)] p by (auto simp: r_def)
  let ?c = "c\<lparr>cache_map := m1\<rparr>"
  have same: "v_blocks (snd r) = v_blocks (view_of (cache_map c))"
      "v_shift (snd r) = v_shift (view_of (cache_map c))"
    by (simp_all add: r_def a_request_lookup_def)
  have geo: "cache_geometry ?c"
    using assms(2) same(2) by (simp add: cache_geometry_def view_shift m1(3))
  have cmd: "block_cmd ?c = block_cmd c"
    by (simp add: block_cmd_def fun_eq_iff)
  have sub: "submit_to_target (logged S) c p (w, cs) =
      (if fst r \<noteq> None then map_to_cache (logged S) ?c p (result_block (fst r) 0) (w, cs)
       else map_to_origin (logged S) ?c p (w, cs))"
    using p assms(5) ok(1) m1(1) by (simp add: submit_to_target_def map_pio_def)
  have serve: "a_serve x d (view_of (cache_map c)) = (case fst r of
      Some b \<Rightarrow> if pio_operation x = WRITE \<and> d then a_set_dirty b (snd r) else snd r | None \<Rightarrow> snd r)" for d
    unfolding r_def p list.sel by (simp add: a_serve_def case_prod_beta)
  show ?thesis
  proof (cases "fst r")
    case None
    obtain rc w' n fd where o: "map_to_origin (logged S) ?c p (w, cs) =
        Some (rc, ?c, (w', cs @ take n (origin_script p fd)))" "0 < n"
      using serve_origin [OF assms(4,5), of S ?c w cs] by auto
    have "submit_to_target (logged S) c p (w, cs) = Some (rc, ?c, (w', cs @ take n (origin_script p fd)))"
      using sub o(1) None by simp
    moreover have "view_of m1 = a_serve (hd p) (rc = 0) (view_of (cache_map c))"
      using serve [of "rc = 0"] None m1(3) p by simp
    ultimately show ?thesis using m1(2) None o(2) by auto
  next
    case (Some b)
    have "b < cache_block_num m1"
      using lookup_block_bound [OF assms(3), of x b] Some p same(1) m1(3) view_blocks [of m1]
      by (simp add: r_def view_blocks)
    then obtain rc m' w' cd where s: "map_to_cache (logged S) ?c p b (w, cs) =
        Some (rc, ?c\<lparr>cache_map := m'\<rparr>, (w', cs @ [cd]))" "block_cmd ?c p b cd" "map_inv P m'"
        "view_of m' = (if pio_operation (hd p) = WRITE \<and> rc = 0 then a_set_dirty b (snd r) else snd r)"
      using serve_cache [OF assms(1) geo assms(4,5), of b P w cs] m1(2,3) by auto
    have "submit_to_target (logged S) c p (w, cs) = Some (rc, c\<lparr>cache_map := m'\<rparr>, (w', cs @ [cd]))"
      using sub s(1) Some by simp
    moreover have "view_of m' = a_serve (hd p) (rc = 0) (view_of (cache_map c))"
      using serve [of "rc = 0"] Some s(4) p by simp
    ultimately show ?thesis using s(2,3) Some cmd by auto
  qed
qed

lemma submit_rejected:
  "p \<noteq> [] \<Longrightarrow> \<not> check_pio (hd p) \<Longrightarrow> submit_to_target S c p w = Some (1, c, w)"
  by (cases p) (simp_all add: submit_to_target_def map_pio_def discard_pio_def)

lemma discard_law:
  assumes "map_inv P (cache_map c)" and "p \<noteq> []" and "check_pio (hd p)" and "pio_operation (hd p) = DISCARD"
    and "\<And>b. v_map (view_of (cache_map c)) (pio_key (hd p)) = Some b \<Longrightarrow>
      v_moving (view_of (cache_map c)) b = None"
  defines "r \<equiv> a_remove (pio_key (hd p)) (view_of (cache_map c))"
  shows "\<exists>m'. submit_to_target S c p w = Some (if fst r then 1 else 0, c\<lparr>cache_map := m'\<rparr>, w) \<and>
    map_inv P m' \<and> view_of m' = snd r"
proof -
  obtain x ps where p: "p = x # ps" using assms(2) by (cases p) auto
  have "\<And>b. v_map (view_of (cache_map c)) (pio_path x, to_cache_page_index (pio_page_index x)) = Some b \<Longrightarrow>
      v_moving (view_of (cache_map c)) b = None"
    using assms(5) p by (simp add: pio_key_def)
  from remove_mapping_law [OF assms(1) this] obtain m' where
    "remove_mapping (cache_map c) (pio_path x) (pio_page_index x) = Some (fst r, m')" "map_inv P m'" "view_of m' = snd r"
    using p by (auto simp: r_def pio_key_def)
  then show ?thesis
    using p assms(3,4) by (auto simp: submit_to_target_def discard_pio_def)
qed

end
