(* ===== verification/Target_Spec.thy ===== *)
theory Target_Spec
  imports Target
begin

text \<open>
  The properties of the request path: a request refines the abstract cache, its device command
  stays inside the block that the mapping names, a whole-block write is found by later reads,
  and what the return codes say.
\<close>

subsection \<open>A cache and requests to apply the properties to\<close>

definition small_cache :: cache where
  "small_cache = \<lparr>cache_state = \<lparr>st_running = True, st_count = 1, st_lock = \<lparr>locked = 0\<rparr>\<rparr>,
     cache_dev = \<lparr>dev_block_size = 512, dev_device_size = 2 ^ 30, dev_cache_block_num = 8,
       dev_block_per_cblock_shift = 6, dev_block_per_page_shift = 3\<rparr>,
     cache_map = small_map, mg_worker = 1, wb_worker = 0\<rparr>"

definition sample_page :: "operate \<Rightarrow> u32 \<Rightarrow> u32 \<Rightarrow> pio_node" where
  "sample_page op page cnt = \<lparr>pio_path = ''f'', pio_fd = 3, pio_page_index = page, pio_operation = op,
     pio_buffer = 4096, pio_cnt = cnt\<rparr>"

lemma small_cache_simps [simp]: "cache_map small_cache = small_map"
  by (simp add: small_cache_def)

lemma small_cache_ok: "cache_geometry small_cache"
  by (simp add: cache_geometry_def small_cache_def view_shift small_map_law(2) empty_view_def)

lemma sample_page_simps [simp]:
  "pio_path (sample_page op page cnt) = ''f''" "pio_page_index (sample_page op page cnt) = page"
  "pio_operation (sample_page op page cnt) = op" "pio_cnt (sample_page op page cnt) = cnt"
  "pio_fd (sample_page op page cnt) = 3"
  by (simp_all add: sample_page_def)

text \<open>Page 9 is the second page of cache page 1; pages 8 to 15 are all of it.\<close>

lemma sample_read_ok: "request_ok [sample_page READ 9 1]"
  by (simp add: request_ok_def check_pio_def consts_simps)

lemma sample_write_ok: "request_ok (replicate 8 (sample_page WRITE 8 8))"
  by (simp add: request_ok_def check_pio_def consts_simps numeral_eq_Suc)

lemma a_serve_shift: "v_shift (a_serve x d v) = v_shift v"
  by (cases "fst (a_request_lookup x v)")
     (simp_all add: a_serve_def a_request_lookup_def case_prod_beta a_set_dirty_def)

subsection \<open>Properties\<close>

text \<open>
  C2: a read or write that passes the check returns on a device that answers, keeps the
  invariant, and does to the mapping what the abstract request does: a lookup, or for a whole-block
  write the lookup that inserts, and the dirty mark if the device accepted a write. A hit sends the
  one vectored command of its block, a miss only commands to the file, and nothing else is sent.
\<close>

theorem submit_refines:
  assumes "answers S" and "cache_geometry c" and "map_inv P (cache_map c)"
    and "request_ok p" and "pio_operation (hd p) \<noteq> DISCARD"
  shows "\<exists>rc m' w' cs'. submit_to_target (logged S) c p (w, cs) =
      Some (rc, c\<lparr>cache_map := m'\<rparr>, (w', cs @ cs')) \<and> map_inv P m' \<and>
    view_of m' = a_serve (hd p) (rc = 0) (view_of (cache_map c)) \<and>
    (case fst (a_request_lookup (hd p) (view_of (cache_map c))) of
       Some b \<Rightarrow> \<exists>cmd. cs' = [cmd] \<and> block_cmd c p b cmd
     | None \<Rightarrow> \<exists>n fd. 0 < n \<and> cs' = take n (origin_script p fd))"
  by (rule submit_law [OF assms])

theorem submit_refines_witness:
  "\<exists>rc m w fd n. submit_to_target (logged fifo_device) small_cache [sample_page READ 9 1] (idle_device, []) =
      Some (rc, small_cache\<lparr>cache_map := m\<rparr>, (w, take n (origin_script [sample_page READ 9 1] fd))) \<and>
    v_misses (view_of m) = 1"
proof -
  have inv: "map_inv {} (cache_map small_cache)" by (simp add: small_map_law)
  have op: "pio_operation (hd [sample_page READ 9 1]) \<noteq> DISCARD" by simp
  have look: "a_request_lookup (sample_page READ 9 1) (empty_view 8 6) =
      (None, a_request (pio_key (sample_page READ 9 1)) (a_miss (empty_view 8 6)))"
    by (simp add: a_request_lookup_def optimizable_def a_lookup_def empty_view_def)
  have miss: "v_misses (a_request k (a_miss (empty_view 8 6))) = 1" for k
    by (simp add: a_request_def a_miss_def empty_view_def)
  obtain rc m w n fd where "submit_to_target (logged fifo_device) small_cache [sample_page READ 9 1] (idle_device, []) =
      Some (rc, small_cache\<lparr>cache_map := m\<rparr>, (w, take n (origin_script [sample_page READ 9 1] fd)))"
      "view_of m = a_serve (sample_page READ 9 1) (rc = 0) (empty_view 8 6)"
    using submit_refines [OF fifo_answers small_cache_ok inv sample_read_ok op, of idle_device "[]"] look
    by (auto simp: small_map_law(2))
  moreover from this(2) have "v_misses (view_of m) = 1" by (simp add: a_serve_def look miss)
  ultimately show ?thesis by blast
qed

text \<open>
  The one device command of a request that hits (or is given) block \<open>b\<close> reads or writes
  only device blocks of \<open>b\<close>: requests served by different cache blocks never touch the same device
  block, and none reaches past the end of its block.
\<close>

theorem hit_stays_in_block:
  assumes "answers S" and "cache_geometry c" and "map_inv P (cache_map c)"
    and "request_ok p" and "pio_operation (hd p) \<noteq> DISCARD"
    and "fst (a_request_lookup (hd p) (view_of (cache_map c))) = Some b"
  shows "\<exists>rc c' w' req off n. submit_to_target (logged S) c p (w, cs) = Some (rc, c', (w', cs @
      [(if pio_operation (hd p) = READ then NsReadv else NsWritev) IO_QUEUE req off n])) \<and>
    unat b * 2 ^ (unat (dev_block_per_page_shift (cache_dev c)) + 3) \<le> unat off \<and>
    unat off + unat n \<le> (unat b + 1) * 2 ^ (unat (dev_block_per_page_shift (cache_dev c)) + 3)"
proof -
  let ?s = "unat (dev_block_per_page_shift (cache_dev c))" and ?x = "hd p"
  let ?page = "unat (pio_page_index ?x AND 7)" and ?k = "unat (pio_cnt ?x)"
  obtain rc c' w' cmd where r: "submit_to_target (logged S) c p (w, cs) = Some (rc, c', (w', cs @ [cmd]))"
      "block_cmd c p b cmd"
    using submit_law [OF assms(1-5), of w cs] assms(6) by auto
  obtain off n where cmd: "cmd = (if pio_operation ?x = READ then NsReadv else NsWritev)
        IO_QUEUE (init_req stack_req (pio_vec p) (uint (pio_cnt ?x))) off n"
      "unat off = (unat b * 8 + ?page) * 2 ^ ?s" "unat n = ?k * 2 ^ ?s"
    using r(2) unfolding block_cmd_def by blast
  have fits: "?page + ?k \<le> 8"
    using assms(4) by (simp add: request_ok_def check_pio_law)
  have "unat off + unat n = (unat b * 8 + (?page + ?k)) * 2 ^ ?s"
    by (simp add: cmd(2,3) add_mult_distrib)
  also have "\<dots> \<le> (unat b * 8 + 8) * 2 ^ ?s"
    using fits by (intro mult_le_mono1) simp
  finally have "unat off + unat n \<le> (unat b + 1) * 2 ^ (?s + 3)"
    by (simp add: power_add algebra_simps)
  moreover have "unat b * 2 ^ (?s + 3) \<le> unat off"
    by (simp add: cmd(2) power_add algebra_simps)
  ultimately show ?thesis using r(1) unfolding cmd(1) by blast
qed

theorem hit_stays_in_block_witness:
  "\<exists>rc c w req off n. submit_to_target (logged fifo_device) small_cache (replicate 8 (sample_page WRITE 8 8)) (idle_device, []) =
      Some (rc, c, (w, [NsWritev IO_QUEUE req off n])) \<and> unat off + unat n \<le> 64"
proof -
  let ?p = "replicate 8 (sample_page WRITE 8 8)"
  have hd: "hd ?p = sample_page WRITE 8 8" by (simp add: numeral_eq_Suc)
  have inv: "map_inv {} (cache_map small_cache)" by (simp add: small_map_law)
  have op: "pio_operation (hd ?p) \<noteq> DISCARD" by (simp add: hd)
  have look: "fst (a_request_lookup (hd ?p) (view_of (cache_map small_cache))) = Some 0"
    using small_free [of 6]
    by (simp add: hd a_request_lookup_def optimizable_def overwritable_def a_insert_def held_back_def small_map_law(2))
      (simp add: empty_view_def)
  have s: "dev_block_per_page_shift (cache_dev small_cache) = 3" by (simp add: small_cache_def)
  from hit_stays_in_block [OF fifo_answers small_cache_ok inv sample_write_ok op look, of idle_device "[]"]
  show ?thesis unfolding s hd by auto
qed

text \<open>
  A write of a whole cache page that the mapping did not know takes the oldest free
  block, and a later read of any page of that cache page is served by the device from the same
  block, with no command to the file in between.
\<close>

theorem write_then_read_hits:
  assumes "answers S" and "cache_geometry c" and "map_inv P (cache_map c)"
    and "request_ok p" and "optimizable (hd p)" and "v_map (view_of (cache_map c)) (pio_key (hd p)) = None"
    and "\<not> held_back (pio_key (hd p)) (v_work (view_of (cache_map c)))" and "v_free (view_of (cache_map c)) = b # F"
    and "request_ok q" and "pio_operation (hd q) = READ" and "pio_key (hd q) = pio_key (hd p)"
  shows "\<exists>rc c1 w1 rc' c2 w2 cmd1 cmd2. submit_to_target (logged S) c p (w, cs) = Some (rc, c1, (w1, cs @ [cmd1])) \<and>
    block_cmd c p b cmd1 \<and>
    submit_to_target (logged S) c1 q (w1, cs @ [cmd1]) = Some (rc', c2, (w2, cs @ [cmd1, cmd2])) \<and>
    block_cmd c1 q b cmd2"
proof -
  let ?v = "view_of (cache_map c)" and ?k = "pio_key (hd p)"
  have ops: "pio_operation (hd p) \<noteq> DISCARD" "pio_operation (hd q) \<noteq> DISCARD" "\<not> optimizable (hd q)"
    using assms(5,10) by (auto simp: optimizable_def)
  let ?v1 = "(a_miss ?v)\<lparr>v_free := F, v_dirty := v_dirty ?v @ [b], v_key := (v_key ?v)(b \<mapsto> ?k), v_map := (v_map ?v)(?k \<mapsto> b)\<rparr>"
  have look: "a_request_lookup (hd p) ?v = (Some b, ?v1)"
    using assms(5-8) by (simp add: a_request_lookup_def a_insert_def)
  obtain rc m1 w1 cmd1 where 1: "submit_to_target (logged S) c p (w, cs) = Some (rc, c\<lparr>cache_map := m1\<rparr>, (w1, cs @ [cmd1]))"
      "map_inv P m1" "view_of m1 = a_serve (hd p) (rc = 0) ?v" "block_cmd c p b cmd1"
    using submit_law [OF assms(1-4) ops(1), of w cs] look by auto
  let ?c1 = "c\<lparr>cache_map := m1\<rparr>"
  have v1: "v_map (view_of m1) ?k = Some b" "v_shift (view_of m1) = v_shift ?v"
    by (simp_all add: 1(3) a_serve_def look a_set_dirty_def a_miss_def)
  have look2: "fst (a_request_lookup (hd q) (view_of m1)) = Some b"
    using ops(3) v1(1) assms(11) by (simp add: a_request_lookup_def a_lookup_def)
  have geo: "cache_geometry ?c1"
    using assms(2) v1(2) by (simp add: cache_geometry_def view_shift)
  have inv: "map_inv P (cache_map ?c1)" using 1(2) by simp
  obtain rc' c2 w2 cmd2 where "submit_to_target (logged S) ?c1 q (w1, cs @ [cmd1]) = Some (rc', c2, (w2, (cs @ [cmd1]) @ [cmd2]))"
      "block_cmd ?c1 q b cmd2"
    using submit_law [OF assms(1) geo inv assms(9) ops(2), of w1 "cs @ [cmd1]"] look2 by auto
  then have "submit_to_target (logged S) ?c1 q (w1, cs @ [cmd1]) = Some (rc', c2, (w2, cs @ [cmd1, cmd2]))"
    by simp
  with 1(1,4) \<open>block_cmd ?c1 q b cmd2\<close> show ?thesis by blast
qed

theorem write_then_read_hits_witness:
  "\<exists>rc c1 w1 rc' c2 w2 cmd1 cmd2. submit_to_target (logged fifo_device) small_cache
      (replicate 8 (sample_page WRITE 8 8)) (idle_device, []) = Some (rc, c1, (w1, [cmd1])) \<and>
    submit_to_target (logged fifo_device) c1 [sample_page READ 9 1] (w1, [cmd1]) = Some (rc', c2, (w2, [cmd1, cmd2])) \<and>
    block_cmd c1 [sample_page READ 9 1] 0 cmd2"
proof -
  let ?p = "replicate 8 (sample_page WRITE 8 8)" and ?q = "[sample_page READ 9 1]"
  have hd: "hd ?p = sample_page WRITE 8 8" by (simp add: numeral_eq_Suc)
  have inv: "map_inv {} (cache_map small_cache)" by (simp add: small_map_law)
  have opt: "optimizable (hd ?p)" by (simp add: hd optimizable_def overwritable_def)
  have new: "v_map (view_of (cache_map small_cache)) (pio_key (hd ?p)) = None"
      "\<not> held_back (pio_key (hd ?p)) (v_work (view_of (cache_map small_cache)))"
    by (simp_all add: small_map_law(2) held_back_def) (simp_all add: empty_view_def)
  have free: "v_free (view_of (cache_map small_cache)) = 0 # [1, 2, 3, 4, 5, 6, 7]"
    by (simp add: small_map_law(2) small_free)
  have read: "pio_operation (hd ?q) = READ" "pio_key (hd ?q) = pio_key (hd ?p)"
    unfolding hd by (simp_all add: pio_key_def to_cache_page_index_def drop_bit_eq_div)
  from write_then_read_hits [OF fifo_answers small_cache_ok inv sample_write_ok opt new free sample_read_ok read, of idle_device "[]"]
  show ?thesis by auto
qed

text \<open>
  A request that would run over the end of its cache page is refused, with return
  code 1, whatever its operation, before the mapping, the device or the file is touched.
\<close>

theorem crossing_request_refused:
  assumes "p \<noteq> []" and "8 < unat (pio_page_index (hd p) AND 7) + unat (pio_cnt (hd p))"
  shows "submit_to_target S c p w = Some (1, c, w)"
  using assms check_pio_law [of "hd p"] by (intro submit_rejected) simp_all

theorem crossing_request_refused_witness:
  "submit_to_target fifo_device small_cache [sample_page WRITE 15 2] idle_device = Some (1, small_cache, idle_device)"
  by (rule crossing_request_refused) simp_all

text \<open>
  C39: a discard of a page whose block is not in transit removes the whole cache page from the
  mapping, sends no command, and returns 1 when it removed something and 0 when the page was not
  cached.
\<close>

theorem discard_refines:
  assumes "map_inv P (cache_map c)" and "p \<noteq> []" and "check_pio (hd p)" and "pio_operation (hd p) = DISCARD"
    and "\<forall>b. v_map (view_of (cache_map c)) (pio_key (hd p)) = Some b \<longrightarrow> v_moving (view_of (cache_map c)) b = None"
  shows "\<exists>m'. submit_to_target S c p w =
      Some (if fst (a_remove (pio_key (hd p)) (view_of (cache_map c))) then 1 else 0, c\<lparr>cache_map := m'\<rparr>, w) \<and>
    map_inv P m' \<and> view_of m' = snd (a_remove (pio_key (hd p)) (view_of (cache_map c)))"
  by (rule discard_law [OF assms(1-4)]) (rule assms(5) [THEN spec, THEN mp])

theorem discard_refines_witness:
  "\<exists>m c m'. lookup_mapping_with_insert small_map ''f'' 8 0 = Some (True, 0, m) \<and> c = small_cache\<lparr>cache_map := m\<rparr> \<and>
    submit_to_target fifo_device c [sample_page DISCARD 12 1] idle_device = Some (1, c\<lparr>cache_map := m'\<rparr>, idle_device) \<and>
    v_map (view_of m') (''f'', 1) = None"
proof -
  obtain m where m: "lookup_mapping_with_insert small_map ''f'' 8 0 = Some (True, 0, m)" "map_inv {} m"
      "view_of m = (empty_view 8 6)\<lparr>v_free := [1, 2, 3, 4, 5, 6, 7], v_dirty := [0], v_misses := 1,
      v_key := [0 \<mapsto> (''f'', 1)], v_map := [(''f'', 1) \<mapsto> 0]\<rparr>"
    using small_insert by blast
  let ?c = "small_cache\<lparr>cache_map := m\<rparr>" and ?p = "[sample_page DISCARD 12 1]"
  have k: "pio_key (hd ?p) = (''f'', 1)" by (simp add: pio_key_def to_cache_page_index_def drop_bit_eq_div)
  have inv: "map_inv {} (cache_map ?c)" using m(2) by simp
  have ok: "?p \<noteq> []" "check_pio (hd ?p)" "pio_operation (hd ?p) = DISCARD" by (simp_all add: check_pio_def)
  have still: "\<forall>b. v_map (view_of (cache_map ?c)) (pio_key (hd ?p)) = Some b \<longrightarrow> v_moving (view_of (cache_map ?c)) b = None"
    unfolding k by (simp add: m(3) empty_view_def)
  have removed: "fst (a_remove (''f'', 1) (view_of m))" "v_map (snd (a_remove (''f'', 1) (view_of m))) (''f'', 1) = None"
    by (simp_all add: m(3) a_remove_def)
  obtain m' where m': "submit_to_target fifo_device ?c ?p idle_device =
      Some (if fst (a_remove (''f'', 1) (view_of m)) then 1 else 0, ?c\<lparr>cache_map := m'\<rparr>, idle_device)"
      "view_of m' = snd (a_remove (''f'', 1) (view_of m))"
    using discard_refines [OF inv ok still, of fifo_device idle_device] unfolding k by auto
  have "submit_to_target fifo_device ?c ?p idle_device = Some (1, ?c\<lparr>cache_map := m'\<rparr>, idle_device)" "v_map (view_of m') (''f'', 1) = None"
    using m' removed by simp_all
  with m(1) show ?thesis by blast
qed

text \<open>
  When the file is served through an open descriptor and the kernel transfers at
  least one byte, the request returns 1: success looks like the failures.
\<close>

theorem origin_success_is_one:
  assumes "request_ok p" and "pio_operation (hd p) \<noteq> DISCARD" and "pio_fd (hd p) \<noteq> 0"
    and "0 < fst (submit S (hd (origin_script p 0)) w)"
  shows "map_to_origin S c p w = Some (1, c, snd (submit S (hd (origin_script p 0)) w))"
proof -
  obtain x ps where p: "p = x # ps" using assms(1) by (cases p) (auto simp: request_ok_def)
  note vec = request_vec [OF assms(1), unfolded p list.sel]
  show ?thesis
    using assms(3,4) by (cases "pio_operation x = READ")
      (simp_all add: map_to_origin_def p read_origin_def write_origin_def vec(1,2)
        origin_script_def case_prod_beta Let_def)
qed

theorem origin_success_is_one_witness:
  "map_to_origin \<lparr>submit = (\<lambda>c w. (4096, w)), poll = (\<lambda>q w. ([], w))\<rparr> small_cache [sample_page READ 9 1] () =
    Some (1, small_cache, ())"
  using origin_success_is_one [OF sample_read_ok, of "\<lparr>submit = (\<lambda>c w. (4096, w)), poll = (\<lambda>q w. ([], w))\<rparr>" "()" small_cache]
  by simp

end
