(* ===== verification/Cache_Api.thy ===== *)
theory Cache_Api
  imports Target_Spec
begin

text \<open>
  The life of the shared cache: the NVMe controller of \<^verbatim>\<open>lib/spdk.c\<close>, the shared memory of
  \<^verbatim>\<open>lib/shm.c\<close>, and the operations of \<^verbatim>\<open>lib/ssd_cache_api.c\<close> by which an administrator
  creates the cache and users join and leave. What the operating system and the NVMe driver
  answer is the parameter \<open>platform\<close>.
\<close>

subsection \<open>The controller\<close>

record nvme_ns =
  ns_active :: bool
  ns_sector_size :: u32
  ns_size :: u64

record controller =
  traddr :: cstring
  namespaces :: "nvme_ns option list"

text \<open>\<open>target\<close> of \<^verbatim>\<open>lib/spdk.c\<close>; \<open>qpairs\<close> lists whether each queue pair was allocated.\<close>

record ctrlr_entry =
  t_ctrlr :: "controller option"
  t_ns :: "nvme_ns option"
  t_qpairs :: "bool list"
  isfind :: bool

definition NVME_ADDR :: cstring where
  "NVME_ADDR = ''0000:04:00.0''"

definition reset_ctrlr_and_ns :: ctrlr_entry where
  "reset_ctrlr_and_ns = \<lparr>t_ctrlr = None, t_ns = None, t_qpairs = [], isfind = False\<rparr>"

definition register_ns :: "ctrlr_entry \<Rightarrow> nvme_ns \<Rightarrow> ctrlr_entry" where
  "register_ns t ns = (if \<not> ns_active ns then t else t\<lparr>t_ns := Some ns, isfind := True\<rparr>)"

text \<open>The loop over the active namespaces: null ones are passed over, the first other one ends it.\<close>

fun first_ns :: "nvme_ns option list \<Rightarrow> nvme_ns option" where
  "first_ns [] = None"
| "first_ns (None # ns) = first_ns ns"
| "first_ns (Some n # ns) = Some n"

definition attach_cb :: "controller \<Rightarrow> ctrlr_entry \<Rightarrow> ctrlr_entry" where
  "attach_cb c t =
     (if \<not> strcmp_zero (traddr c) NVME_ADDR then t
      else (case first_ns (namespaces c) of
          None \<Rightarrow> t\<lparr>t_ctrlr := Some c\<rparr>
        | Some ns \<Rightarrow> register_ns (t\<lparr>t_ctrlr := Some c\<rparr>) ns))"

record platform =
  shm_open_ok :: bool
  ftruncate_ok :: bool
  mmap_ok :: bool
  munmap_ok :: bool
  env_init_rc :: int
  probe_rc :: int
  probed :: "controller list"
  qpair_ok :: "nat \<Rightarrow> bool"
  thread_id :: u64
  thread_rc :: int
  join_rc :: int
  mg_buffer :: addr

text \<open>
  \<open>thread_id\<close> is what \<open>pthread_create\<close> leaves in the word it is given, also when it fails and the
  word is arbitrary. \<open>mg_buffer\<close> is the buffer that the worker's \<open>alloc_dma_buffer\<close> returned.
\<close>

text \<open>\<open>create_qpair\<close> for each queue type, in a fresh array of \<open>QPAIR_COUNT\<close>.\<close>

definition create_qpairs :: "platform \<Rightarrow> ctrlr_entry \<Rightarrow> ctrlr_entry" where
  "create_qpairs E t = t\<lparr>t_qpairs := map (qpair_ok E) [0..<unat QPAIR_COUNT]\<rparr>"

definition init_spdk :: "platform \<Rightarrow> ctrlr_entry \<Rightarrow> int \<times> ctrlr_entry" where
  "init_spdk E t =
     (if env_init_rc E < 0 then (1, t)
      else (let t = reset_ctrlr_and_ns in
        if probe_rc E \<noteq> 0 then (1, fold attach_cb (probed E) t)
        else (let t = fold attach_cb (probed E) t in
          if \<not> isfind t then (1, t) else (0, create_qpairs E t))))"

definition exit_spdk :: "ctrlr_entry \<Rightarrow> ctrlr_entry" where
  "exit_spdk t = (if \<not> isfind t then t else reset_ctrlr_and_ns)"

definition get_device_info :: "ctrlr_entry \<Rightarrow> u32 \<Rightarrow> u64 \<Rightarrow> u32 \<times> u64" where
  "get_device_info t bsize dsize =
     (if \<not> isfind t then (bsize, dsize)
      else (case t_ns t of None \<Rightarrow> (bsize, dsize) | Some ns \<Rightarrow> (ns_sector_size ns, ns_size ns)))"

subsection \<open>Shared memory\<close>

text \<open>New shared memory is zero.\<close>

definition zero_cache :: cache where
  "zero_cache = \<lparr>cache_state = \<lparr>st_running = False, st_count = 0, st_lock = \<lparr>locked = 0\<rparr>\<rparr>,
     cache_dev = \<lparr>dev_block_size = 0, dev_device_size = 0, dev_cache_block_num = 0,
       dev_block_per_cblock_shift = 0, dev_block_per_page_shift = 0\<rparr>,
     cache_map = zero_mapping, mg_worker = 0, wb_worker = 0\<rparr>"

text \<open>The shared memory objects and the one that the name \<open>/udm_cache\<close> stands for.\<close>

record shm =
  shm_objs :: "nat \<Rightarrow> cache"
  shm_name :: "nat option"
  shm_next :: nat

definition alloc_shm :: "platform \<Rightarrow> shm \<Rightarrow> nat option \<times> shm" where
  "alloc_shm E s =
     (if \<not> shm_open_ok E then (None, s)
      else (let (i, s) = (case shm_name s of
            Some i \<Rightarrow> (i, s)
          | None \<Rightarrow> (shm_next s, s\<lparr>shm_objs := (shm_objs s)(shm_next s := zero_cache),
              shm_name := Some (shm_next s), shm_next := shm_next s + 1\<rparr>))
        in if \<not> ftruncate_ok E then (None, s)
           else if \<not> mmap_ok E then (None, s) else (Some i, s)))"

definition link_shm :: "platform \<Rightarrow> shm \<Rightarrow> nat option" where
  "link_shm E s = (if \<not> shm_open_ok E then None else case shm_name s of
     None \<Rightarrow> None
   | Some i \<Rightarrow> if \<not> mmap_ok E then None else Some i)"

definition unmap_shm :: "platform \<Rightarrow> int" where
  "unmap_shm E = (if munmap_ok E then 0 else 1)"

definition unlink_shm :: "shm \<Rightarrow> int \<times> shm" where
  "unlink_shm s = (case shm_name s of None \<Rightarrow> (1, s) | Some _ \<Rightarrow> (0, s\<lparr>shm_name := None\<rparr>))"

subsection \<open>The operations\<close>

text \<open>What one process keeps: its pointer to the cache and its controller.\<close>

record process =
  shared_cache :: "nat option"
  proc_target :: ctrlr_entry

definition put_cache :: "nat \<Rightarrow> cache \<Rightarrow> shm \<Rightarrow> shm" where
  "put_cache i c s = s\<lparr>shm_objs := (shm_objs s)(i := c)\<rparr>"

subsubsection \<open>The worker thread\<close>

text \<open>
  One pass through the loop of the worker thread: whether it did a work, and otherwise
  whether it reached the cancellation point \<open>pthread_testcancel\<close>.
\<close>

definition migration_pass :: "'w driver \<Rightarrow> mapping \<Rightarrow> addr \<Rightarrow> 'w \<Rightarrow> (bool \<times> bool \<times> mapping \<times> 'w) option" where
  "migration_pass S m dma_buf w = do {
     (worked, m, w) \<leftarrow> do_migration_work S m dma_buf w;
     if worked then Some (True, False, m, w)
     else do {
       (idle, q) \<leftarrow> is_empty (m_wq m);
       Some (False, idle, m\<lparr>m_wq := q\<rparr>, w)
     }
   }"

text \<open>
  The endless loop of the thread. \<open>users n\<close> is what users do to the mapping before pass \<open>n\<close>,
  \<open>cancelled n\<close> says whether the cancel request is there when pass \<open>n\<close> looks for it.
\<close>

partial_function (option) migration :: "'w driver \<Rightarrow> (nat \<Rightarrow> mapping \<Rightarrow> mapping) \<Rightarrow> (nat \<Rightarrow> bool) \<Rightarrow> addr \<Rightarrow> nat \<Rightarrow>
    mapping \<Rightarrow> 'w \<Rightarrow> (mapping \<times> 'w) option" where
  "migration S users cancelled dma_buf n m w = do {
     (worked, idle, m, w) \<leftarrow> migration_pass S (users n m) dma_buf w;
     if \<not> worked \<and> idle \<and> cancelled n then Some (m, w)
     else migration S users cancelled dma_buf (n + 1) m w
   }"

definition wakeup_mg_worker :: "platform \<Rightarrow> cache option \<Rightarrow> int \<times> cache option" where
  "wakeup_mg_worker E ptr = (case ptr of
     None \<Rightarrow> (1, None)
   | Some c \<Rightarrow> if mg_worker c \<noteq> 0 then (1, Some c) else (thread_rc E, Some (c\<lparr>mg_worker := thread_id E\<rparr>)))"

text \<open>
  \<open>pthread_join\<close> waits for the worker: with the cancel request there, its loop goes on until it
  reaches \<open>pthread_testcancel\<close>, and the call does not return when it never does. A join that fails
  returns at once.
\<close>

definition shutdown_mg_worker :: "'w driver \<Rightarrow> platform \<Rightarrow> (nat \<Rightarrow> mapping \<Rightarrow> mapping) \<Rightarrow> cache option \<Rightarrow> 'w \<Rightarrow>
    (int \<times> cache option \<times> 'w) option" where
  "shutdown_mg_worker S E users ptr w = (case ptr of
     None \<Rightarrow> Some (1, None, w)
   | Some c \<Rightarrow>
       if mg_worker c = 0 then Some (1, Some c, w)
       else do {
         (m, w) \<leftarrow> (if join_rc E \<noteq> 0 then Some (cache_map c, w)
           else migration S users (\<lambda>n. True) (mg_buffer E) 0 (cache_map c) w);
         Some (join_rc E, Some (c\<lparr>cache_map := m, mg_worker := 0\<rparr>), w)
       })"

text \<open>The device part of the cache; a sector size of 0 divides by zero.\<close>

definition build_device :: "ctrlr_entry \<Rightarrow> cache \<Rightarrow> cache option" where
  "build_device t c = do {
     (bs, ds) \<leftarrow> Some (get_device_info t (dev_block_size (cache_dev c)) (dev_device_size (cache_dev c)));
     ensure (bs \<noteq> 0);
     Some (c\<lparr>cache_dev := (cache_dev c)\<lparr>dev_block_size := bs, dev_device_size := ds,
       dev_cache_block_num := CACHE_BLOCK_NUMBER,
       dev_block_per_cblock_shift := of_int (LOG2 (CACHE_BLOCK_SIZE div bs)),
       dev_block_per_page_shift := of_int (LOG2 (PAGE_SIZE div bs))\<rparr>\<rparr>)
   }"

definition build_cache :: "platform \<Rightarrow> ctrlr_entry \<Rightarrow> cache \<Rightarrow> (int \<times> cache) option" where
  "build_cache E t c = do {
     c \<leftarrow> build_device t c;
     if dev_device_size (cache_dev c) < ucast CACHE_BLOCK_NUMBER * ucast CACHE_BLOCK_SIZE then Some (1, c)
     else do {
       (rc, m) \<leftarrow> init_mapping (cache_map c) (dev_block_size (cache_dev c)) (dev_cache_block_num (cache_dev c));
       c \<leftarrow> Some (c\<lparr>cache_map := m\<rparr>);
       if rc \<noteq> 0 then Some (1, c)
       else do {
         c \<leftarrow> snd (wakeup_mg_worker E (Some c));
         c \<leftarrow> Some (c\<lparr>cache_state := (cache_state c)\<lparr>st_lock := spinlock_init (st_lock (cache_state c))\<rparr>\<rparr>);
         c \<leftarrow> Some (c\<lparr>cache_state := (cache_state c)\<lparr>st_running := True\<rparr>\<rparr>);
         c \<leftarrow> Some (c\<lparr>cache_state := (cache_state c)\<lparr>st_count := 0\<rparr>\<rparr>);
         Some (0, c)
       }
     }
   }"

definition init_ssd_cache :: "platform \<Rightarrow> process \<Rightarrow> shm \<Rightarrow> (int \<times> process \<times> shm) option" where
  "init_ssd_cache E p s = (let (ptr, s) = alloc_shm E s; p = p\<lparr>shared_cache := ptr\<rparr> in
     case ptr of
       None \<Rightarrow> Some (1, p, s)
     | Some i \<Rightarrow>
         if st_running (cache_state (shm_objs s i)) then Some (1, p, s)
         else (let (rc, t) = init_spdk E (proc_target p); p = p\<lparr>proc_target := t\<rparr> in
           if rc \<noteq> 0 then Some (1, p, s)
           else do {
             (rc, c) \<leftarrow> build_cache E t (shm_objs s i);
             Some (rc, p, put_cache i c s)
           }))"

text \<open>The critical sections on the user count.\<close>

definition count_step :: "(u32 \<Rightarrow> u32) \<Rightarrow> cache \<Rightarrow> cache option" where
  "count_step f c = do {
     l \<leftarrow> spinlock_lock (st_lock (cache_state c));
     c \<leftarrow> Some (c\<lparr>cache_state := (cache_state c)\<lparr>st_lock := l\<rparr>\<rparr>);
     c \<leftarrow> Some (c\<lparr>cache_state := (cache_state c)\<lparr>st_count := f (st_count (cache_state c))\<rparr>\<rparr>);
     Some (c\<lparr>cache_state := (cache_state c)\<lparr>st_lock := spinlock_unlock (st_lock (cache_state c))\<rparr>\<rparr>)
   }"

definition link_ssd_cache :: "platform \<Rightarrow> process \<Rightarrow> shm \<Rightarrow> (int \<times> process \<times> shm) option" where
  "link_ssd_cache E p s = (let ptr = link_shm E s; p = p\<lparr>shared_cache := ptr\<rparr> in
     case ptr of
       None \<Rightarrow> Some (1, p, s)
     | Some i \<Rightarrow>
         if \<not> st_running (cache_state (shm_objs s i)) then Some (1, p, s)
         else (let (rc, t) = init_spdk E (proc_target p); p = p\<lparr>proc_target := t\<rparr> in
           if rc \<noteq> 0 then Some (1, p, s)
           else do {
             c \<leftarrow> count_step (\<lambda>n. n + 1) (shm_objs s i);
             Some (0, p, put_cache i c s)
           }))"

definition unlink_ssd_cache :: "platform \<Rightarrow> process \<Rightarrow> shm \<Rightarrow> (int \<times> process \<times> shm) option" where
  "unlink_ssd_cache E p s = (case shared_cache p of
     None \<Rightarrow> Some (1, p, s)
   | Some i \<Rightarrow>
       if \<not> st_running (cache_state (shm_objs s i)) then Some (1, p, s)
       else do {
         p \<leftarrow> Some (p\<lparr>proc_target := exit_spdk (proc_target p)\<rparr>);
         c \<leftarrow> count_step (\<lambda>n. n - 1) (shm_objs s i);
         s \<leftarrow> Some (put_cache i c s);
         if unmap_shm E \<noteq> 0 then Some (1, p, s)
         else Some (0, p\<lparr>shared_cache := None\<rparr>, s)
       })"

text \<open>
  The waiting loop of \<open>exit_ssd_cache\<close>; \<open>others\<close> is what the other processes do to the
  cache in the second that it sleeps.
\<close>

partial_function (option) exit_wait :: "(cache \<Rightarrow> cache) \<Rightarrow> cache \<Rightarrow> cache option" where
  "exit_wait others c = do {
     l \<leftarrow> spinlock_lock (st_lock (cache_state c));
     c \<leftarrow> Some (c\<lparr>cache_state := (cache_state c)\<lparr>st_lock := l\<rparr>\<rparr>);
     if st_count (cache_state c) \<le> 0
     then Some (c\<lparr>cache_state := (cache_state c)\<lparr>st_lock := spinlock_unlock (st_lock (cache_state c))\<rparr>\<rparr>)
     else exit_wait others (others
       (c\<lparr>cache_state := (cache_state c)\<lparr>st_lock := spinlock_unlock (st_lock (cache_state c))\<rparr>\<rparr>))
   }"

definition exit_ssd_cache :: "'w driver \<Rightarrow> platform \<Rightarrow> (cache \<Rightarrow> cache) \<Rightarrow> (nat \<Rightarrow> mapping \<Rightarrow> mapping) \<Rightarrow>
    process \<Rightarrow> shm \<Rightarrow> 'w \<Rightarrow> (int \<times> process \<times> shm \<times> 'w) option" where
  "exit_ssd_cache S E others users p s w = (case shared_cache p of
     None \<Rightarrow> Some (1, p, s, w)
   | Some i \<Rightarrow>
       if \<not> st_running (cache_state (shm_objs s i)) then Some (1, p, s, w)
       else do {
         c \<leftarrow> exit_wait others (shm_objs s i);
         (_, ptr, w) \<leftarrow> shutdown_mg_worker S E users (Some c) w;
         c \<leftarrow> ptr;
         s \<leftarrow> Some (put_cache i c s);
         p \<leftarrow> Some (p\<lparr>proc_target := exit_spdk (proc_target p)\<rparr>);
         if unmap_shm E \<noteq> 0 then Some (1, p, s, w)
         else (let (rc, s) = unlink_shm s in
           if rc \<noteq> 0 then Some (1, p, s, w) else Some (0, p\<lparr>shared_cache := None\<rparr>, s, w))
       })"

definition force_exit_ssd_cache :: "'w driver \<Rightarrow> platform \<Rightarrow> (nat \<Rightarrow> mapping \<Rightarrow> mapping) \<Rightarrow> process \<Rightarrow> shm \<Rightarrow> 'w \<Rightarrow>
    (process \<times> shm \<times> 'w) option" where
  "force_exit_ssd_cache S E users p s w = do {
     (_, ptr, w) \<leftarrow> shutdown_mg_worker S E users (map_option (shm_objs s) (shared_cache p)) w;
     s \<leftarrow> Some (case (shared_cache p, ptr) of (Some i, Some c) \<Rightarrow> put_cache i c s | _ \<Rightarrow> s);
     Some (p, snd (unlink_shm s), w)
   }"

definition submit_pio :: "'w driver \<Rightarrow> process \<Rightarrow> shm \<Rightarrow> pio \<Rightarrow> 'w \<Rightarrow> (int \<times> shm \<times> 'w) option" where
  "submit_pio S p s io w = (case shared_cache p of
     None \<Rightarrow> Some (1, s, w)
   | Some i \<Rightarrow>
       if \<not> st_running (cache_state (shm_objs s i)) then Some (1, s, w)
       else if io = [] then Some (1, s, w)
       else do {
         (rc, c, w) \<leftarrow> submit_to_target S (shm_objs s i) io w;
         Some (rc, put_cache i c s, w)
       })"

end
