(* ===== verification/System.thy ===== *)
theory System
  imports Cache_Api
begin

text \<open>
  Users and the migration worker on one mapping, interleaved. Every operation of the mapping
  and of the work queue is a critical section, so one step of the system is one such operation
  by somebody. The worker's phase says where it stands in \<open>do_migration_work\<close>: between two of its
  operations, users may call anything. \<open>permitted\<close> says which calls respect what the code relies
  on without checking it; as long as users make only those, \<open>sys_inv\<close> holds in every reachable
  state, and from it every operation returns.
\<close>

subsection \<open>Steps\<close>

datatype phase =
    Idle
  | Peeked work
  | NoFree work
  | NoClean work
  | Moving mg_type u32 work
  | Finishing work

record sys =
  s_map :: mapping
  s_phase :: phase

definition sys_start :: "sys \<Rightarrow> bool" where
  "sys_start s \<longleftrightarrow> map_inv {} (s_map s) \<and>
     (\<exists>n sh. view_of (s_map s) = empty_view n sh) \<and> s_phase s = Idle"

text \<open>A step carries a label: the operation of the mapping that a user calls, or that the worker acts.\<close>

datatype sys_op =
    Lookup cstring u32
  | Insert cstring u32
  | Discard cstring u32
  | Written u32
  | By_worker

inductive sys_step :: "sys_op \<Rightarrow> sys \<Rightarrow> sys \<Rightarrow> bool" where
  lookup: "lookup_mapping (s_map s) p i cb = Some (r, cb', m) \<Longrightarrow> sys_step (Lookup p i) s (s\<lparr>s_map := m\<rparr>)"
| insert: "lookup_mapping_with_insert (s_map s) p i cb = Some (r, cb', m) \<Longrightarrow>
    sys_step (Insert p i) s (s\<lparr>s_map := m\<rparr>)"
| discard: "remove_mapping (s_map s) p i = Some (r, m) \<Longrightarrow> sys_step (Discard p i) s (s\<lparr>s_map := m\<rparr>)"
| written: "set_dirty_after_write (s_map s) x d = Some m \<Longrightarrow> sys_step (Written x) s (s\<lparr>s_map := m\<rparr>)"
| peek: "s_phase s = Idle \<Longrightarrow>
    peak_work (m_wq (s_map s)) MAX_PATH_SIZE [] 0 = Some (True, p, c, q) \<Longrightarrow>
    sys_step By_worker s (s\<lparr>s_map := (s_map s)\<lparr>m_wq := q\<rparr>, s_phase := Peeked \<lparr>work_path = p, work_index = c\<rparr>\<rparr>)"
| promote: "s_phase s = Peeked w \<Longrightarrow>
    promotion_free_to_clean (s_map s) (work_path w) (work_index w) 0 = Some (ok, x, m) \<Longrightarrow>
    sys_step By_worker s (s\<lparr>s_map := m, s_phase := (if ok then Moving PROMOTION x w else NoFree w)\<rparr>)"
| demote: "s_phase s = NoFree w \<Longrightarrow> demotion_clean_to_free (s_map s) 0 = Some (ok, x, m) \<Longrightarrow>
    sys_step By_worker s (s\<lparr>s_map := m, s_phase := (if ok then Moving DEMOTION x w else NoClean w)\<rparr>)"
| writeback: "s_phase s = NoClean w \<Longrightarrow> writeback_dirty_to_clean (s_map s) 0 = Some (ok, x, m) \<Longrightarrow>
    sys_step By_worker s (s\<lparr>s_map := m, s_phase := (if ok then Moving WRITEBACK x w else Finishing w)\<rparr>)"
| promoted: "s_phase s = Moving PROMOTION x w \<Longrightarrow> promotion_complete (s_map s) x ok = Some m \<Longrightarrow>
    sys_step By_worker s (s\<lparr>s_map := m, s_phase := Finishing w\<rparr>)"
| demoted: "s_phase s = Moving DEMOTION x w \<Longrightarrow> demotion_complete (s_map s) x ok = Some m \<Longrightarrow>
    sys_step By_worker s (s\<lparr>s_map := m, s_phase := Finishing w\<rparr>)"
| written_back: "s_phase s = Moving WRITEBACK x w \<Longrightarrow> writeback_complete (s_map s) x ok = Some m \<Longrightarrow>
    sys_step By_worker s (s\<lparr>s_map := m, s_phase := Finishing w\<rparr>)"
| finish: "s_phase s = Finishing w \<Longrightarrow> remove_work (m_wq (s_map s)) = Some (r, q) \<Longrightarrow>
    sys_step By_worker s (s\<lparr>s_map := (s_map s)\<lparr>m_wq := q\<rparr>, s_phase := Idle\<rparr>)"

text \<open>
  What users have to respect, as the code does not check it: a path has at most \<open>MAX_PATH_SIZE\<close>
  characters, a discard does not hit a block in transit (\<open>Discard_Race\<close> shows what happens when it
  does), a completed write names a block of the cache, as the block that a lookup returned is.
  \<open>orderly\<close> are the steps of the system in which they do.
\<close>

fun permitted :: "cache_view \<Rightarrow> sys_op \<Rightarrow> bool" where
  "permitted v (Lookup p i) \<longleftrightarrow> length p \<le> MAX_PATH_SIZE"
| "permitted v (Insert p i) \<longleftrightarrow> length p \<le> MAX_PATH_SIZE"
| "permitted v (Discard p i) \<longleftrightarrow> (\<forall>x. v_map v (p, to_cache_page_index i) = Some x \<longrightarrow> v_moving v x = None)"
| "permitted v (Written x) \<longleftrightarrow> x < v_blocks v"
| "permitted v By_worker \<longleftrightarrow> True"

definition orderly :: "sys \<Rightarrow> sys \<Rightarrow> bool" where
  "orderly s s' \<longleftrightarrow> (\<exists>op. permitted (view_of (s_map s)) op \<and> sys_step op s s')"

subsection \<open>The invariant, on the abstract cache\<close>

definition promoting :: "phase \<Rightarrow> u32 set" where
  "promoting ph = (case ph of Moving t x w \<Rightarrow> if t = PROMOTION then {x} else {} | _ \<Rightarrow> {})"

text \<open>
  The queue has no duplicates, its paths fit an entry, and holds no key of the map, except that
  its head may just have been promoted; the worker's work is that head; the block it moves is in
  transit, under the key of the work when it is promoted.
\<close>

definition view_inv :: "phase \<Rightarrow> cache_view \<Rightarrow> bool" where
  "view_inv ph v \<longleftrightarrow> distinct (v_work v) \<and> (\<forall>w \<in> set (v_work v). length (work_path w) \<le> MAX_PATH_SIZE) \<and>
     (case ph of
        Idle \<Rightarrow> \<forall>w \<in> set (v_work v). v_map v (key_of w) = None
      | Finishing w \<Rightarrow> v_work v \<noteq> [] \<and> hd (v_work v) = w \<and> (\<forall>w \<in> set (tl (v_work v)). v_map v (key_of w) = None)
      | Moving t x w \<Rightarrow> v_work v \<noteq> [] \<and> hd (v_work v) = w \<and> (\<forall>w \<in> set (v_work v). v_map v (key_of w) = None) \<and>
          x < v_blocks v \<and> v_moving v x \<noteq> None \<and> (t = PROMOTION \<longrightarrow> v_key v x = Some (key_of w))
      | Peeked w \<Rightarrow> v_work v \<noteq> [] \<and> hd (v_work v) = w \<and> (\<forall>w \<in> set (v_work v). v_map v (key_of w) = None)
      | NoFree w \<Rightarrow> v_work v \<noteq> [] \<and> hd (v_work v) = w \<and> (\<forall>w \<in> set (v_work v). v_map v (key_of w) = None)
      | NoClean w \<Rightarrow> v_work v \<noteq> [] \<and> hd (v_work v) = w \<and> (\<forall>w \<in> set (v_work v). v_map v (key_of w) = None))"

definition sys_inv :: "sys \<Rightarrow> bool" where
  "sys_inv s \<longleftrightarrow> map_inv (promoting (s_phase s)) (s_map s) \<and> view_inv (s_phase s) (view_of (s_map s))"

lemma key_of_eq [simp]: "key_of w = key_of w' \<longleftrightarrow> w = w'" "work_of (key_of w) = w" "key_of (work_of k) = k"
  by (cases w; cases w'; auto simp: key_of_def work_of_def)+

text \<open>What a user's operation may do to the view without disturbing the worker.\<close>

definition user_change :: "cache_view \<Rightarrow> cache_view \<Rightarrow> bool" where
  "user_change v v' \<longleftrightarrow>
     (v_work v' = v_work v \<or> (\<exists>w. v_work v' = v_work v @ [w] \<and> w \<notin> set (v_work v) \<and>
        length (work_path w) \<le> MAX_PATH_SIZE \<and> v_map v' (key_of w) = None)) \<and>
     (\<forall>w \<in> set (v_work v). v_map v (key_of w) = None \<longrightarrow> v_map v' (key_of w) = None) \<and>
     v_blocks v' = v_blocks v \<and>
     (\<forall>x. v_moving v x \<noteq> None \<longrightarrow> v_moving v' x \<noteq> None \<and> v_key v' x = v_key v x)"

lemma user_change_inv:
  assumes "view_inv ph v" and "user_change v v'"
  shows "view_inv ph v'"
  using assms unfolding view_inv_def user_change_def
  by (cases ph) (auto simp: hd_append tl_append split: list.splits dest: list.set_sel(2))


lemma free_not_moving:
  assumes "map_inv P m" and "x \<in> set (v_free (view_of m))"
  shows "v_moving (view_of m) x = None"
proof -
  obtain F C D T where inv: "minv m F C D T P" using assms(1) by (auto elim: map_invE)
  show ?thesis
    using assms(2) minv_flags(1) [OF inv, of x] view_fields(2,6) [OF minv_core(1) [OF inv]] by auto
qed

lemma hit_change: "user_change v (a_hit x v)"
  by (simp add: user_change_def a_hit_def)

lemma miss_change: "user_change v (a_miss v)"
  by (simp add: user_change_def a_miss_def)

lemma request_change:
  assumes "length (fst k) \<le> MAX_PATH_SIZE" and "v_map v k = None"
  shows "user_change v (a_request k (a_miss v))"
  using assms by (auto simp: user_change_def a_request_def a_miss_def work_of_def key_of_def)

lemma lookup_change:
  assumes "length (fst k) \<le> MAX_PATH_SIZE"
  shows "user_change v (snd (a_lookup k v))"
  using hit_change request_change [OF assms] by (auto simp: a_lookup_def split: option.splits)

lemma held_back_key: "w \<in> set ws \<Longrightarrow> key_of w = k \<Longrightarrow> held_back k ws"
  by (auto simp: held_back_def key_of_def)

lemma insert_change:
  assumes "map_inv P m" and "length (fst k) \<le> MAX_PATH_SIZE"
  defines "v \<equiv> view_of m"
  shows "user_change v (snd (a_insert k v))"
proof (cases "v_map v k")
  case (Some x)
  then show ?thesis using hit_change by (simp add: a_insert_def)
next
  case none: None
  show ?thesis
  proof (cases "held_back k (v_work v)")
    case True
    then show ?thesis using none miss_change by (simp add: a_insert_def)
  next
    case False
    show ?thesis
    proof (cases "v_free v")
      case Nil
      then show ?thesis using none False request_change [OF assms(2) none] by (simp add: a_insert_def)
    next
      case (Cons x F)
      then have "v_moving v x = None"
        using free_not_moving [OF assms(1), of x] by (simp add: v_def)
      moreover have "key_of w \<noteq> k" if "w \<in> set (v_work v)" for w
        using that held_back_key False by blast
      ultimately show ?thesis
        using none False Cons by (auto simp: a_insert_def user_change_def a_miss_def)
    qed
  qed
qed

lemma remove_change:
  assumes "\<And>x. v_map v k = Some x \<Longrightarrow> v_moving v x = None"
  shows "user_change v (snd (a_remove k v))"
  using assms by (auto simp: a_remove_def user_change_def split: option.splits)

lemma set_dirty_change: "user_change v (a_set_dirty x v)"
  by (auto simp: a_set_dirty_def user_change_def)

lemma user_step_inv:
  assumes "sys_inv s" and "map_inv (promoting (s_phase s)) m" and "user_change (view_of (s_map s)) (view_of m)"
  shows "sys_inv (s\<lparr>s_map := m\<rparr>)"
  using assms user_change_inv by (auto simp: sys_inv_def)

subsection \<open>The worker's steps\<close>

lemma promoting_simps [simp]:
  "promoting Idle = {}" "promoting (Peeked w) = {}" "promoting (NoFree w) = {}" "promoting (NoClean w) = {}"
  "promoting (Finishing w) = {}" "promoting (Moving PROMOTION x w) = {x}"
  "promoting (Moving DEMOTION x w) = {}" "promoting (Moving WRITEBACK x w) = {}"
  by (simp_all add: promoting_def)

lemma view_inv_simps:
  "view_inv (Peeked w) v \<longleftrightarrow> view_inv Idle v \<and> v_work v \<noteq> [] \<and> hd (v_work v) = w"
  "view_inv (NoFree w) v \<longleftrightarrow> view_inv Idle v \<and> v_work v \<noteq> [] \<and> hd (v_work v) = w"
  "view_inv (NoClean w) v \<longleftrightarrow> view_inv Idle v \<and> v_work v \<noteq> [] \<and> hd (v_work v) = w"
  "view_inv (Moving t x w) v \<longleftrightarrow> view_inv Idle v \<and> v_work v \<noteq> [] \<and> hd (v_work v) = w \<and>
     x < v_blocks v \<and> v_moving v x \<noteq> None \<and> (t = PROMOTION \<longrightarrow> v_key v x = Some (key_of w))"
  by (auto simp: view_inv_def)

lemma a_starts_inv:
  "a_promote_start (key_of w) v = Some (x, v1) \<Longrightarrow> view_inv Idle v1 = view_inv Idle v \<and> v_work v1 = v_work v \<and>
     v_key v1 x = Some (key_of w)"
  "a_demote_start v = Some (x, v1) \<Longrightarrow> view_inv Idle v1 = view_inv Idle v \<and> v_work v1 = v_work v"
  "a_writeback_start v = Some (x, v1) \<Longrightarrow> view_inv Idle v1 = view_inv Idle v \<and> v_work v1 = v_work v"
  by (auto simp: a_promote_start_def a_demote_start_def a_writeback_start_def view_inv_def split: list.splits if_splits)

lemma a_ends_finish:
  assumes "view_inv (Moving t x w) v"
  shows "t = PROMOTION \<Longrightarrow> view_inv (Finishing w) (a_promote_end x ok v)"
    and "view_inv (Finishing w) (a_demote_end x ok v)" and "view_inv (Finishing w) (a_writeback_end x ok v)"
proof -
  have v: "view_inv (Finishing w) v" "\<And>w'. w' \<in> set (v_work v) \<Longrightarrow> v_map v (key_of w') = None"
    using assms by (auto simp: view_inv_def dest: list.set_sel(2))
  have ne: "w' \<noteq> w" if "w' \<in> set (tl (v_work v))" for w'
    using assms that by (cases "v_work v") (auto simp: view_inv_def)
  show "view_inv (Finishing w) (a_promote_end x ok v)" if "t = PROMOTION"
    using v ne assms that
    by (auto simp: view_inv_def a_promote_end_def a_settle_def enqueue_def a_drop_def)
  show "view_inv (Finishing w) (a_demote_end x ok v)" "view_inv (Finishing w) (a_writeback_end x ok v)"
    using v(1) by (auto simp: view_inv_def a_demote_end_def a_writeback_end_def a_settle_def enqueue_def a_drop_def)
qed

lemma finish_inv:
  assumes "view_inv (Finishing w) v"
  shows "view_inv Idle (v\<lparr>v_work := tl (v_work v)\<rparr>)"
  using assms by (auto simp: view_inv_def distinct_tl dest: list.set_sel(2))

lemma sys_invD:
  assumes "sys_inv s"
  shows "map_inv (promoting (s_phase s)) (s_map s)" and "view_inv (s_phase s) (view_of (s_map s))"
  using assms by (simp_all add: sys_inv_def)

lemma moving_in_flight:
  "view_inv (Moving t x w) (view_of m) \<Longrightarrow> in_flight x m"
  by (simp add: view_inv_simps in_flight_view)

lemma phase_work_len: "view_inv (Peeked w) v \<Longrightarrow> length (work_path w) \<le> MAX_PATH_SIZE"
  by (cases "v_work v") (auto simp: view_inv_def)

text \<open>Each worker operation, from the invariant: it returns, and the invariant holds after it.\<close>

lemma promote_step:
  assumes "sys_inv s" and "s_phase s = Peeked w"
  shows "\<exists>ok x m. promotion_free_to_clean (s_map s) (work_path w) (work_index w) 0 = Some (ok, x, m) \<and>
    sys_inv (s\<lparr>s_map := m, s_phase := (if ok then Moving PROMOTION x w else NoFree w)\<rparr>)"
proof -
  note inv = sys_invD [OF assms(1), unfolded assms(2)]
  have len: "length (work_path w) \<le> MAX_PATH_SIZE" by (rule phase_work_len [OF inv(2)])
  note law = promotion_start_law [OF inv(1) [simplified] len, of "work_index w" 0]
  show ?thesis
  proof (cases "a_promote_start (key_of w) (view_of (s_map s))")
    case None
    with law inv show ?thesis
      by (auto simp: key_of_def sys_inv_def view_inv_simps)
  next
    case (Some r)
    obtain x v where r: "r = (x, v)" by (cases r)
    obtain m where m: "promotion_free_to_clean (s_map s) (work_path w) (work_index w) 0 = Some (True, x, m)"
        "map_inv {x} m" "view_of m = v" "in_flight x m"
      using law Some r by (auto simp: key_of_def)
    have "view_inv (Moving PROMOTION x w) v"
      using a_starts_inv(1) [OF Some [unfolded r]] inv(2) m(3,4) by (auto simp: view_inv_simps in_flight_view)
    with m show ?thesis by (auto simp: sys_inv_def)
  qed
qed

lemma demote_step:
  assumes "sys_inv s" and "s_phase s = NoFree w"
  shows "\<exists>ok x m. demotion_clean_to_free (s_map s) 0 = Some (ok, x, m) \<and>
    sys_inv (s\<lparr>s_map := m, s_phase := (if ok then Moving DEMOTION x w else NoClean w)\<rparr>)"
proof -
  note inv = sys_invD [OF assms(1), unfolded assms(2)]
  note law = demotion_start_law [OF inv(1) [simplified], of 0]
  show ?thesis
  proof (cases "a_demote_start (view_of (s_map s))")
    case None
    with law inv show ?thesis by (auto simp: sys_inv_def view_inv_simps)
  next
    case (Some r)
    obtain x v where r: "r = (x, v)" by (cases r)
    obtain m where m: "demotion_clean_to_free (s_map s) 0 = Some (True, x, m)" "map_inv {} m" "view_of m = v" "in_flight x m"
      using law Some r by auto
    have "view_inv (Moving DEMOTION x w) v"
      using a_starts_inv(2) [OF Some [unfolded r]] inv(2) m(3,4) by (auto simp: view_inv_simps in_flight_view)
    with m show ?thesis by (auto simp: sys_inv_def)
  qed
qed

lemma writeback_step:
  assumes "sys_inv s" and "s_phase s = NoClean w"
  shows "\<exists>ok x m. writeback_dirty_to_clean (s_map s) 0 = Some (ok, x, m) \<and>
    sys_inv (s\<lparr>s_map := m, s_phase := (if ok then Moving WRITEBACK x w else Finishing w)\<rparr>)"
proof -
  note inv = sys_invD [OF assms(1), unfolded assms(2)]
  note law = writeback_start_law [OF inv(1) [simplified], of 0]
  show ?thesis
  proof (cases "a_writeback_start (view_of (s_map s))")
    case None
    have "view_inv (Finishing w) (view_of (s_map s))"
      using inv(2) by (auto simp: view_inv_def dest: list.set_sel(2))
    with None law inv(1) show ?thesis by (auto simp: sys_inv_def)
  next
    case (Some r)
    obtain x v where r: "r = (x, v)" by (cases r)
    obtain m where m: "writeback_dirty_to_clean (s_map s) 0 = Some (True, x, m)" "map_inv {} m" "view_of m = v" "in_flight x m"
      using law Some r by auto
    have "view_inv (Moving WRITEBACK x w) v"
      using a_starts_inv(3) [OF Some [unfolded r]] inv(2) m(3,4) by (auto simp: view_inv_simps in_flight_view)
    with m show ?thesis by (auto simp: sys_inv_def)
  qed
qed

lemma complete_step:
  assumes "sys_inv s" and "s_phase s = Moving t x w"
  defines "complete \<equiv> (case t of PROMOTION \<Rightarrow> promotion_complete | DEMOTION \<Rightarrow> demotion_complete | WRITEBACK \<Rightarrow> writeback_complete)"
  shows "\<exists>m. complete (s_map s) x ok = Some m \<and> sys_inv (s\<lparr>s_map := m, s_phase := Finishing w\<rparr>)"
proof -
  note inv = sys_invD [OF assms(1), unfolded assms(2)]
  have fl: "in_flight x (s_map s)" by (rule moving_in_flight [OF inv(2)])
  note ends = a_ends_finish [OF inv(2), of ok]
  show ?thesis
  proof (cases t)
    case PROMOTION
    have "v_map (view_of (s_map s)) (the (v_key (view_of (s_map s)) x)) = None"
      using inv(2) PROMOTION by (cases "v_work (view_of (s_map s))") (auto simp: view_inv_def)
    then show ?thesis
      using promotion_complete_law [OF inv(1), of x ok] PROMOTION ends(1)
      by (auto simp: complete_def sys_inv_def)
  next
    case DEMOTION
    then show ?thesis
      using demotion_complete_law [OF inv(1) fl, of ok] ends(2) by (auto simp: complete_def sys_inv_def)
  next
    case WRITEBACK
    then show ?thesis
      using writeback_complete_law [OF inv(1) fl, of ok] ends(3) by (auto simp: complete_def sys_inv_def)
  qed
qed

lemma finish_step:
  assumes "sys_inv s" and "s_phase s = Finishing w"
  shows "\<exists>q. remove_work (m_wq (s_map s)) = Some (True, q) \<and>
    sys_inv (s\<lparr>s_map := (s_map s)\<lparr>m_wq := q\<rparr>, s_phase := Idle\<rparr>)"
proof -
  note inv = sys_invD [OF assms(1), unfolded assms(2)]
  obtain q where q: "remove_work (m_wq (s_map s)) = Some (items (m_wq (s_map s)) \<noteq> [], q)" "wq_inv q"
      "items q = tl (items (m_wq (s_map s)))"
    using remove_work_law [OF map_inv_ready [OF inv(1)]] by blast
  have "items (m_wq (s_map s)) \<noteq> []"
    using inv(2) by (simp add: view_inv_def view_work)
  moreover have "view_inv Idle (view_of ((s_map s)\<lparr>m_wq := q\<rparr>))"
    using finish_inv [OF inv(2)] q(3) by (simp add: view_work)
  ultimately show ?thesis
    using q inv(1) map_inv_wq by (auto simp: sys_inv_def)
qed

text \<open>
  A path of exactly \<open>MAX_PATH_SIZE\<close> characters overflows the buffer of the worker, so the worker
  can look at a work only if its path is shorter.
\<close>

lemma peek_step:
  assumes "sys_inv s" and "s_phase s = Idle" and "v_work (view_of (s_map s)) = w # ws"
  shows "length (work_path w) < MAX_PATH_SIZE \<Longrightarrow>
      peak_work (m_wq (s_map s)) MAX_PATH_SIZE [] 0 = Some (True, work_path w, work_index w, m_wq (s_map s))"
    and "peak_work (m_wq (s_map s)) MAX_PATH_SIZE [] 0 = Some (True, p, c, q) \<Longrightarrow>
      work_path w = p \<and> work_index w = c \<and> q = m_wq (s_map s)"
    and "sys_inv (s\<lparr>s_phase := Peeked w\<rparr>)"
proof -
  note inv = sys_invD [OF assms(1), unfolded assms(2)]
  show "length (work_path w) < MAX_PATH_SIZE \<Longrightarrow>
      peak_work (m_wq (s_map s)) MAX_PATH_SIZE [] 0 = Some (True, work_path w, work_index w, m_wq (s_map s))"
    "peak_work (m_wq (s_map s)) MAX_PATH_SIZE [] 0 = Some (True, p, c, q) \<Longrightarrow>
      work_path w = p \<and> work_index w = c \<and> q = m_wq (s_map s)"
    using peak_work_front [OF map_inv_ready [OF inv(1)]] assms(3) by (auto simp: view_work split: if_splits)
  show "sys_inv (s\<lparr>s_phase := Peeked w\<rparr>)"
    using assms(3) inv by (simp add: sys_inv_def view_inv_simps)
qed


subsection \<open>Reachable states\<close>

inductive_cases sys_stepE: "sys_step op s s'"

lemma sys_inv_step:
  assumes "sys_inv s" and "permitted (view_of (s_map s)) op" and "sys_step op s s'"
  shows "sys_inv s'"
  using assms(3)
proof (cases rule: sys_step.cases)
  case (lookup p i cb r cb' m)
  have len: "length p \<le> MAX_PATH_SIZE" using lookup(1) assms(2) by simp
  from lookup_mapping_law [OF sys_invD(1) [OF assms(1)] len, of i cb]
  have "map_inv (promoting (s_phase s)) m"
      "view_of m = snd (a_lookup (p, to_cache_page_index i) (view_of (s_map s)))"
    using lookup(3) by auto
  then show ?thesis
    using user_step_inv [OF assms(1)] lookup_change [of "(p, to_cache_page_index i)"] lookup(2) len by simp
next
  case (insert p i cb r cb' m)
  have len: "length p \<le> MAX_PATH_SIZE" using insert(1) assms(2) by simp
  from lookup_with_insert_law [OF sys_invD(1) [OF assms(1)] len, of i cb]
  have "map_inv (promoting (s_phase s)) m"
      "view_of m = snd (a_insert (p, to_cache_page_index i) (view_of (s_map s)))"
    using insert(3) by auto
  then show ?thesis
    using user_step_inv [OF assms(1)] insert_change [OF sys_invD(1) [OF assms(1)], of "(p, to_cache_page_index i)"] insert(2) len
    by simp
next
  case (discard p i r m)
  have settled: "v_map (view_of (s_map s)) (p, to_cache_page_index i) = Some x \<Longrightarrow> v_moving (view_of (s_map s)) x = None" for x
    using discard(1) assms(2) by simp
  from remove_mapping_law [OF sys_invD(1) [OF assms(1)], of p i] settled
  have "map_inv (promoting (s_phase s)) m"
      "view_of m = snd (a_remove (p, to_cache_page_index i) (view_of (s_map s)))"
    using discard(3) by auto
  then show ?thesis
    using user_step_inv [OF assms(1)] remove_change [OF settled] discard(2) by simp
next
  case (written x d m)
  have "x < cache_block_num (s_map s)" using written(1) assms(2) by (simp add: view_blocks)
  from set_dirty_law [OF sys_invD(1) [OF assms(1)] this, of d]
  have "map_inv (promoting (s_phase s)) m" "view_of m = a_set_dirty x (view_of (s_map s))"
    using written(3) by auto
  then show ?thesis
    using user_step_inv [OF assms(1)] set_dirty_change written(2) by simp
next
  case (peek p c q)
  have "items (m_wq (s_map s)) \<noteq> []"
    using peek(4) peak_work_empty [OF map_inv_ready [OF sys_invD(1) [OF assms(1)]]] by auto
  then obtain w ws where w: "v_work (view_of (s_map s)) = w # ws"
    by (cases "items (m_wq (s_map s))") (auto simp: view_work)
  note step = peek_step [OF assms(1) peek(3) w]
  have "w = \<lparr>work_path = p, work_index = c\<rparr>" "q = m_wq (s_map s)"
    using step(2) [OF peek(4)] by (cases w; simp)+
  with step(3) show ?thesis using peek(2) by simp
next
  case (promote w ok x m)
  from promote_step [OF assms(1) promote(3)] show ?thesis using promote(2,4) by auto
next
  case (demote w ok x m)
  from demote_step [OF assms(1) demote(3)] show ?thesis using demote(2,4) by auto
next
  case (writeback w ok x m)
  from writeback_step [OF assms(1) writeback(3)] show ?thesis using writeback(2,4) by auto
next
  case (promoted x w ok m)
  from complete_step [OF assms(1) promoted(3), of ok] show ?thesis using promoted(2,4) by auto
next
  case (demoted x w ok m)
  from complete_step [OF assms(1) demoted(3), of ok] show ?thesis using demoted(2,4) by auto
next
  case (written_back x w ok m)
  from complete_step [OF assms(1) written_back(3), of ok] show ?thesis using written_back(2,4) by auto
next
  case (finish w r q)
  from finish_step [OF assms(1) finish(3)] show ?thesis using finish(2,4) by auto
qed

lemma sys_start_inv: "sys_start s \<Longrightarrow> sys_inv s"
  by (auto simp: sys_start_def sys_inv_def view_inv_def empty_view_def)

interpretation cache_sys: step_invariant sys_start orderly sys_inv
  by unfold_locales (auto simp: orderly_def intro: sys_start_inv sys_inv_step)

text \<open>The worker's steps are always orderly.\<close>

lemma worker_orderly: "sys_step By_worker s s' \<Longrightarrow> orderly s s'"
  unfolding orderly_def by (rule exI [of _ By_worker]) simp

text \<open>
  With work to do whose path fits its buffer the worker has a step, and in a round it always has
  one, which brings the end of the round nearer.
\<close>

fun rank :: "phase \<Rightarrow> nat" where
  "rank Idle = 0"
| "rank (Finishing w) = 1"
| "rank (Moving t x w) = 2"
| "rank (NoClean w) = 3"
| "rank (NoFree w) = 4"
| "rank (Peeked w) = 5"

lemma worker_starts:
  assumes "sys_inv s" and "s_phase s = Idle" and "v_work (view_of (s_map s)) = w # ws"
    and "length (work_path w) < MAX_PATH_SIZE"
  shows "\<exists>s'. sys_step By_worker s s' \<and> s_phase s' = Peeked w"
  using peek [OF assms(2) peek_step(1) [OF assms]] by fastforce

lemma worker_descends:
  assumes "sys_inv s" and "s_phase s \<noteq> Idle"
  shows "\<exists>s'. sys_step By_worker s s' \<and> rank (s_phase s') < rank (s_phase s)"
proof (cases "s_phase s")
  case Idle
  with assms(2) show ?thesis by simp
next
  case (Peeked w)
  from promote_step [OF assms(1) Peeked] obtain ok x m where
    "promotion_free_to_clean (s_map s) (work_path w) (work_index w) 0 = Some (ok, x, m)" by blast
  note step = promote [OF Peeked this]
  show ?thesis
    by (rule exI, rule conjI, rule step) (simp add: Peeked)
next
  case (NoFree w)
  from demote_step [OF assms(1) NoFree] obtain ok x m where
    "demotion_clean_to_free (s_map s) 0 = Some (ok, x, m)" by blast
  note step = demote [OF NoFree this]
  show ?thesis
    by (rule exI, rule conjI, rule step) (simp add: NoFree)
next
  case (NoClean w)
  from writeback_step [OF assms(1) NoClean] obtain ok x m where
    "writeback_dirty_to_clean (s_map s) 0 = Some (ok, x, m)" by blast
  note step = writeback [OF NoClean this]
  show ?thesis
    by (rule exI, rule conjI, rule step) (simp add: NoClean)
next
  case (Moving t x w)
  obtain m where m: "(case t of PROMOTION \<Rightarrow> promotion_complete | DEMOTION \<Rightarrow> demotion_complete
      | WRITEBACK \<Rightarrow> writeback_complete) (s_map s) x True = Some m"
    using complete_step [OF assms(1) Moving, of True] by blast
  have "sys_step By_worker s (s\<lparr>s_map := m, s_phase := Finishing w\<rparr>)"
    using m Moving by (cases t) (auto intro: promoted demoted written_back)
  then show ?thesis using Moving by fastforce
next
  case (Finishing w)
  from finish_step [OF assms(1) Finishing] obtain q where "remove_work (m_wq (s_map s)) = Some (True, q)" by blast
  note step = finish [OF Finishing this]
  show ?thesis
    by (rule exI, rule conjI, rule step) (simp add: Finishing)
qed

lemma worker_finishes:
  assumes "sys_inv s"
  shows "\<exists>n s'. n \<le> rank (s_phase s) \<and> (sys_step By_worker ^^ n) s s' \<and> s_phase s' = Idle"
  using assms
proof (induction "rank (s_phase s)" arbitrary: s rule: less_induct)
  case less
  show ?case
  proof (cases "s_phase s = Idle")
    case True
    then have "0 \<le> rank (s_phase s) \<and> (sys_step By_worker ^^ 0) s s \<and> s_phase s = Idle" by simp
    then show ?thesis by blast
  next
    case False
    obtain s1 where s1: "sys_step By_worker s s1" "rank (s_phase s1) < rank (s_phase s)"
      using worker_descends [OF less.prems False] by blast
    obtain n s' where n: "n \<le> rank (s_phase s1)" "(sys_step By_worker ^^ n) s1 s'" "s_phase s' = Idle"
      using less.hyps [OF s1(2) sys_inv_step [OF less.prems _ s1(1)]] by auto
    have "(sys_step By_worker ^^ Suc n) s s'" by (rule relpowp_Suc_I2 [of "sys_step By_worker" s s1 n s', OF s1(1) n(2)])
    moreover have "Suc n \<le> rank (s_phase s)" using n(1) s1(2) by simp
    ultimately show ?thesis using n(3) by blast
  qed
qed

subsection \<open>Properties\<close>

text \<open>A state that users and the worker reach from the small cache: one work is queued.\<close>

lemma sample_reach:
  "\<exists>s. reach sys_start orderly s \<and> s_phase s = Idle \<and>
    view_of (s_map s) = (empty_view 8 6)\<lparr>v_misses := 1, v_work := [\<lparr>work_path = ''f'', work_index = 1\<rparr>]\<rparr>"
proof -
  let ?s = "\<lparr>s_map = small_map, s_phase = Idle\<rparr>"
  have "sys_start ?s" using small_map_law by (auto simp: sys_start_def)
  then have start: "reach sys_start orderly ?s" by (rule reach_start)
  obtain m where m: "lookup_mapping small_map ''f'' 8 0 = Some (False, 0, m)"
      "view_of m = (empty_view 8 6)\<lparr>v_misses := 1, v_work := [\<lparr>work_path = ''f'', work_index = 1\<rparr>]\<rparr>"
    using small_queued [of "''f''"] by (auto simp: consts_simps)
  have "sys_step (Lookup ''f'' 8) ?s (?s\<lparr>s_map := m\<rparr>)" using lookup [of ?s "''f''" 8 0 False 0 m] m(1) by simp
  moreover have "permitted (view_of (s_map ?s)) (Lookup ''f'' 8)" by (simp add: consts_simps)
  ultimately have "orderly ?s (?s\<lparr>s_map := m\<rparr>)" unfolding orderly_def by blast
  then have "reach sys_start orderly (?s\<lparr>s_map := m\<rparr>)" by (rule reach_step [OF start])
  then show ?thesis using m(2) by fastforce
qed

text \<open>
  C1: as long as users make only permitted calls (paths of at most 32 characters, no discard
  of a page whose block is in transit, which the code does not check), then whatever the order of
  the operations of users and the migration worker, in every reachable state the lists, the table and
  the flags satisfy the invariant of the mapping, no lock is held between operations, the promotion
  queue has no work twice and none whose path overflows an entry, and the phase of the worker fits
  the mapping.
\<close>

theorem system_stays_sound:
  assumes "reach sys_start orderly s"
  shows "map_inv (promoting (s_phase s)) (s_map s) \<and> locked (mapping_lock (s_map s)) = 0 \<and>
    distinct (items (m_wq (s_map s))) \<and> view_inv (s_phase s) (view_of (s_map s))"
proof -
  have "sys_inv s" by (rule cache_sys.reach_inv [OF assms])
  note inv = sys_invD [OF this]
  have "locked (mapping_lock (s_map s)) = 0" using inv(1) by (simp add: map_inv_def ready_def)
  moreover have "distinct (items (m_wq (s_map s)))"
    using inv(2) by (simp add: view_inv_def view_work)
  ultimately show ?thesis using inv by simp
qed

theorem system_stays_sound_witness:
  "\<exists>s. reach sys_start orderly s \<and> s_phase s = Idle \<and> length (v_work (view_of (s_map s))) = 1 \<and> map_inv {} (s_map s)"
proof -
  obtain s where s: "reach sys_start orderly s" "s_phase s = Idle"
      "v_work (view_of (s_map s)) = [\<lparr>work_path = ''f'', work_index = 1\<rparr>]"
    using sample_reach by auto
  from system_stays_sound [OF s(1)] s show ?thesis by auto
qed

text \<open>
  C10: in every state reachable by permitted calls (in particular no discard of a page whose
  block is in transit; with one, discard_in_flight_doubles refutes this) the free list, the clean
  queue and the dirty queue have no block twice and none in common, a block is on none of them exactly
  when a move has it, and exactly the blocks of the cache are on one of them or in transit: no block
  is lost or doubled.
\<close>

theorem blocks_partitioned:
  assumes "reach sys_start orderly s"
  shows "let v = view_of (s_map s); on_lists = set (v_free v @ v_clean v @ v_dirty v);
      moving = {x. x < v_blocks v \<and> v_moving v x \<noteq> None}
    in distinct (v_free v @ v_clean v @ v_dirty v) \<and> {x. x < v_blocks v} = on_lists \<union> moving \<and> on_lists \<inter> moving = {}"
  using partition_law [OF sys_invD(1) [OF cache_sys.reach_inv [OF assms]]] by (simp only: Let_def)

theorem blocks_partitioned_witness:
  "\<exists>s. reach sys_start orderly s \<and> {x :: u32. x < 8} = {0, 1, 2, 3, 4, 5, 6, 7} \<union> {x. x < 8 \<and> v_moving (view_of (s_map s)) x \<noteq> None}"
proof -
  obtain s where s: "reach sys_start orderly s" "v_blocks (view_of (s_map s)) = 8"
      "v_free (view_of (s_map s)) = [0, 1, 2, 3, 4, 5, 6, 7]" "v_clean (view_of (s_map s)) = []" "v_dirty (view_of (s_map s)) = []"
    using sample_reach small_free [of 6] by (auto simp: empty_view_def)
  from blocks_partitioned [OF s(1)]
  have "{x. x < v_blocks (view_of (s_map s))} = set (v_free (view_of (s_map s)) @ v_clean (view_of (s_map s)) @ v_dirty (view_of (s_map s))) \<union>
      {x. x < v_blocks (view_of (s_map s)) \<and> v_moving (view_of (s_map s)) x \<noteq> None}"
    by (simp only: Let_def)
  with s(1) show ?thesis unfolding s(2-5) by (intro exI [of _ s]) (simp only: list.set append_Nil2 simp_thms)
qed



text \<open>
  C17: in every state reachable by permitted calls, every permitted operation of a user
  returns: lookup and lookup with insertion for a path of at most 32 characters, a discard of a page
  whose block is not in transit, and the marking of a block after a write. None dereferences a null
  or out of range pointer, loops for ever on a broken list, overflows an entry or a work, or waits
  for a lock that nobody will release.
\<close>

theorem no_operation_blocks:
  assumes "reach sys_start orderly s"
  shows "(length p \<le> MAX_PATH_SIZE \<longrightarrow>
      lookup_mapping (s_map s) p i cb \<noteq> None \<and> lookup_mapping_with_insert (s_map s) p i cb \<noteq> None) \<and>
    ((\<forall>x. v_map (view_of (s_map s)) (p, to_cache_page_index i) = Some x \<longrightarrow> v_moving (view_of (s_map s)) x = None) \<longrightarrow>
      remove_mapping (s_map s) p i \<noteq> None) \<and>
    (x < cache_block_num (s_map s) \<longrightarrow> set_dirty_after_write (s_map s) x d \<noteq> None)"
proof (intro conjI impI)
  have "sys_inv s" by (rule cache_sys.reach_inv [OF assms])
  note inv = sys_invD(1) [OF this]
  show "lookup_mapping (s_map s) p i cb \<noteq> None" "lookup_mapping_with_insert (s_map s) p i cb \<noteq> None" if "length p \<le> MAX_PATH_SIZE"
    using lookup_mapping_law [OF inv that, of i cb] lookup_with_insert_law [OF inv that, of i cb] by auto
  show "remove_mapping (s_map s) p i \<noteq> None"
    if "\<forall>x. v_map (view_of (s_map s)) (p, to_cache_page_index i) = Some x \<longrightarrow> v_moving (view_of (s_map s)) x = None"
    using remove_mapping_law [OF inv, of p i] that by auto
  show "set_dirty_after_write (s_map s) x d \<noteq> None" if "x < cache_block_num (s_map s)"
    using set_dirty_law [OF inv that, of d] by auto
qed

theorem no_operation_blocks_witness:
  "\<exists>s. reach sys_start orderly s \<and> lookup_mapping (s_map s) ''g'' 3 0 \<noteq> None \<and>
    remove_mapping (s_map s) ''g'' 3 \<noteq> None \<and> set_dirty_after_write (s_map s) 7 True \<noteq> None"
proof -
  obtain s where s: "reach sys_start orderly s" "v_blocks (view_of (s_map s)) = 8" "\<forall>k. v_map (view_of (s_map s)) k = None"
    using sample_reach by (auto simp: empty_view_def)
  have "length ''g'' \<le> MAX_PATH_SIZE" "7 < cache_block_num (s_map s)"
    using s(2) by (simp_all add: consts_simps view_blocks)
  with no_operation_blocks [OF s(1), of "''g''" 3 0 7 True] s(1,3) show ?thesis by auto
qed

text \<open>
  C18: from every state reachable by permitted calls the worker alone ends its round in at most
  five steps, and from an idle state it can start a round with the oldest work if its path is shorter
  than 32 characters (at 32 it overflows the worker's buffer, as migration_path_overflow shows): in
  this case the state is no dead end for the worker.
\<close>

theorem worker_round_ends:
  assumes "reach sys_start orderly s"
  shows "(\<exists>n s'. n \<le> 5 \<and> (sys_step By_worker ^^ n) s s' \<and> s_phase s' = Idle) \<and>
    (\<forall>w ws. s_phase s = Idle \<and> v_work (view_of (s_map s)) = w # ws \<and> length (work_path w) < MAX_PATH_SIZE \<longrightarrow>
      (\<exists>s'. sys_step By_worker s s' \<and> s_phase s' = Peeked w))"
proof -
  have inv: "sys_inv s" by (rule cache_sys.reach_inv [OF assms])
  have "rank (s_phase s) \<le> 5" by (cases "s_phase s") simp_all
  then show ?thesis using worker_finishes [OF inv] worker_starts [OF inv] order_trans by blast
qed

theorem worker_round_ends_witness:
  "\<exists>s s' w. reach sys_start orderly s \<and> s_phase s = Idle \<and> sys_step By_worker s s' \<and> s_phase s' = Peeked w"
proof -
  obtain s where s: "reach sys_start orderly s" "s_phase s = Idle"
      "v_work (view_of (s_map s)) = [\<lparr>work_path = ''f'', work_index = 1\<rparr>]"
    using sample_reach by auto
  have "length (work_path \<lparr>work_path = ''f'', work_index = 1\<rparr>) < MAX_PATH_SIZE" by (simp add: consts_simps)
  with worker_round_ends [OF s(1)] s show ?thesis by blast
qed

text \<open>
  C20: in every state reachable by permitted calls, whenever the worker is idle or
  promotes, no queued work names a key that has a block already, and while it promotes a block, the
  table gives that block to no key: the worker never promotes a cache page into a second block.
\<close>

theorem queued_work_is_uncached:
  assumes "reach sys_start orderly s" and "s_phase s = Idle \<or> s_phase s = Moving PROMOTION x wk"
  shows "(\<forall>w \<in> set (items (m_wq (s_map s))). v_map (view_of (s_map s)) (key_of w) = None) \<and>
    (s_phase s = Moving PROMOTION x wk \<longrightarrow> (\<forall>k. v_map (view_of (s_map s)) k \<noteq> Some x))"
proof (intro conjI impI)
  note inv = sys_invD [OF cache_sys.reach_inv [OF assms(1)]]
  show "\<forall>w \<in> set (items (m_wq (s_map s))). v_map (view_of (s_map s)) (key_of w) = None"
    using inv(2) assms(2) by (auto simp: view_inv_def view_work)
  show "\<forall>k. v_map (view_of (s_map s)) k \<noteq> Some x" if "s_phase s = Moving PROMOTION x wk"
    using injective_law [OF inv(1), of _ x] that by simp
qed

text \<open>The worker has taken the sample's work and promotes it into block 0.\<close>

lemma sample_promoting:
  "\<exists>s. reach sys_start orderly s \<and> s_phase s = Moving PROMOTION 0 \<lparr>work_path = ''f'', work_index = 1\<rparr> \<and>
    items (m_wq (s_map s)) = [\<lparr>work_path = ''f'', work_index = 1\<rparr>]"
proof -
  let ?w = "\<lparr>work_path = ''f'', work_index = 1\<rparr>"
  obtain s where s: "reach sys_start orderly s" "s_phase s = Idle"
      "view_of (s_map s) = (empty_view 8 6)\<lparr>v_misses := 1, v_work := [?w]\<rparr>"
    using sample_reach by blast
  have work: "v_work (view_of (s_map s)) = ?w # []" by (simp add: s(3))
  have inv: "sys_inv s" by (rule cache_sys.reach_inv [OF s(1)])
  have short: "length (work_path ?w) < MAX_PATH_SIZE" by (simp add: consts_simps)
  let ?s1 = "s\<lparr>s_phase := Peeked ?w\<rparr>"
  have "sys_step By_worker s ?s1"
    using peek [OF s(2) peek_step(1) [OF inv s(2) work short]] by simp
  then have "orderly s ?s1" by (rule worker_orderly)
  then have 1: "reach sys_start orderly ?s1" by (rule reach_step [OF s(1)])
  have len: "length (work_path ?w) \<le> MAX_PATH_SIZE" using short by simp
  have m: "map_inv {} (s_map s)" using sys_invD(1) [OF inv] s(2) by simp
  obtain v where v: "a_promote_start (''f'', 1) (view_of (s_map s)) = Some (0, v)" "v_work v = [?w]"
    using small_free [of 6] by (simp add: s(3) a_promote_start_def)
  obtain m1 where m1: "promotion_free_to_clean (s_map s) ''f'' 1 0 = Some (True, 0, m1)" "view_of m1 = v"
    using promotion_start_law [OF m len, of 1 0] v(1) by auto
  let ?s2 = "?s1\<lparr>s_map := m1, s_phase := Moving PROMOTION 0 ?w\<rparr>"
  have "sys_step By_worker ?s1 ?s2"
    using promote [of ?s1 ?w True 0 m1] m1(1) by simp
  then have "orderly ?s1 ?s2" by (rule worker_orderly)
  then have "reach sys_start orderly ?s2" by (rule reach_step [OF 1])
  moreover have "items (m_wq m1) = [?w]" using m1(2) v(2) by (simp add: view_work [symmetric])
  ultimately show ?thesis by (intro exI [of _ ?s2]) simp
qed

theorem queued_work_is_uncached_witness:
  "\<exists>s. reach sys_start orderly s \<and> items (m_wq (s_map s)) = [\<lparr>work_path = ''f'', work_index = 1\<rparr>] \<and>
    v_map (view_of (s_map s)) (''f'', 1) = None \<and> v_map (view_of (s_map s)) (''g'', 1) \<noteq> Some 0"
proof -
  let ?w = "\<lparr>work_path = ''f'', work_index = 1\<rparr>"
  obtain s where s: "reach sys_start orderly s" "s_phase s = Moving PROMOTION 0 ?w" "items (m_wq (s_map s)) = [?w]"
    using sample_promoting by blast
  have phase: "s_phase s = Idle \<or> s_phase s = Moving PROMOTION 0 ?w" using s(2) by simp
  have "v_map (view_of (s_map s)) (key_of ?w) = None" "v_map (view_of (s_map s)) (''g'', 1) \<noteq> Some 0"
    using queued_work_is_uncached [OF s(1) phase] s(2,3) by simp_all
  then show ?thesis using s(1,3) by (auto simp: key_of_def)
qed

end
