(* ===== verification/Well_Typed.thy ===== *)
theory Well_Typed
  imports System
begin








subsection \<open>From the invariant\<close>








subsection \<open>Properties\<close>



end
