(* ===== verification/Discard_Race.thy ===== *)
theory Discard_Race
  imports Mapping_Spec
begin

text \<open>
  What \<open>remove_mapping\<close> does to a page whose block the worker is demoting. It does not look
  at the pending bit: the block is in the table but on no queue, and \<open>l_del\<close> follows the links
  that it had when it left its queue.
\<close>

subsection \<open>Operations outside their contracts\<close>

text \<open>Deleting an entry that is on no list but still has the links of a former head.\<close>

definition stale_head :: "entry \<Rightarrow> u32 list \<Rightarrow> bool" where
  "stale_head e xs \<longleftrightarrow> e_prev e = INDEXER_NULL \<and> e_next e = first_of xs INDEXER_NULL"

lemma l_del_stale:
  assumes "dll es l xs" and "x < CACHE_BLOCK_NUMBER" and "stale_head (entrys es x) xs"
  shows "l_del es l (Entry x) = Some (es, l\<lparr>nr_elts := nr_elts l - 1\<rparr>)"
proof (cases xs)
  case Nil
  with assms show ?thesis
    by (simp add: l_del_def l_prev_def l_next_def stale_head_def dll_def)
next
  case (Cons y ys)
  have y: "y < CACHE_BLOCK_NUMBER" "e_prev (entrys es y) = INDEXER_NULL" "head l = y"
    using assms(1) by (simp_all add: dll_def Cons)
  then have "(entrys es)(y := (entrys es y)\<lparr>e_prev := INDEXER_NULL\<rparr>) = entrys es"
    by (simp add: fun_eq_iff)
  with assms y Cons show ?thesis
    by (simp add: l_del_def l_prev_def l_next_def stale_head_def)
qed

text \<open>Adding the only entry of a list to it again makes it its own neighbour on both sides.\<close>

lemma l_add_tail_again:
  assumes "dll es l [x]"
  shows "l_add_tail es l (Entry x) = Some
    (es\<lparr>entrys := (entrys es)(x := (entrys es x)\<lparr>e_prev := x, e_next := x\<rparr>)\<rparr>, l\<lparr>nr_elts := 2\<rparr>)"
proof -
  have x: "x < CACHE_BLOCK_NUMBER" "tail l = x" "nr_elts l = 1" using assms by (simp_all add: dll_def)
  then show ?thesis by (simp add: l_add_tail_def l_tail_def)
qed

text \<open>A free list of two elements that begins with an entry that is its own neighbour.\<close>

lemma alloc_twice:
  assumes "x < CACHE_BLOCK_NUMBER" and "head (ea_free ea) = x" and "nr_elts (ea_free ea) = 2"
    and "e_prev (entrys es x) = x" and "e_next (entrys es x) = x"
  shows "\<exists>ea1 es1 ea2 es2. alloc_entry ea es = Some (Entry x, ea1, es1) \<and>
    alloc_entry ea1 es1 = Some (Entry x, ea2, es2)"
  using assms in_array_not_null [OF assms(1)]
  by (simp add: alloc_entry_def l_empty_def l_pop_head_def l_head_def l_del_def l_prev_def l_next_def
      init_entry_def set_flag_laws)

lemma h_remove_miss:
  assumes "htab es ht H" and "x < CACHE_BLOCK_NUMBER" and "\<And>y. y \<in> H \<Longrightarrow> ekey (entrys es y) \<noteq> ekey (entrys es x)"
  shows "h_remove ht es (Entry x) = Some (ht, es)"
proof -
  let ?p = "full_path_name (entrys es x)" and ?c = "cache_page_index (entrys es x)"
  obtain xs where xs: "hpath (entrys es) (buckets ht (bucket_of (?p, ?c))) xs INDEXER_NULL"
      "set xs = {y \<in> H. bucket_of (ekey (entrys es y)) = bucket_of (?p, ?c)}"
    by (rule htab_chain [OF assms(1), of "(?p, ?c)"])
  have "hash_bits ht = 17" using assms(1) by (simp add: htab_def)
  then show ?thesis
    using xs assms(2,3) scan_chain_miss [OF xs(1), of ?p ?c ht NULL] hpath_to_entry [OF xs(1)]
    by (auto simp: h_remove_def hash_32_law raw_h_lookup_def h_head_def bucket_at_def ekey_def)
qed

text \<open>Lookups and removals in the table leave the list links of every entry alone.\<close>

lemma store_hash_frame:
  "store es e (\<lambda>x. x\<lparr>hash_next := i\<rparr>) = Some es' \<Longrightarrow> hash_frame es es'"
  by (cases e) (auto split: if_splits)

lemma raw_frames:
  "raw_h_unlink ht es h e prv = Some (ht', es') \<Longrightarrow> hash_frame es es'"
  "raw_h_insert ht es h e = Some (ht', es') \<Longrightarrow> hash_frame es es'"
  using store_hash_frame by (auto simp: raw_h_unlink_def raw_h_insert_def split: if_splits bind_splits)

lemma table_frames:
  "map_h_lookup m p c = Some (e, m') \<Longrightarrow> hash_frame (m_es m) (m_es m') \<and> m_clean m' = m_clean m"
  "map_h_remove m e = Some m' \<Longrightarrow> hash_frame (m_es m) (m_es m') \<and> m_clean m' = m_clean m"
  by (auto simp: map_h_lookup_def h_lookup_def map_h_remove_def h_remove_def split: if_splits bind_splits
      dest!: raw_frames simp: hash_frame_def)

text \<open>Table and allocator do not look at the clean queue.\<close>

lemma other_clean:
  "map_h_remove (m\<lparr>m_clean := l\<rparr>) e = map_option (m_clean_update (\<lambda>_. l)) (map_h_remove m e)"
  "map_free_entry (m\<lparr>m_clean := l\<rparr>) e = map_option (m_clean_update (\<lambda>_. l)) (map_free_entry m e)"
  by (auto simp: map_h_remove_def map_free_entry_def split: bind_splits)

subsection \<open>The run\<close>

text \<open>A demotion that starts leaves the links of a head in the block it takes.\<close>

lemma demotion_start_links:
  assumes "map_inv P m" and "v_clean (view_of m) = x # C"
    and "unat (v_blocks (view_of m)) div 2 < length (v_clean (view_of m))"
  shows "\<exists>m1. demotion_clean_to_free m c = Some (True, x, m1) \<and> map_inv P m1 \<and> in_flight x m1 \<and>
    stale_head (ent m1 x) C \<and> view_of m1 = (view_of m)\<lparr>v_clean := C, v_moving := (v_moving (view_of m))(x \<mapsto> False)\<rparr>"
proof -
  have "a_demote_start (view_of m) = Some (x, (view_of m)\<lparr>v_clean := C, v_moving := (v_moving (view_of m))(x \<mapsto> False)\<rparr>)"
    using assms(3) by (simp add: a_demote_start_def assms(2))
  then obtain m1 where m1: "demotion_clean_to_free m c = Some (True, x, m1)" "map_inv P m1" "in_flight x m1"
      "view_of m1 = (view_of m)\<lparr>v_clean := C, v_moving := (v_moving (view_of m))(x \<mapsto> False)\<rparr>"
    using demotion_start_law [OF assms(1), of c] by auto
  obtain F C' D T where inv: "minv m F C' D T P" and l: "locked (mapping_lock m) = 0"
    by (rule map_invE [OF assms(1)])
  note core = minv_core(1) [OF inv]
  have dll: "dll (m_es m) (m_clean m) (x # C)"
    using mcore_dll(2) [OF core] assms(2) view_fields(3) [OF core] by simp
  obtain es l' where d: "l_del (m_es m) (m_clean m) (Entry x) = Some (es, l')" "link_frame (set C) (m_es m) es"
    using l_del_law [of "m_es m" "m_clean m" "[]" x C] dll by auto
  have x: "x < CACHE_BLOCK_NUMBER" "x \<notin> set C" "stale_head (ent m x) C" "head (m_clean m) = x"
    using dll by (simp_all add: dll_def stale_head_def ent_def)
  have "entrys es x = ent m x" using link_frame_outside [OF d(2) x(2)] by (simp add: ent_def)
  moreover have "\<exists>m'. m1 = unlock_map (m'\<lparr>m_es := es\<lparr>entrys := (entrys es)(x := with_flag 0 True (entrys es x))\<rparr>\<rparr>)"
    using m1(1) l d(1) x(1,4)
    by (auto simp: demotion_clean_to_free_def queue_apply_def l_head_def in_es_def set_flag_laws split: if_splits bind_splits)
  ultimately have "stale_head (ent m1 x) C"
    using x(3) by (auto simp: ent_def unlock_map_def stale_head_def with_flag_def)
  with m1 show ?thesis by blast
qed

text \<open>The discard: the block leaves the table and joins the free list; the clean queue loses a count.\<close>

lemma discard_in_flight:
  assumes "map_inv P m" and "v_free (view_of m) = []" and "x \<notin> P" and "in_flight x m"
    and "stale_head (ent m x) (v_clean (view_of m))" and "v_moving (view_of m) x = Some False"
    and "v_key (view_of m) x = Some (p, to_cache_page_index i)"
  shows "\<exists>D T m' H. remove_mapping m p i =
      Some (True, unlock_map (m'\<lparr>m_clean := (m_clean m')\<lparr>nr_elts := of_nat (length (v_clean (view_of m))) - 1\<rparr>\<rparr>)) \<and>
    mcore m' [x] (v_clean (view_of m)) D T H \<and> x \<notin> H \<and> (\<forall>y \<in> H. mkey m' y \<noteq> mkey m' x) \<and>
    mapping_lock m' = (mapping_lock m)\<lparr>locked := 1\<rparr>"
proof -
  obtain F C D T where inv: "minv m F C D T P" and l: "locked (mapping_lock m) = 0"
    by (rule map_invE [OF assms(1)])
  let ?k = "(p, to_cache_page_index i)" and ?H = "set C \<union> set D \<union> (T - P)"
  let ?m0 = "m\<lparr>mapping_lock := (mapping_lock m)\<lparr>locked := 1\<rparr>\<rparr>"
  note core = minv_core(1) [OF inv]
  have F: "F = []" and C: "C = v_clean (view_of m)" using assms(2) view_fields(2,3) [OF core] by simp_all
  have xT: "x \<in> T" using assms(4) in_flight_iff [OF inv] by blast
  then have xH: "x \<in> ?H" and x: "x < CACHE_BLOCK_NUMBER" and xC: "x \<notin> set C"
    using assms(3) mcore_bound [OF core] mcore_dll(11) [OF core] by auto
  have k: "mkey m x = ?k" and nd: "\<not> is_dirty (ent m x)"
    using assms(6,7) view_fields(5,6) [OF core, of x] by (simp_all split: if_splits)
  have core0: "mcore ?m0 F C D T ?H" using core by simp
  obtain m1 where m1: "map_h_lookup ?m0 p (to_cache_page_index i) = Some (Entry x, m1)" "mcore m1 F C D T ?H" "keeps ?m0 m1"
    by (rule h_lookup_step [OF core0 xH]) (use k in simp_all)
  have frame: "hash_frame (m_es m) (m_es m1)" "m_clean m1 = m_clean m"
    using table_frames(1) [OF m1(1)] by simp_all
  have stale: "stale_head (entrys (m_es m1) x) C"
    using assms(5) frame(1) by (simp add: C stale_head_def hash_frame_def ent_def)
  let ?l = "(m_clean m1)\<lparr>nr_elts := of_nat (length C) - 1\<rparr>"
  have nr: "nr_elts (m_clean m1) = of_nat (length C)"
    using mcore_dll(2) [OF m1(2)] by (simp add: dll_def)
  have "\<not> is_dirty (ent m1 x)" using nd keeps_flags(2) [OF m1(3)] by simp
  then have del: "queue_del m1 (Entry x) = Some (m1\<lparr>m_clean := ?l\<rparr>)"
    using l_del_stale [OF mcore_dll(2) [OF m1(2)] x stale] x
    by (simp add: queue_del_def queue_apply_def get_flags nr)
  obtain m2 where m2: "map_h_remove m1 (Entry x) = Some m2" "mcore m2 F C D T (?H - {x})" "keeps m1 m2"
    by (rule h_remove_step [OF m1(2) xT xH])
  have c2: "m_clean m2 = m_clean m1" using table_frames(2) [OF m2(1)] by simp
  obtain m3 where m3: "map_free_entry m2 (Entry x) = Some m3" "mcore m3 (F @ [x]) C D (T - {x}) (?H - {x})"
      "keeps (put_entry x (with_flag 2 False (ent m2 x)) m2) m3"
    by (rule free_step [OF m2(2) xT]) simp
  have c3: "m_clean m3 = m_clean m1"
    using m3(1) c2 by (auto simp: map_free_entry_def split: bind_splits)
  have "remove_mapping m p i = Some (True, unlock_map (m3\<lparr>m_clean := (m_clean m3)\<lparr>nr_elts := of_nat (length C) - 1\<rparr>\<rparr>))"
    using l m1(1) del m2(1) m3(1) by (simp add: remove_mapping_def other_clean c3)
  moreover have key: "mkey m3 y = mkey m y" for y
    using keeps_flags(4) [OF m3(3), of y] keeps_flags(4) [OF m2(3), of y] keeps_flags(4) [OF m1(3), of y]
    by (cases "y = x") (simp_all add: mkey_def)
  have inj: "inj_on (mkey m) ?H" using core by (simp add: mcore_def)
  then have "\<forall>y \<in> ?H - {x}. mkey m3 y \<noteq> mkey m3 x"
    using xH unfolding key inj_on_def by blast
  moreover have "mapping_lock m3 = (mapping_lock m)\<lparr>locked := 1\<rparr>"
    using keeps_rest(5) [OF m3(3)] keeps_rest(5) [OF m2(3)] keeps_rest(5) [OF m1(3)] by simp
  ultimately show ?thesis
    using m3(2) F
    by (intro exI [of _ D] exI [of _ "T - {x}"] exI [of _ m3] exI [of _ "?H - {x}"]) (simp add: C [symmetric])
qed

text \<open>The completion frees the block again.\<close>

lemma complete_again:
  assumes "mcore m [x] C D T H" and "\<forall>y \<in> H. mkey m y \<noteq> mkey m x" and "locked (mapping_lock m) = 0"
  shows "\<exists>m' ea1 es1 ea2 es2. demotion_complete (m\<lparr>m_clean := l\<rparr>) x True = Some m' \<and>
    alloc_entry (m_ea m') (m_es m') = Some (Entry x, ea1, es1) \<and> alloc_entry ea1 es1 = Some (Entry x, ea2, es2)"
proof -
  have x: "x < CACHE_BLOCK_NUMBER" using mcore_bound [OF assms(1), of x] by simp
  let ?m1 = "(put_entry x (with_flag 0 False (ent m x)) m)\<lparr>demotion_time := demotion_time m + 1,
      mapping_lock := (mapping_lock m)\<lparr>locked := 1\<rparr>\<rparr>"
  have core: "mcore ?m1 [x] C D T H"
    using mcore_put_flag [OF assms(1), of x 0 False] by simp
  have keys: "mkey ?m1 y = mkey m y" for y by (simp add: mkey_def)
  have "\<forall>y \<in> H. mkey ?m1 y \<noteq> mkey ?m1 x" unfolding keys by (rule assms(2))
  then have gone: "h_remove (m_table ?m1) (m_es ?m1) (Entry x) = Some (m_table ?m1, m_es ?m1)"
    using core x by (intro h_remove_miss [where H = H]) (auto simp: mcore_def mkey_def ent_def)
  let ?es = "(m_es ?m1)\<lparr>entrys := (entrys (m_es ?m1))(x := with_flag 2 False (entrys (m_es ?m1) x))\<rparr>"
  have "dll ?es (ea_free (m_ea ?m1)) [x]"
    using mcore_dll(1) [OF core] by (auto simp: dll_def)
  from l_add_tail_again [OF this]
  obtain es' where es': "l_add_tail ?es (ea_free (m_ea ?m1)) (Entry x) = Some (es', (ea_free (m_ea ?m1))\<lparr>nr_elts := 2\<rparr>)"
      "e_prev (entrys es' x) = x" "e_next (entrys es' x) = x"
    by simp
  let ?ea = "(m_ea ?m1)\<lparr>nr_allocated := nr_allocated (m_ea ?m1) - 1, ea_free := (ea_free (m_ea ?m1))\<lparr>nr_elts := 2\<rparr>\<rparr>"
  have free: "free_entry (m_ea ?m1) (m_es ?m1) (Entry x) = Some (?ea, es')"
    using x es'(1) by (simp add: free_entry_def set_flag_laws)
  have "demotion_complete (m\<lparr>m_clean := l\<rparr>) x True =
      Some (unlock_map (m\<lparr>m_clean := l, mapping_lock := (mapping_lock m)\<lparr>locked := 1\<rparr>,
        demotion_time := demotion_time m + 1, m_ea := ?ea, m_es := es'\<rparr>))"
    using assms(3) x gone free
    by (simp add: demotion_complete_def lock_map_def in_es_flags put_entry_def ent_def
        map_h_remove_def map_free_entry_def)
  moreover have "head (ea_free ?ea) = x" using mcore_dll(1) [OF core] by (simp add: dll_def)
  then obtain ea1 es1 ea2 es2 where "alloc_entry ?ea es' = Some (Entry x, ea1, es1)" "alloc_entry ea1 es1 = Some (Entry x, ea2, es2)"
    using alloc_twice [OF x, of ?ea es'] es'(2,3) by auto
  ultimately show ?thesis by (auto simp: unlock_map_def)
qed

subsection \<open>Properties\<close>

text \<open>
  C23: when a page is discarded while the worker demotes its block, from any state of the
  cache with no free block, both calls succeed, the block is put on the free list twice, and the
  next two allocations hand out the same block: two cache pages share it from then on.
\<close>

theorem discard_in_flight_doubles:
  assumes "map_inv P m" and "v_free (view_of m) = []" and "v_clean (view_of m) = x # C"
    and "unat (v_blocks (view_of m)) div 2 < length (v_clean (view_of m))"
    and "v_map (view_of m) (p, to_cache_page_index i) = Some x"
  shows "\<exists>m1 m2 m3 ea1 es1 ea2 es2. demotion_clean_to_free m c = Some (True, x, m1) \<and>
    remove_mapping m1 p i = Some (True, m2) \<and> demotion_complete m2 x True = Some m3 \<and>
    alloc_entry (m_ea m3) (m_es m3) = Some (Entry x, ea1, es1) \<and> alloc_entry ea1 es1 = Some (Entry x, ea2, es2)"
proof -
  obtain m1 where m1: "demotion_clean_to_free m c = Some (True, x, m1)" "map_inv P m1" "in_flight x m1"
      "stale_head (ent m1 x) C" "view_of m1 = (view_of m)\<lparr>v_clean := C, v_moving := (v_moving (view_of m))(x \<mapsto> False)\<rparr>"
    using demotion_start_links [OF assms(1,3,4), of c] by blast
  have key: "x \<notin> P" "v_key (view_of m1) x = Some (p, to_cache_page_index i)"
    using injective_law [OF assms(1), of "(p, to_cache_page_index i)" x] assms(5) m1(5) by simp_all
  obtain D T m' H where m': "remove_mapping m1 p i = Some (True,
        unlock_map (m'\<lparr>m_clean := (m_clean m')\<lparr>nr_elts := of_nat (length (v_clean (view_of m1))) - 1\<rparr>\<rparr>))"
      "mcore m' [x] (v_clean (view_of m1)) D T H" "\<forall>y \<in> H. mkey m' y \<noteq> mkey m' x"
    using discard_in_flight [OF m1(2) _ key(1) m1(3) _ _ key(2)] m1(4,5) assms(2) by auto
  let ?u = "m'\<lparr>mapping_lock := spinlock_unlock (mapping_lock m')\<rparr>"
  have "mcore ?u [x] (v_clean (view_of m1)) D T H" "\<forall>y \<in> H. mkey ?u y \<noteq> mkey ?u x" "locked (mapping_lock ?u) = 0"
    using m'(2,3) by simp_all
  moreover have "unlock_map (m'\<lparr>m_clean := l\<rparr>) = ?u\<lparr>m_clean := l\<rparr>" for l
    by (cases m') (simp add: unlock_map_def)
  ultimately show ?thesis
    using complete_again [of ?u x] m1(1) m'(1) by fastforce
qed

theorem discard_in_flight_doubles_witness:
  "\<exists>m m1 m2 m3 ea1 es1 ea2 es2. v_map (view_of m) (''f'', 1) = Some 0 \<and>
    demotion_clean_to_free m 9 = Some (True, 0, m1) \<and> remove_mapping m1 ''f'' 8 = Some (True, m2) \<and>
    demotion_complete m2 0 True = Some m3 \<and>
    alloc_entry (m_ea m3) (m_es m3) = Some (Entry 0, ea1, es1) \<and> alloc_entry ea1 es1 = Some (Entry 0, ea2, es2)"
proof -
  obtain m where m: "map_inv {} m" "view_of m = (empty_view 1 6)\<lparr>v_free := [], v_clean := [0], v_promotions := 1,
      v_key := [0 \<mapsto> (''f'', 1)], v_map := [(''f'', 1) \<mapsto> 0]\<rparr>"
    using one_map_filled by blast
  have i: "to_cache_page_index 8 = 1"
    by (simp add: to_cache_page_index_def drop_bit_eq_div)
  have "v_free (view_of m) = []" "v_clean (view_of m) = [0]" "unat (v_blocks (view_of m)) div 2 < length (v_clean (view_of m))"
      "v_map (view_of m) (''f'', to_cache_page_index 8) = Some 0"
    by (simp_all add: m(2) i) (simp add: empty_view_def)
  from discard_in_flight_doubles [OF m(1) this, of 9] this(4) show ?thesis unfolding i by blast
qed

end
