(* ===== verification/Storage.thy ===== *)
theory Storage
  imports Target_Spec
begin

text \<open>
  What the requests and the moves do to data. The contents of device, memory and files are
  read off the external world by a parameter \<open>V\<close>; \<open>obeys\<close> states the documented
  behaviour of the commands on them: transfers of the NVMe driver, which collects the
  segments of a vectored command through the callbacks of the code, and of \<open>open\<close>, \<open>pread\<close>,
  \<open>pwrite\<close> and their vectored forms. A command's effect is attributed to its submission:
  nobody looks at its data before it completes.
\<close>

subsection \<open>Contents\<close>

type_synonym byte = "8 word"

record storage =
  ssd :: "nat \<Rightarrow> byte"
  ram :: "addr \<Rightarrow> byte"
  files :: "cstring \<Rightarrow> nat \<Rightarrow> byte"
  fds :: "int \<Rightarrow> cstring"

definition overlay :: "(nat \<Rightarrow> byte) \<Rightarrow> nat \<Rightarrow> byte list \<Rightarrow> (nat \<Rightarrow> byte)" where
  "overlay d k xs = (\<lambda>i. if k \<le> i \<and> i < k + length xs then xs ! (i - k) else d i)"

definition fill :: "addr list \<Rightarrow> byte list \<Rightarrow> (addr \<Rightarrow> byte) \<Rightarrow> (addr \<Rightarrow> byte)" where
  "fill as xs r = fold (\<lambda>(a, x) r. r(a := x)) (zip as xs) r"

definition addrs :: "addr \<Rightarrow> nat \<Rightarrow> addr list" where
  "addrs a n = map (\<lambda>i. a + of_nat i) [0..<n]"

text \<open>The addresses that the driver collects for a vectored command.\<close>

definition gather :: "io_req \<Rightarrow> addr list" where
  "gather req = (case reset_sgl_fn req 0 of
     None \<Rightarrow> []
   | Some req' \<Rightarrow> (case sge_walk (nat (iov_cnt req')) req' of
       None \<Rightarrow> [] | Some segs \<Rightarrow> concat (map segment_bytes segs)))"

text \<open>
  What a command with return code \<open>rc\<close> does; \<open>bs\<close> is the size of a device block. Deallocated
  blocks may hold anything afterwards.
\<close>

fun performs :: "nat \<Rightarrow> io_cmd \<Rightarrow> int \<Rightarrow> storage \<Rightarrow> storage \<Rightarrow> bool" where
  "performs bs (NsRead q a off n) rc s s' \<longleftrightarrow> s' = (if rc \<noteq> 0 then s else s\<lparr>ram :=
     fill (addrs a (unat n * bs)) (map (ssd s) [unat off * bs..<(unat off + unat n) * bs]) (ram s)\<rparr>)"
| "performs bs (NsWrite q a off n) rc s s' \<longleftrightarrow> s' = (if rc \<noteq> 0 then s else s\<lparr>ssd :=
     overlay (ssd s) (unat off * bs) (map (ram s) (addrs a (unat n * bs)))\<rparr>)"
| "performs bs (NsReadv q req off n) rc s s' \<longleftrightarrow> s' = (if rc \<noteq> 0 then s else s\<lparr>ram :=
     fill (take (unat n * bs) (gather req)) (map (ssd s) [unat off * bs..<(unat off + unat n) * bs]) (ram s)\<rparr>)"
| "performs bs (NsWritev q req off n) rc s s' \<longleftrightarrow> s' = (if rc \<noteq> 0 then s else s\<lparr>ssd :=
     overlay (ssd s) (unat off * bs) (map (ram s) (take (unat n * bs) (gather req)))\<rparr>)"
| "performs bs (NsDeallocate q off n) rc s s' \<longleftrightarrow>
     (\<exists>d. s' = s\<lparr>ssd := d\<rparr> \<and> (\<forall>i. i < unat off * bs \<or> (unat off + unat n) * bs \<le> i \<or> rc \<noteq> 0 \<longrightarrow> d i = ssd s i))"
| "performs bs (OpenFile path mode) rc s s' \<longleftrightarrow>
     s' = (if rc < 0 \<or> path = None then s else s\<lparr>fds := (fds s)(rc := the path)\<rparr>)"
| "performs bs (CloseFile fd) rc s s' \<longleftrightarrow> s' = s"
| "performs bs (Pread fd a n off) rc s s' \<longleftrightarrow> rc \<le> uint n \<and> s' = s\<lparr>ram :=
     fill (addrs a (nat rc)) (map (files s (fds s fd)) [unat off..<unat off + nat rc]) (ram s)\<rparr>"
| "performs bs (Pwrite fd a n off) rc s s' \<longleftrightarrow> rc \<le> uint n \<and> s' = s\<lparr>files := (files s)(fds s fd :=
     overlay (files s (fds s fd)) (unat off) (map (ram s) (addrs a (nat rc))))\<rparr>"
| "performs bs (Preadv fd vs k off) rc s s' \<longleftrightarrow> s' = s\<lparr>ram :=
     fill (take (nat rc) (iov_bytes vs)) (map (files s (fds s fd)) [unat off..<unat off + nat rc]) (ram s)\<rparr>"
| "performs bs (Pwritev fd vs k off) rc s s' \<longleftrightarrow> s' = s\<lparr>files := (files s)(fds s fd :=
     overlay (files s (fds s fd)) (unat off) (map (ram s) (take (nat rc) (iov_bytes vs))))\<rparr>"

definition obeys :: "nat \<Rightarrow> 'w driver \<Rightarrow> ('w \<Rightarrow> storage) \<Rightarrow> bool" where
  "obeys bs S V \<longleftrightarrow> (\<forall>c w. performs bs c (fst (submit S c w)) (V w) (V (snd (submit S c w)))) \<and>
     (\<forall>q w. V (snd (poll S q w)) = V w)"

lemma overlay_apply: "overlay d k xs i = (if k \<le> i \<and> i < k + length xs then xs ! (i - k) else d i)"
  by (simp add: overlay_def)

lemma length_addrs [simp]: "length (addrs a n) = n"
  by (simp add: addrs_def)

lemma fill_apply:
  assumes "distinct as" and "length as \<le> length xs"
  shows "i < length as \<Longrightarrow> fill as xs r (as ! i) = xs ! i" and "a \<notin> set as \<Longrightarrow> fill as xs r a = r a"
proof -
  have "(\<forall>i < length as. fill as xs r (as ! i) = xs ! i) \<and> (\<forall>a. a \<notin> set as \<longrightarrow> fill as xs r a = r a)"
    using assms
  proof (induction as arbitrary: xs r)
    case (Cons b as)
    then obtain x xs' where xs: "xs = x # xs'" by (cases xs) auto
    have "fill (b # as) xs r = fill as xs' (r(b := x))" by (simp add: fill_def xs)
    moreover have "(\<forall>i < length as. fill as xs' (r(b := x)) (as ! i) = xs' ! i) \<and>
        (\<forall>a. a \<notin> set as \<longrightarrow> fill as xs' (r(b := x)) a = (r(b := x)) a)"
      using Cons.prems xs by (intro Cons.IH) auto
    ultimately show ?case
      using Cons.prems xs by (auto simp: nth_Cons split: nat.splits)
  qed (simp add: fill_def)
  then show "i < length as \<Longrightarrow> fill as xs r (as ! i) = xs ! i" "a \<notin> set as \<Longrightarrow> fill as xs r a = r a"
    by simp_all
qed

lemma fill_other: "a \<notin> set as \<Longrightarrow> fill as xs r a = r a"
proof (induction as arbitrary: xs r)
  case (Cons b as)
  then show ?case by (cases xs) (simp_all add: fill_def)
qed (simp add: fill_def)

lemma set_addrs_mono: "k \<le> n \<Longrightarrow> set (addrs a k) \<subseteq> set (addrs a n)"
  by (auto simp: addrs_def)

lemma distinct_addrs: "n < 2 ^ 64 \<Longrightarrow> distinct (addrs a n)"
proof -
  assume n: "n < 2 ^ 64"
  have "inj_on (\<lambda>i. a + of_nat i :: addr) {0..<n}"
  proof (rule inj_onI)
    fix i j
    assume ij: "i \<in> {0..<n}" "j \<in> {0..<n}" "a + (of_nat i :: addr) = a + of_nat j"
    then have "unat (of_nat i :: addr) = unat (of_nat j :: addr)" by simp
    then show "i = j" using n ij(1,2) by (simp add: unat_of_nat)
  qed
  then show ?thesis by (simp add: addrs_def distinct_map)
qed

text \<open>The driver collects exactly the bytes of the vector.\<close>

lemma gather_vec:
  assumes "length vs < 2 ^ 31" and "\<forall>v \<in> set vs. iov_len v < 2 ^ 32"
  shows "gather (init_req stack_req vs (int (length vs))) = iov_bytes vs"
proof -
  obtain req segs where r: "reset_sgl_fn (init_req stack_req vs (int (length vs))) 0 = Some req"
      "sge_walk (length vs) req = Some segs" "concat (map segment_bytes segs) = iov_bytes vs"
    using scatter_law [OF assms, of stack_req 0] by auto
  have "iov_cnt req = int (length vs)"
    using seek_keeps [OF r(1) [unfolded reset_sgl_fn_def]] by (simp add: init_req_def)
  with r show ?thesis by (simp add: gather_def)
qed

subsection \<open>Transfers\<close>

lemma obeys_submit: "obeys bs S V \<Longrightarrow> submit S c w = (rc, w') \<Longrightarrow> performs bs c rc (V w) (V w')"
  unfolding obeys_def by (metis fst_conv snd_conv)

lemma obeys_poll: "obeys bs S V \<Longrightarrow> poll S q w = (ds, w') \<Longrightarrow> V w' = V w"
  unfolding obeys_def by (metis snd_conv)

lemma obeys_logged: "obeys bs S V \<Longrightarrow> obeys bs (logged S) (V \<circ> fst)"
  by (auto simp: obeys_def)

lemma await_keeps:
  assumes "await S q mine b w = Some w'" and "obeys bs S V"
  shows "V w' = V w"
  using assms
proof (rule await.raw_induct [where P = "\<lambda>S q mine b w w'. obeys bs S V \<longrightarrow> V w' = V w", THEN mp, rotated])
  fix f :: "'a driver \<Rightarrow> queue_type \<Rightarrow> callback \<Rightarrow> bool \<Rightarrow> 'a \<Rightarrow> 'a option"
    and S :: "'a driver" and q mine b w w'
  assume IH: "\<And>S q mine b w w'. f S q mine b w = Some w' \<Longrightarrow> obeys bs S V \<longrightarrow> V w' = V w"
    and eq: "(if b then Some w else (let (ds, w') = poll S q w in f S q mine (fold (run_callback mine) ds b) w')) = Some w'"
  show "obeys bs S V \<longrightarrow> V w' = V w"
  proof
    assume ob: "obeys bs S V"
    obtain ds w1 where p: "poll S q w = (ds, w1)" by (cases "poll S q w")
    show "V w' = V w"
    proof (cases b)
      case True
      then show ?thesis using eq by simp
    next
      case False
      then have "V w' = V w1" using eq p IH ob by auto
      then show ?thesis using obeys_poll [OF ob p] by simp
    qed
  qed
qed

text \<open>A command that was sent in \<open>w\<close>, with the code it got, and its effect by the time of \<open>w'\<close>.\<close>

definition carried :: "nat \<Rightarrow> 'w driver \<Rightarrow> ('w \<Rightarrow> storage) \<Rightarrow> io_cmd \<Rightarrow> int \<Rightarrow> 'w \<Rightarrow> 'w \<Rightarrow> bool" where
  "carried bs S V c rc w w' \<longleftrightarrow> rc = fst (submit S c w) \<and> performs bs c rc (V w) (V w')"

lemma waits_performs:
  assumes "obeys bs S V"
    and "(let (rc, w) = submit S c w in
      if rc \<noteq> 0 then Some (rc, w) else do { w \<leftarrow> await S q cb b w; Some (0, w) }) = Some (rc, w')"
  shows "carried bs S V c rc w w'"
proof -
  obtain r w1 where r: "submit S c w = (r, w1)" by (cases "submit S c w")
  have 1: "performs bs c r (V w) (V w1)" by (rule obeys_submit [OF assms(1) r])
  show ?thesis
  proof (cases "r = 0")
    case False
    with assms(2) r 1 show ?thesis by (simp add: carried_def)
  next
    case True
    with assms(2) r obtain "await S q cb b w1 = Some w'" and "rc = 0"
      by (cases "await S q cb b w1") auto
    with 1 True r await_keeps [OF _ assms(1)] show ?thesis
      unfolding carried_def by (metis fst_conv)
  qed
qed

lemma transfer_performs:
  assumes "obeys bs S V"
  shows "read_spdk S a off n q w = Some (rc, w') \<Longrightarrow> carried bs S V (NsRead q a off n) rc w w'"
    and "write_spdk S a off n q w = Some (rc, w') \<Longrightarrow> carried bs S V (NsWrite q a off n) rc w w'"
    and "readv_spdk S vs k off n q w = Some (rc, w') \<Longrightarrow>
      carried bs S V (NsReadv q (init_req stack_req vs k) off n) rc w w'"
    and "writev_spdk S vs k off n q w = Some (rc, w') \<Longrightarrow>
      carried bs S V (NsWritev q (init_req stack_req vs k) off n) rc w w'"
  using waits_performs [OF assms] unfolding read_spdk_def write_spdk_def readv_spdk_def writev_spdk_def Let_def
  by blast+

subsection \<open>Requests\<close>

lemma hit_performs:
  assumes "obeys bs S V" and "cache_geometry c" and "request_ok p" and "pio_operation (hd p) \<noteq> DISCARD"
    and "b < CACHE_BLOCK_NUMBER" and "map_to_cache S c p b w = Some (rc, c', w')"
  shows "\<exists>cmd. block_cmd c p b cmd \<and> carried bs S V cmd rc w w'"
proof -
  obtain x ps where p: "p = x # ps" using assms(3) by (cases p) (auto simp: request_ok_def)
  let ?s = "dev_block_per_page_shift (cache_dev c)"
  let ?req = "init_req stack_req (pio_vec p) (uint (pio_cnt x))"
  note vec = request_vec [OF assms(3), unfolded p list.sel]
  obtain lba where lba: "target_block c x b = Some lba"
      "unat lba = (unat b * 8 + unat (pio_page_index x AND 7)) * 2 ^ unat ?s"
    using target_block_law [OF assms(2,5)] by blast
  obtain n where cnt: "shl_int (uint (pio_cnt x)) ?s = Some n" "unat (of_int n :: u32) = unat (pio_cnt x) * 2 ^ unat ?s"
    by (rule block_count [OF assms(2) vec(3)])
  let ?n = "of_int n :: u32"
  note defs = map_to_cache_def p lba(1) vec(1,2) [unfolded p] cnt(1)
  show ?thesis
  proof (cases "pio_operation x = READ")
    case True
    have "readv_spdk S (pio_vec p) (uint (pio_cnt x)) (ucast lba) ?n IO_QUEUE w = Some (rc, w')"
      using assms(6) True
      by (cases "readv_spdk S (pio_vec p) (uint (pio_cnt x)) (ucast lba) ?n IO_QUEUE w") (auto simp: defs read_cache_def)
    then have "carried bs S V (NsReadv IO_QUEUE ?req (ucast lba) ?n) rc w w'"
      by (rule transfer_performs(3) [OF assms(1)])
    moreover have "block_cmd c p b (NsReadv IO_QUEUE ?req (ucast lba) ?n)"
      unfolding block_cmd_def using True p lba(2) cnt(2) by (intro exI conjI) auto
    ultimately show ?thesis by blast
  next
    case False
    have "writev_spdk S (pio_vec p) (uint (pio_cnt x)) (ucast lba) ?n IO_QUEUE w = Some (rc, w')"
      using assms(6) False
      by (cases "writev_spdk S (pio_vec p) (uint (pio_cnt x)) (ucast lba) ?n IO_QUEUE w")
         (auto simp: defs write_cache_def split: if_splits bind_splits)
    then have "carried bs S V (NsWritev IO_QUEUE ?req (ucast lba) ?n) rc w w'"
      by (rule transfer_performs(4) [OF assms(1)])
    moreover have "block_cmd c p b (NsWritev IO_QUEUE ?req (ucast lba) ?n)"
      unfolding block_cmd_def using False p lba(2) cnt(2) by (intro exI conjI) auto
    ultimately show ?thesis by blast
  qed
qed

lemma file_commands_keep_ssd:
  "performs bs (OpenFile path mode) rc s s' \<Longrightarrow> ssd s' = ssd s"
  "performs bs (Preadv fd vs k off) rc s s' \<Longrightarrow> ssd s' = ssd s"
  "performs bs (Pwritev fd vs k off) rc s s' \<Longrightarrow> ssd s' = ssd s"
  "performs bs (CloseFile fd) rc s s' \<Longrightarrow> ssd s' = ssd s"
  by simp_all

lemma submit_file_keeps:
  assumes "obeys bs S V"
  shows "ssd (V (snd (submit S (OpenFile path mode) w))) = ssd (V w)"
    and "ssd (V (snd (submit S (Preadv fd vs k off) w))) = ssd (V w)"
    and "ssd (V (snd (submit S (Pwritev fd vs k off) w))) = ssd (V w)"
    and "ssd (V (snd (submit S (CloseFile fd) w))) = ssd (V w)"
proof -
  have "performs bs c (fst (submit S c w)) (V w) (V (snd (submit S c w)))" for c
    using assms by (simp only: obeys_def)
  from file_commands_keep_ssd(1) [OF this] file_commands_keep_ssd(2) [OF this]
    file_commands_keep_ssd(3) [OF this] file_commands_keep_ssd(4) [OF this]
  show "ssd (V (snd (submit S (OpenFile path mode) w))) = ssd (V w)"
    "ssd (V (snd (submit S (Preadv fd vs k off) w))) = ssd (V w)"
    "ssd (V (snd (submit S (Pwritev fd vs k off) w))) = ssd (V w)"
    "ssd (V (snd (submit S (CloseFile fd) w))) = ssd (V w)"
    by this+
qed

lemma origin_keeps_ssd:
  assumes "obeys bs S V" and "map_to_origin S c p w = Some (rc, c', w')"
  shows "ssd (V w') = ssd (V w)"
proof -
  note keep = submit_file_keeps [OF assms(1)]
  obtain x ps where p: "p = x # ps" using assms(2) by (cases p) (simp_all add: map_to_origin_def)
  note run = assms(2) [unfolded map_to_origin_def p list.case]
  obtain vs where vs: "pio_to_iovec (nat (sint (pio_cnt x))) (x # ps) = Some vs"
    using run by (cases "pio_to_iovec (nat (sint (pio_cnt x))) (x # ps)")
      (auto simp: read_origin_def write_origin_def split: if_splits)
  show ?thesis
  proof (cases "pio_operation x = READ")
    case True
    with run have "read_origin S c (x # ps) w = Some (rc, c', w')" by simp
    then show ?thesis
      by (cases "pio_fd x = 0"; cases "fst (submit S (OpenFile (Some (pio_path x)) O_RDONLY_CREAT) w) < 0")
         (auto simp: read_origin_def vs case_prod_beta Let_def keep)
  next
    case False
    with run have "write_origin S c (x # ps) w = Some (rc, c', w')" by simp
    then show ?thesis
      by (cases "pio_fd x = 0"; cases "fst (submit S (OpenFile (Some (pio_path x)) O_WRONLY_CREAT) w) < 0")
         (auto simp: write_origin_def vs case_prod_beta Let_def keep)
  qed
qed

lemma submit_split:
  assumes "map_inv P (cache_map c)" and "request_ok p" and "pio_operation (hd p) \<noteq> DISCARD"
    and "submit_to_target S c p w = Some (rc, c', w')"
  defines "r \<equiv> a_request_lookup (hd p) (view_of (cache_map c))"
  shows "\<exists>m1. map_inv P m1 \<and> view_of m1 = snd r \<and> (case fst r of
      Some b \<Rightarrow> map_to_cache S (c\<lparr>cache_map := m1\<rparr>) p b w = Some (rc, c', w')
    | None \<Rightarrow> map_to_origin S (c\<lparr>cache_map := m1\<rparr>) p w = Some (rc, c', w'))"
proof -
  obtain x ps where p: "p = x # ps" using assms(2) by (cases p) (auto simp: request_ok_def)
  have ok: "check_pio x" "length (pio_path x) \<le> MAX_PATH_SIZE"
    using assms(2) p by (simp_all add: request_ok_def)
  obtain m1 where m1: "(if optimizable x then lookup_mapping_with_insert (cache_map c) (pio_path x) (pio_page_index x) 0
        else lookup_mapping (cache_map c) (pio_path x) (pio_page_index x) 0) =
      Some (fst r \<noteq> None, result_block (fst r) 0, m1)" "map_inv P m1" "view_of m1 = snd r"
    using request_lookup_law [OF assms(1) ok(2)] p by (auto simp: r_def)
  have "submit_to_target S c p w = (if fst r \<noteq> None
      then map_to_cache S (c\<lparr>cache_map := m1\<rparr>) p (result_block (fst r) 0) w else map_to_origin S (c\<lparr>cache_map := m1\<rparr>) p w)"
    using p assms(3) ok(1) m1(1) by (simp add: submit_to_target_def map_pio_def)
  then show ?thesis
    using assms(4) m1(2,3) by (intro exI [of _ m1]) (auto split: option.splits)
qed

lemma submit_performs:
  assumes "obeys bs S V" and "cache_geometry c" and "map_inv P (cache_map c)"
    and "request_ok p" and "pio_operation (hd p) \<noteq> DISCARD" and "submit_to_target S c p w = Some (rc, c', w')"
  shows "case fst (a_request_lookup (hd p) (view_of (cache_map c))) of
      Some b \<Rightarrow> \<exists>cmd. block_cmd c p b cmd \<and> carried bs S V cmd rc w w'
    | None \<Rightarrow> ssd (V w') = ssd (V w)"
proof -
  let ?r = "a_request_lookup (hd p) (view_of (cache_map c))"
  obtain m1 where m1: "view_of m1 = snd ?r" "case fst ?r of
      Some b \<Rightarrow> map_to_cache S (c\<lparr>cache_map := m1\<rparr>) p b w = Some (rc, c', w')
    | None \<Rightarrow> map_to_origin S (c\<lparr>cache_map := m1\<rparr>) p w = Some (rc, c', w')"
    using submit_split [OF assms(3-6)] by blast
  let ?c = "c\<lparr>cache_map := m1\<rparr>"
  show ?thesis
  proof (cases "fst ?r")
    case None
    with m1(2) origin_keeps_ssd [OF assms(1)] show ?thesis by simp
  next
    case (Some b)
    have "b < cache_block_num (cache_map c)"
      using lookup_block_bound [OF assms(3) Some] .
    then have b: "b < CACHE_BLOCK_NUMBER"
      using assms(3) by (auto elim!: map_invE dest!: minv_core(1) simp: mcore_def)
    have geo: "cache_geometry ?c"
      using assms(2) by (simp add: cache_geometry_def view_shift m1(1) a_request_lookup_def)
    have "block_cmd ?c = block_cmd c" by (simp add: block_cmd_def fun_eq_iff)
    then show ?thesis
      using hit_performs [OF assms(1) geo assms(4,5) b, of w rc c' w'] m1(2) Some by simp
  qed
qed

subsection \<open>The bytes of a request\<close>

text \<open>The pages of a request, as addresses of its buffers.\<close>

definition request_addrs :: "pio \<Rightarrow> addr list" where
  "request_addrs p = iov_bytes (pio_vec p)"

definition page_bytes :: "nat \<Rightarrow> cache \<Rightarrow> bool" where
  "page_bytes bs c \<longleftrightarrow> bs * 2 ^ unat (dev_block_per_page_shift (cache_dev c)) = 4096"

text \<open>Where page \<open>i\<close> of a cache page lies on the device when block \<open>b\<close> has it.\<close>

definition page_start :: "u32 \<Rightarrow> u32 \<Rightarrow> nat" where
  "page_start b i = (unat b * 8 + unat (i AND 7)) * 4096"

lemma length_iov_pages: "length (iov_bytes (map (page_vec \<circ> f) xs)) = length xs * 4096"
  by (induction xs) (simp_all add: page_vec_def)

lemma request_vec_length: "request_ok p \<Longrightarrow> length (pio_vec p) = unat (pio_cnt (hd p))"
  by (simp add: pio_vec_def request_ok_def)

lemma length_request_addrs: "request_ok p \<Longrightarrow> length (request_addrs p) = unat (pio_cnt (hd p)) * 4096"
  using request_vec_length [of p] by (simp add: request_addrs_def pio_vec_def length_iov_pages)

lemma request_gather:
  assumes "request_ok p"
  shows "gather (init_req stack_req (pio_vec p) (uint (pio_cnt (hd p)))) = request_addrs p"
proof -
  have n: "uint (pio_cnt (hd p)) = int (length (pio_vec p))"
    using request_vec_length [OF assms] by simp
  have "length (pio_vec p) < 2 ^ 31"
    using request_vec(3) [OF assms] request_vec_length [OF assms] by simp
  moreover have "\<forall>v \<in> set (pio_vec p). iov_len v < 2 ^ 32"
    by (auto simp: pio_vec_def page_vec_def)
  ultimately show ?thesis
    unfolding n request_addrs_def by (rule gather_vec)
qed

lemma block_cmd_effect:
  assumes "request_ok p" and "page_bytes bs c" and "block_cmd c p b cmd" and "performs bs cmd rc s s'"
  defines "start \<equiv> page_start b (pio_page_index (hd p))" and "len \<equiv> unat (pio_cnt (hd p)) * 4096"
  shows "s' = (if rc \<noteq> 0 then s
    else if pio_operation (hd p) = READ then s\<lparr>ram := fill (request_addrs p) (map (ssd s) [start..<start + len]) (ram s)\<rparr>
    else s\<lparr>ssd := overlay (ssd s) start (map (ram s) (request_addrs p))\<rparr>)"
proof -
  let ?s = "unat (dev_block_per_page_shift (cache_dev c))" and ?x = "hd p"
  obtain off n where cmd: "cmd = (if pio_operation ?x = READ then NsReadv else NsWritev)
        IO_QUEUE (init_req stack_req (pio_vec p) (uint (pio_cnt ?x))) off n"
      "unat off = (unat b * 8 + unat (pio_page_index ?x AND 7)) * 2 ^ ?s" "unat n = unat (pio_cnt ?x) * 2 ^ ?s"
    using assms(3) unfolding block_cmd_def by blast
  have bs: "2 ^ ?s * bs = 4096" using assms(2) by (simp add: page_bytes_def mult.commute)
  have off: "unat off * bs = start"
    unfolding cmd(2) start_def page_start_def mult.assoc bs ..
  have n: "unat n * bs = len"
    unfolding cmd(3) len_def mult.assoc bs ..
  have all: "take len (request_addrs p) = request_addrs p"
    by (simp add: len_def length_request_addrs [OF assms(1)])
  have till: "(unat off + unat n) * bs = start + len"
    by (simp only: add_mult_distrib off n)
  show ?thesis
    using assms(4) unfolding cmd(1)
    by (cases "pio_operation ?x = READ")
       (simp_all only: if_True if_False performs.simps request_gather [OF assms(1)] off n all till simp_thms)
qed

subsection \<open>The bytes of a move\<close>

definition full_transfers :: "'w driver \<Rightarrow> bool" where
  "full_transfers S \<longleftrightarrow> (\<forall>fd a n off w.
     (0 \<le> fst (submit S (Pread fd a n off) w) \<longrightarrow> fst (submit S (Pread fd a n off) w) = uint n) \<and>
     (0 \<le> fst (submit S (Pwrite fd a n off) w) \<longrightarrow> fst (submit S (Pwrite fd a n off) w) = uint n))"

lemma full_logged: "full_transfers S \<Longrightarrow> full_transfers (logged S)"
  by (auto simp: full_transfers_def)

definition block_bytes :: "nat \<Rightarrow> mapping \<Rightarrow> bool" where
  "block_bytes bs m \<longleftrightarrow> bs * 2 ^ unat (block_per_cblock_shift m) = 32768"

lemma block_range:
  assumes "geometry_ok m" and "block_bytes bs m" and "x < CACHE_BLOCK_NUMBER"
  shows "unat (cblock_lba m x) * bs = unat x * 32768" and "unat (cblock_len m) * bs = 32768"
    and "(unat (cblock_lba m x) + unat (cblock_len m)) * bs = unat x * 32768 + 32768"
proof -
  have bs: "2 ^ unat (block_per_cblock_shift m) * bs = 32768"
    using assms(2) by (simp add: block_bytes_def mult.commute)
  show 1: "unat (cblock_lba m x) * bs = unat x * 32768"
    unfolding cblock_lba_unat [OF assms(1,3)] mult.assoc bs ..
  show 2: "unat (cblock_len m) * bs = 32768"
    unfolding cblock_len_unat [OF assms(1)] bs ..
  show "(unat (cblock_lba m x) + unat (cblock_len m)) * bs = unat x * 32768 + 32768"
    by (simp only: add_mult_distrib 1 2)
qed

lemma block_size_nat: "unat CACHE_BLOCK_SIZE = 32768" "uint CACHE_BLOCK_SIZE = 32768"
  by (simp_all add: consts_simps)

lemma fill_addrs:
  assumes "j < n" and "n < 2 ^ 64" and "k \<le> n" and "length xs = k"
  shows "fill (addrs a k) xs r (a + of_nat j) = (if j < k then xs ! j else r (a + of_nat j))"
proof -
  have d: "distinct (addrs a n)" by (rule distinct_addrs [OF assms(2)])
  have pre: "addrs a k = take k (addrs a n)"
    using assms(3) by (simp add: addrs_def take_map)
  have j: "a + of_nat j = addrs a n ! j"
    using assms(1) by (simp add: addrs_def)
  show ?thesis
  proof (cases "j < k")
    case True
    then have "a + of_nat j = addrs a k ! j" by (simp add: addrs_def)
    with True fill_apply(1) [of "addrs a k" xs j r] d assms(3,4) show ?thesis by (simp add: pre)
  next
    case False
    then have "addrs a n ! j \<notin> set (take k (addrs a n))"
      using d assms(1,3) by (auto simp: in_set_conv_nth nth_eq_iff_index_eq)
    with False fill_apply(2) [of "addrs a k" xs "addrs a n ! j" r] d assms(3,4) show ?thesis
      by (simp add: pre j)
  qed
qed

text \<open>What the block holds after a promotion that read \<open>k\<close> bytes.\<close>

definition loaded :: "nat \<Rightarrow> (nat \<Rightarrow> byte) \<Rightarrow> u32 \<Rightarrow> (addr \<Rightarrow> byte) \<Rightarrow> addr \<Rightarrow> byte list" where
  "loaded k file cp r dma =
     map (\<lambda>j. if j < k then file (unat (file_offset cp) + j) else r (dma + of_nat j)) [0..<32768]"

lemma open_performs:
  "performs bs (OpenFile (Some path) mode) fd s s' \<Longrightarrow> \<not> fd < 0 \<Longrightarrow> s' = s\<lparr>fds := (fds s)(fd := path)\<rparr>"
  by simp

lemma promotion_effect:
  assumes "obeys bs S V" and "geometry_ok m" and "block_bytes bs m" and "x < CACHE_BLOCK_NUMBER"
    and "mg_start S m dma (Some path) cp x PROMOTION w = Some (True, w')"
  shows "\<exists>k \<le> 32768. (full_transfers S \<longrightarrow> k = 32768) \<and> files (V w') = files (V w) \<and>
    (\<forall>a. a \<notin> set (addrs dma 32768) \<longrightarrow> ram (V w') a = ram (V w) a) \<and>
    ssd (V w') = overlay (ssd (V w)) (unat x * 32768) (loaded k (files (V w) path) cp (ram (V w)) dma)"
proof -
  obtain fd w1 where o: "submit S (OpenFile (Some path) O_RDONLY) w = (fd, w1)" by (meson surj_pair)
  obtain rc w2 where r: "submit S (Pread fd dma CACHE_BLOCK_SIZE (file_offset cp)) w1 = (rc, w2)" by (meson surj_pair)
  obtain rc' w3 where c: "submit S (CloseFile fd) w2 = (rc', w3)" by (meson surj_pair)
  note run = assms(5) [unfolded mg_start_eq(1) [OF assms(2)] o prod.case Let_def r c]
  have ok: "\<not> fd < 0" "\<not> rc < 0" using run by (auto split: if_splits)
  obtain q where "write_spdk S dma (cblock_lba m x) (cblock_len m) MG_QUEUE w3 = Some (q, w')" "q = 0"
    using run ok by (auto split: bind_splits)
  then have wr: "performs bs (NsWrite MG_QUEUE dma (cblock_lba m x) (cblock_len m)) 0 (V w3) (V w')"
    using transfer_performs(2) [OF assms(1)] unfolding carried_def by blast
  note op = open_performs [OF obeys_submit [OF assms(1) o] ok(1)]
  note pr = obeys_submit [OF assms(1) r, unfolded performs.simps]
  have cl: "V w3 = V w2" using obeys_submit [OF assms(1) c] by simp
  let ?k = "nat rc" and ?file = "files (V w) path"
  have k: "?k \<le> 32768" using pr [THEN conjunct1] by (simp add: block_size_nat)
  have full: "full_transfers S \<longrightarrow> ?k = 32768"
  proof
    assume "full_transfers S"
    then have "0 \<le> rc \<longrightarrow> rc = uint CACHE_BLOCK_SIZE"
      unfolding full_transfers_def using r by (metis fst_conv)
    with ok(2) show "?k = 32768" by (simp add: block_size_nat)
  qed
  have v2: "V w2 = (V w1)\<lparr>ram := fill (addrs dma ?k)
      (map ?file [unat (file_offset cp)..<unat (file_offset cp) + ?k]) (ram (V w1))\<rparr>"
    using pr [THEN conjunct2] by (simp add: op)
  have "map (ram (V w2)) (addrs dma 32768) = loaded ?k ?file cp (ram (V w)) dma"
    by (rule nth_equalityI) (simp_all add: loaded_def addrs_def v2 op fill_addrs [OF _ _ k, unfolded addrs_def])
  then have "ssd (V w') = overlay (ssd (V w)) (unat x * 32768) (loaded ?k ?file cp (ram (V w)) dma)"
    using wr by (simp add: block_range [OF assms(2-4)] cl v2 op)
  moreover have "files (V w') = files (V w)"
    using wr by (simp add: cl v2 op)
  moreover have "\<forall>a. a \<notin> set (addrs dma 32768) \<longrightarrow> ram (V w') a = ram (V w) a"
    using wr set_addrs_mono [OF k, of dma] by (auto simp: cl v2 op intro!: fill_other)
  ultimately show ?thesis using k full by blast
qed

lemma writeback_effect:
  assumes "obeys bs S V" and "geometry_ok m" and "block_bytes bs m" and "x < CACHE_BLOCK_NUMBER"
    and "mg_start S m dma (Some path) cp x WRITEBACK w = Some (True, w')"
  shows "\<exists>k \<le> 32768. (full_transfers S \<longrightarrow> k = 32768) \<and> ssd (V w') = ssd (V w) \<and>
    (\<forall>a. a \<notin> set (addrs dma 32768) \<longrightarrow> ram (V w') a = ram (V w) a) \<and>
    files (V w') = (files (V w))(path := overlay (files (V w) path) (unat (file_offset cp))
      (map (ssd (V w)) [unat x * 32768..<unat x * 32768 + k]))"
proof -
  obtain q w1 where rd: "read_spdk S dma (cblock_lba m x) (cblock_len m) MG_QUEUE w = Some (q, w1)" and q: "q = 0"
    using assms(5) unfolding mg_start_eq(3) [OF assms(2)] by (auto split: bind_splits if_splits)
  obtain fd w2 where o: "submit S (OpenFile (Some path) O_WRONLY) w1 = (fd, w2)" by (meson surj_pair)
  obtain rc w3 where r: "submit S (Pwrite fd dma CACHE_BLOCK_SIZE (file_offset cp)) w2 = (rc, w3)" by (meson surj_pair)
  obtain rc' w4 where c: "submit S (CloseFile fd) w3 = (rc', w4)" by (meson surj_pair)
  have run: "(if fd < 0 then Some (False, w2) else if rc < 0 then Some (False, w3) else Some (True, w4)) = Some (True, w')"
    using assms(5) unfolding mg_start_eq(3) [OF assms(2)] rd q by (cases "fd < 0"; cases "rc < 0") (simp_all add: o r c)
  then have ok: "\<not> fd < 0" "\<not> rc < 0" "w' = w4" by (auto split: if_splits)
  let ?start = "unat x * 32768" and ?k = "nat rc"
  have v1: "V w1 = (V w)\<lparr>ram := fill (addrs dma 32768) (map (ssd (V w)) [?start..<?start + 32768]) (ram (V w))\<rparr>"
    using transfer_performs(1) [OF assms(1) rd] by (simp add: carried_def q block_range [OF assms(2-4)])
  note op = open_performs [OF obeys_submit [OF assms(1) o] ok(1)]
  note pw = obeys_submit [OF assms(1) r, unfolded performs.simps]
  have cl: "V w4 = V w3" using obeys_submit [OF assms(1) c] by simp
  have k: "?k \<le> 32768" using pw [THEN conjunct1] by (simp add: block_size_nat)
  have full: "full_transfers S \<longrightarrow> ?k = 32768"
  proof
    assume "full_transfers S"
    then have "0 \<le> rc \<longrightarrow> rc = uint CACHE_BLOCK_SIZE"
      unfolding full_transfers_def using r by (metis fst_conv)
    with ok(2) show "?k = 32768" by (simp add: block_size_nat)
  qed
  have "map (ram (V w1)) (addrs dma ?k) = map (ssd (V w)) [?start..<?start + ?k]"
    by (rule nth_equalityI) (use k in \<open>simp_all add: addrs_def v1 fill_addrs [of _ 32768 32768, unfolded addrs_def]\<close>)
  then have "V w' = (V w2)\<lparr>files := (files (V w2))(path := overlay (files (V w2) path) (unat (file_offset cp))
      (map (ssd (V w)) [?start..<?start + ?k]))\<rparr>"
    using pw [THEN conjunct2] by (simp add: ok(3) cl op)
  then have "ssd (V w') = ssd (V w)" "files (V w') = (files (V w))(path := overlay (files (V w) path)
      (unat (file_offset cp)) (map (ssd (V w)) [?start..<?start + ?k]))"
    by (simp_all add: op v1)
  moreover have "ram (V w') = ram (V w1)" using pw [THEN conjunct2] by (simp add: ok(3) cl op)
  then have "\<forall>a. a \<notin> set (addrs dma 32768) \<longrightarrow> ram (V w') a = ram (V w) a"
    by (simp add: v1 fill_other)
  ultimately show ?thesis using k full by blast
qed

text \<open>A page number is its cache page and the page in it; the offset is exact below 4 GiB.\<close>

lemma page_split: "unat i = unat (to_cache_page_index i) * 8 + unat (i AND 7)"
proof -
  have "i AND 7 = take_bit 3 i"
    by (simp add: take_bit_eq_mask mask_eq_exp_minus_1)
  then have "unat (i AND 7) = unat i mod 8"
    by (simp only: unsigned_take_bit_eq) (simp add: take_bit_eq_mod)
  moreover have "unat (drop_bit 3 i) = unat i div 8"
    by (simp only: unat_drop_bit_eq) (simp add: drop_bit_eq_div)
  ultimately show ?thesis
    by (simp only: to_cache_page_index_def) simp
qed

lemma file_offset_exact:
  assumes "unat i < 2 ^ 20"
  shows "unat (file_offset (to_cache_page_index i)) = unat (to_cache_page_index i) * 32768"
proof -
  have "unat (to_cache_page_index i) * unat (32768 :: u32) < 2 ^ LENGTH(32)"
    using page_split [of i] assms by simp
  then have "unat (to_cache_page_index i * 32768) = unat (to_cache_page_index i) * unat (32768 :: u32)"
    by (rule unat_mult_lem [THEN iffD1])
  then show ?thesis
    by (simp add: file_offset_def push_bit_eq_mult consts_simps)
qed

end
