(* ===== verification/Storage_Spec.thy ===== *)
theory Storage_Spec
  imports Storage
begin

text \<open>
  The properties of the data: a concrete device for the witnesses, and what requests and moves
  do to device, memory and files.
\<close>

subsection \<open>A disk to apply the properties to\<close>

text \<open>It accepts every command, transfers all the bytes and completes the commands in order.\<close>

fun disk_io :: "nat \<Rightarrow> io_cmd \<Rightarrow> storage \<Rightarrow> int \<times> storage" where
  "disk_io bs (NsRead q a off n) s = (0, s\<lparr>ram :=
     fill (addrs a (unat n * bs)) (map (ssd s) [unat off * bs..<(unat off + unat n) * bs]) (ram s)\<rparr>)"
| "disk_io bs (NsWrite q a off n) s = (0, s\<lparr>ssd :=
     overlay (ssd s) (unat off * bs) (map (ram s) (addrs a (unat n * bs)))\<rparr>)"
| "disk_io bs (NsReadv q req off n) s = (0, s\<lparr>ram :=
     fill (take (unat n * bs) (gather req)) (map (ssd s) [unat off * bs..<(unat off + unat n) * bs]) (ram s)\<rparr>)"
| "disk_io bs (NsWritev q req off n) s = (0, s\<lparr>ssd :=
     overlay (ssd s) (unat off * bs) (map (ram s) (take (unat n * bs) (gather req)))\<rparr>)"
| "disk_io bs (NsDeallocate q off n) s = (0, s)"
| "disk_io bs (OpenFile path mode) s = (case path of None \<Rightarrow> (-1, s) | Some p \<Rightarrow> (3, s\<lparr>fds := (fds s)(3 := p)\<rparr>))"
| "disk_io bs (CloseFile fd) s = (0, s)"
| "disk_io bs (Pread fd a n off) s = (uint n, s\<lparr>ram :=
     fill (addrs a (unat n)) (map (files s (fds s fd)) [unat off..<unat off + unat n]) (ram s)\<rparr>)"
| "disk_io bs (Pwrite fd a n off) s = (uint n, s\<lparr>files := (files s)(fds s fd :=
     overlay (files s (fds s fd)) (unat off) (map (ram s) (addrs a (unat n))))\<rparr>)"
| "disk_io bs (Preadv fd vs k off) s = (let n = length (iov_bytes vs) in (int n, s\<lparr>ram :=
     fill (iov_bytes vs) (map (files s (fds s fd)) [unat off..<unat off + n]) (ram s)\<rparr>))"
| "disk_io bs (Pwritev fd vs k off) s = (int (length (iov_bytes vs)), s\<lparr>files := (files s)(fds s fd :=
     overlay (files s (fds s fd)) (unat off) (map (ram s) (iov_bytes vs)))\<rparr>)"

definition disk_device :: "nat \<Rightarrow> (storage \<times> (queue_type \<Rightarrow> callback list)) driver" where
  "disk_device bs = \<lparr>
     submit = (\<lambda>c (s, w). (fst (disk_io bs c s), (snd (disk_io bs c s), snd (submit fifo_device c w)))),
     poll = (\<lambda>q (s, w). (fst (poll fifo_device q w), (s, snd (poll fifo_device q w))))\<rparr>"

lemma disk_simps [simp]:
  "submit (disk_device bs) c (s, w) = (fst (disk_io bs c s), (snd (disk_io bs c s), snd (submit fifo_device c w)))"
  "poll (disk_device bs) q (s, w) = (fst (poll fifo_device q w), (s, snd (poll fifo_device q w)))"
  by (simp_all add: disk_device_def)

lemma disk_obeys: "obeys bs (disk_device bs) fst"
proof -
  have "performs bs c (fst (disk_io bs c s)) s (snd (disk_io bs c s))" for c s
    by (cases c) (auto simp: Let_def intro!: exI [of _ "ssd s"] split: option.splits)
  then show ?thesis by (auto simp: obeys_def)
qed

lemma disk_accepts: "awaited c \<noteq> None \<Longrightarrow> fst (submit (disk_device bs) c sw) = 0"
  by (cases c; cases sw) auto

lemma disk_completes: "completes_within (disk_device bs) q cb n (s, w) = completes_within fifo_device q cb n w"
  by (induction n arbitrary: w) (simp_all add: case_prod_beta Let_def)

lemma disk_answers: "answers (disk_device bs)"
proof -
  have "fst (submit fifo_device c w) = 0" for c w by (simp add: fifo_device_def)
  with fifo_answers show ?thesis by (auto simp: answers_def disk_completes)
qed

lemma disk_full: "full_transfers (disk_device bs)"
  by (auto simp: full_transfers_def)

text \<open>So requests that hit, promotions and writebacks succeed.\<close>

lemma accepted_hit:
  assumes "obeys bs S V" and "cache_geometry c" and "map_inv P (cache_map c)"
    and "request_ok p" and "pio_operation (hd p) \<noteq> DISCARD" and "submit_to_target S c p w = Some (rc, c', w')"
    and "fst (a_request_lookup (hd p) (view_of (cache_map c))) = Some b"
    and "\<And>cmd w. awaited cmd \<noteq> None \<Longrightarrow> fst (submit S cmd w) = 0"
  shows "rc = 0"
proof -
  obtain cmd where cmd: "block_cmd c p b cmd" "rc = fst (submit S cmd w)"
    using submit_performs [OF assms(1-6)] assms(7) by (auto simp: carried_def)
  then have "awaited cmd \<noteq> None" by (auto simp: block_cmd_def)
  with assms(8) cmd(2) show ?thesis by blast
qed

lemma accepted_transfer:
  assumes "answers S" and "obeys bs S V" and "\<And>cmd w. awaited cmd \<noteq> None \<Longrightarrow> fst (submit S cmd w) = 0"
  shows "\<exists>w'. read_spdk S a off n q w = Some (0, w')" and "\<exists>w'. write_spdk S a off n q w = Some (0, w')"
proof -
  note acc = assms(3) [of "NsRead q a off n" w] assms(3) [of "NsWrite q a off n" w]
  have "\<exists>w'. await S q IoComplete False (snd (submit S (NsRead q a off n) w)) = Some w'"
      "\<exists>w'. await S q IoComplete False (snd (submit S (NsWrite q a off n) w)) = Some w'"
    using answers_await [OF assms(1)] acc by auto
  then show "\<exists>w'. read_spdk S a off n q w = Some (0, w')" "\<exists>w'. write_spdk S a off n q w = Some (0, w')"
    using acc by (auto simp: read_spdk_def write_spdk_def case_prod_beta Let_def)
qed

lemma disk_moves:
  assumes "geometry_ok m"
  shows "\<exists>w'. mg_start (disk_device bs) m dma (Some path) cp x PROMOTION (s, w) = Some (True, w')"
    and "\<exists>w'. mg_start (disk_device bs) m dma (Some path) cp x WRITEBACK (s, w) = Some (True, w')"
proof -
  note io = accepted_transfer [OF disk_answers disk_obeys disk_accepts]
  have "\<exists>a b. do { (rc, w) \<leftarrow> write_spdk (disk_device bs) dma (cblock_lba m x) (cblock_len m) MG_QUEUE w1; Some (rc = 0, w) } =
      Some (True, (a, b))" for w1
    using io(2) [of bs dma "cblock_lba m x" "cblock_len m" MG_QUEUE w1] by auto
  then show "\<exists>w'. mg_start (disk_device bs) m dma (Some path) cp x PROMOTION (s, w) = Some (True, w')"
    unfolding mg_start_eq(1) [OF assms] by (auto simp: block_size_nat)
  obtain s1 q1 where "read_spdk (disk_device bs) dma (cblock_lba m x) (cblock_len m) MG_QUEUE (s, w) = Some (0, (s1, q1))"
    using io(1) by (metis surj_pair)
  then show "\<exists>w'. mg_start (disk_device bs) m dma (Some path) cp x WRITEBACK (s, w) = Some (True, w')"
    unfolding mg_start_eq(3) [OF assms] by (simp add: block_size_nat)
qed

lemma disk_hit:
  assumes "cache_geometry c" and "map_inv P (cache_map c)" and "request_ok p" and "pio_operation (hd p) \<noteq> DISCARD"
    and "fst (a_request_lookup (hd p) (view_of (cache_map c))) = Some b"
  shows "\<exists>m' sw' cs'. submit_to_target (logged (disk_device bs)) c p (sw, cs) =
      Some (0, c\<lparr>cache_map := m'\<rparr>, (sw', cs')) \<and> map_inv P m' \<and>
    view_of m' = a_serve (hd p) True (view_of (cache_map c))"
proof -
  obtain rc m' sw' cs' where r: "submit_to_target (logged (disk_device bs)) c p (sw, cs) =
      Some (rc, c\<lparr>cache_map := m'\<rparr>, (sw', cs'))" "map_inv P m'"
      "view_of m' = a_serve (hd p) (rc = 0) (view_of (cache_map c))"
    using submit_law [OF disk_answers assms(1-4), of bs sw cs] by blast
  have "fst (submit (logged (disk_device bs)) cmd w) = 0" if "awaited cmd \<noteq> None" for cmd w
    using disk_accepts [OF that, of bs "fst w"] by (cases w) simp
  then have "rc = 0"
    using accepted_hit [OF obeys_logged [OF disk_obeys] assms(1-4) r(1) assms(5)] by blast
  with r show ?thesis by auto
qed

text \<open>The samples: a storage, a whole-block write of cache page 1 of \<open>f\<close>, and a cache of one block.\<close>

definition sample_storage :: storage where
  "sample_storage = \<lparr>ssd = (\<lambda>i. 0), ram = (\<lambda>a. ucast a), files = (\<lambda>p i. of_nat i), fds = (\<lambda>fd. [])\<rparr>"

definition sample_write :: pio where
  "sample_write = replicate 8 (sample_page WRITE 8 8)"

definition one_cache :: cache where
  "one_cache = small_cache\<lparr>cache_map := one_map\<rparr>"

lemma sample_write_simps [simp]: "hd sample_write = sample_page WRITE 8 8" "request_ok sample_write"
  using sample_write_ok by (simp_all add: sample_write_def numeral_eq_Suc)

lemma sample_addrs: "request_addrs sample_write ! 0 = 4096"
proof -
  have "pio_vec sample_write = replicate 8 (page_vec 4096)"
    unfolding pio_vec_def sample_write_simps(1) by (simp add: sample_write_def sample_page_def)
  moreover have "replicate 8 v = v # replicate 7 v" for v :: iovec
    by (simp add: numeral_eq_Suc)
  ultimately show ?thesis by (simp add: request_addrs_def page_vec_def nth_append)
qed

lemma one_cache_ok: "cache_geometry one_cache" "page_bytes 512 one_cache" "cache_map one_cache = one_map"
  by (simp_all add: one_cache_def small_cache_def cache_geometry_def page_bytes_def view_shift one_map_law(2) empty_view_def)

lemma small_cache_bytes: "page_bytes 512 small_cache"
  by (simp add: small_cache_def page_bytes_def)

lemma sample_key: "pio_key (sample_page op 8 n) = (''f'', 1)"
  by (simp add: pio_key_def to_cache_page_index_def drop_bit_eq_div)

lemma sample_insert:
  assumes "v_free (empty_view n s) = 0 # F"
  shows "a_request_lookup (hd sample_write) (empty_view n s) = (Some 0, (empty_view n s)\<lparr>v_free := F, v_dirty := [0],
    v_misses := 1, v_key := [0 \<mapsto> (''f'', 1)], v_map := [(''f'', 1) \<mapsto> 0]\<rparr>)"
  using assms
  by (simp add: a_request_lookup_def optimizable_def overwritable_def sample_key a_insert_def a_miss_def
      held_back_def empty_view_def fun_eq_iff)

subsection \<open>Properties\<close>

text \<open>
  C6: on a device that does to its bytes what the commands say, whatever a read or write
  does, and wherever it is served, it changes no byte of the device outside the 32 KiB of the block that the mapping names for it: a request to one cache page
  never damages the cached data of another, and a request that misses changes nothing there.
\<close>

theorem requests_isolated:
  assumes "obeys bs S V" and "cache_geometry c" and "page_bytes bs c" and "map_inv P (cache_map c)"
    and "request_ok p" and "pio_operation (hd p) \<noteq> DISCARD" and "submit_to_target S c p w = Some (rc, c', w')"
    and "\<forall>b. fst (a_request_lookup (hd p) (view_of (cache_map c))) = Some b \<longrightarrow>
      i < unat b * 32768 \<or> (unat b + 1) * 32768 \<le> i"
  shows "ssd (V w') i = ssd (V w) i"
proof (cases "fst (a_request_lookup (hd p) (view_of (cache_map c)))")
  case None
  then show ?thesis using submit_performs [OF assms(1,2,4-7)] by simp
next
  case (Some b)
  then obtain cmd where cmd: "block_cmd c p b cmd" "performs bs cmd rc (V w) (V w')"
    using submit_performs [OF assms(1,2,4-7)] by (auto simp: carried_def)
  have out: "i < unat b * 32768 \<or> (unat b + 1) * 32768 \<le> i" using assms(8) Some by blast
  have "unat (pio_page_index (hd p) AND 7) + unat (pio_cnt (hd p)) \<le> 8"
    using assms(5) by (simp add: request_ok_def check_pio_law)
  then have "i < page_start b (pio_page_index (hd p)) \<or>
      page_start b (pio_page_index (hd p)) + unat (pio_cnt (hd p)) * 4096 \<le> i"
    using out by (auto simp: page_start_def add_mult_distrib)
  then show ?thesis
    using block_cmd_effect [OF assms(5,3) cmd]
    by (auto simp: overlay_apply length_request_addrs [OF assms(5)])
qed

theorem requests_isolated_witness:
  "\<exists>rc c w. submit_to_target (logged (disk_device 512)) small_cache sample_write ((sample_storage, idle_device), []) =
    Some (rc, c, w) \<and> ssd (fst (fst w)) 32768 = 0"
proof -
  have inv: "map_inv {} (cache_map small_cache)" by (simp add: small_map_law)
  have op: "pio_operation (hd sample_write) \<noteq> DISCARD" by simp
  have look: "fst (a_request_lookup (hd sample_write) (view_of (cache_map small_cache))) = Some 0"
    using sample_insert [OF small_free] by (simp add: small_map_law(2))
  obtain m' sw' cs' where r: "submit_to_target (logged (disk_device 512)) small_cache sample_write
      ((sample_storage, idle_device), []) = Some (0, small_cache\<lparr>cache_map := m'\<rparr>, (sw', cs'))"
    using disk_hit [OF small_cache_ok inv sample_write_simps(2) op look] by blast
  have far: "\<forall>b. fst (a_request_lookup (hd sample_write) (view_of (cache_map small_cache))) = Some b \<longrightarrow>
      32768 < unat b * 32768 \<or> (unat b + 1) * 32768 \<le> 32768"
    unfolding look by simp
  have "ssd ((fst \<circ> fst) (sw', cs')) 32768 = ssd ((fst \<circ> fst) ((sample_storage, idle_device), [] :: io_cmd list)) 32768"
    by (rule requests_isolated [OF obeys_logged [OF disk_obeys] small_cache_ok small_cache_bytes inv
      sample_write_simps(2) op r far])
  with r show ?thesis by (simp add: sample_storage_def)
qed

text \<open>A lookup that names a block leaves the key mapped to it.\<close>

lemma serve_maps:
  "fst (a_request_lookup x v) = Some b \<Longrightarrow> v_map (a_serve x d v) (pio_key x) = Some b"
  by (auto simp: a_serve_def a_request_lookup_def a_lookup_def a_insert_def a_hit_def a_miss_def
      a_set_dirty_def split: option.splits list.splits if_splits)

text \<open>
  C4: on a device that carries out every command it accepts (the code ignores the status of a
  completion, so on one that fails a transfer both calls can return 0 without the bytes being there):
  when a write that the mapping serves from the device and, next after it, a read of pages among those
  written, into buffers that do not overlap, both return 0, the read puts into its buffers exactly
  the bytes that the buffers of the write held when it was submitted, page by page.
\<close>

theorem read_your_write:
  assumes "answers S" and "obeys bs S V" and "cache_geometry c" and "page_bytes bs c" and "map_inv P (cache_map c)"
    and "request_ok p" and "pio_operation (hd p) = WRITE"
    and "fst (a_request_lookup (hd p) (view_of (cache_map c))) = Some b"
    and "submit_to_target (logged S) c p (w, cs) = Some (0, c1, (w1, cs1))"
    and "request_ok q" and "pio_operation (hd q) = READ" and "pio_key (hd q) = pio_key (hd p)"
    and "unat (pio_page_index (hd q) AND 7) = unat (pio_page_index (hd p) AND 7) + d"
    and "d + unat (pio_cnt (hd q)) \<le> unat (pio_cnt (hd p))"
    and "submit_to_target (logged S) c1 q (w1, cs1) = Some (0, c2, (w2, cs2))"
    and "distinct (request_addrs q)" and "i < unat (pio_cnt (hd q)) * 4096"
  shows "ram (V w2) (request_addrs q ! i) = ram (V w) (request_addrs p ! (d * 4096 + i))"
proof -
  let ?v = "view_of (cache_map c)"
  have ops: "pio_operation (hd p) \<noteq> DISCARD" "pio_operation (hd q) \<noteq> DISCARD" "\<not> optimizable (hd q)"
    using assms(7,11) by (auto simp: optimizable_def)
  note ob = obeys_logged [OF assms(2)]
  obtain m1 where 1: "c1 = c\<lparr>cache_map := m1\<rparr>" "map_inv P m1" "view_of m1 = a_serve (hd p) True ?v"
    using submit_law [OF assms(1,3,5,6) ops(1), of w cs] assms(9) by auto
  have same: "v_shift (view_of m1) = v_shift ?v"
    by (simp add: 1(3) a_serve_shift)
  have geo: "cache_geometry c1" and bytes: "page_bytes bs c1" and inv: "map_inv P (cache_map c1)"
    using assms(3,4) same 1(1,2) by (simp_all add: cache_geometry_def view_shift page_bytes_def)
  have look: "fst (a_request_lookup (hd q) (view_of (cache_map c1))) = Some b"
    using serve_maps [OF assms(8), of True] ops(3) assms(12) 1
    by (simp add: a_request_lookup_def a_lookup_def)
  obtain cmd1 where cmd1: "block_cmd c p b cmd1" "performs bs cmd1 0 (V w) (V w1)"
    using submit_performs [OF ob assms(3,5,6) ops(1) assms(9)] assms(8) by (auto simp: carried_def)
  obtain cmd2 where cmd2: "block_cmd c1 q b cmd2" "performs bs cmd2 0 (V w1) (V w2)"
    using submit_performs [OF ob geo inv assms(10) ops(2) assms(15)] look by (auto simp: carried_def)
  let ?st = "page_start b (pio_page_index (hd p))" and ?xs = "map (ram (V w)) (request_addrs p)"
  let ?sq = "page_start b (pio_page_index (hd q))" and ?n = "unat (pio_cnt (hd q)) * 4096"
  have sq: "?sq = ?st + d * 4096" by (simp add: page_start_def assms(13) algebra_simps)
  have fits: "d * 4096 + ?n \<le> unat (pio_cnt (hd p)) * 4096"
    using assms(14) by linarith
  have written: "ssd (V w1) = overlay (ssd (V w)) ?st ?xs"
    using block_cmd_effect [OF assms(6,4) cmd1] assms(7) by simp
  have "V w2 = (V w1)\<lparr>ram := fill (request_addrs q) (map (ssd (V w1)) [?sq..<?sq + ?n]) (ram (V w1))\<rparr>"
    using block_cmd_effect [OF assms(10) bytes cmd2] assms(11) by simp
  then have "ram (V w2) (request_addrs q ! i) = ssd (V w1) (?sq + i)"
    using fill_apply(1) [OF assms(16), of "map (ssd (V w1)) [?sq..<?sq + ?n]" i "ram (V w1)"] assms(17)
    by (simp add: length_request_addrs [OF assms(10)])
  also have "\<dots> = ram (V w) (request_addrs p ! (d * 4096 + i))"
    using assms(17) fits length_request_addrs [OF assms(6)]
    by (simp add: written overlay_apply sq)
  finally show ?thesis .
qed

theorem read_your_write_witness:
  "\<exists>c1 w1 cs1 c2 w2 cs2. submit_to_target (logged (disk_device 512)) small_cache sample_write ((sample_storage, idle_device), []) =
      Some (0, c1, (w1, cs1)) \<and>
    submit_to_target (logged (disk_device 512)) c1 [(sample_page READ 8 1)\<lparr>pio_buffer := 65536\<rparr>] (w1, cs1) = Some (0, c2, (w2, cs2)) \<and>
    ram (fst w2) 65536 = ram sample_storage 4096"
proof -
  let ?q = "[(sample_page READ 8 1)\<lparr>pio_buffer := 65536\<rparr>]"
  have inv: "map_inv {} (cache_map small_cache)" by (simp add: small_map_law)
  have op: "pio_operation (hd sample_write) \<noteq> DISCARD" "pio_operation (hd sample_write) = WRITE" by simp_all
  have look: "fst (a_request_lookup (hd sample_write) (view_of (cache_map small_cache))) = Some 0"
    using sample_insert [OF small_free] by (simp add: small_map_law(2))
  obtain m1 w1 cs1 where 1: "submit_to_target (logged (disk_device 512)) small_cache sample_write
      ((sample_storage, idle_device), []) = Some (0, small_cache\<lparr>cache_map := m1\<rparr>, (w1, cs1))"
      "map_inv {} m1" "view_of m1 = a_serve (hd sample_write) True (view_of (cache_map small_cache))"
    using disk_hit [OF small_cache_ok inv sample_write_simps(2) op(1) look] by blast
  let ?c1 = "small_cache\<lparr>cache_map := m1\<rparr>"
  have q: "request_ok ?q" "pio_operation (hd ?q) = READ" "pio_key (hd ?q) = pio_key (hd sample_write)"
      "pio_operation (hd ?q) \<noteq> DISCARD" "unat (pio_page_index (hd ?q) AND 7) = unat (pio_page_index (hd sample_write) AND 7) + 0"
      "0 + unat (pio_cnt (hd ?q)) \<le> unat (pio_cnt (hd sample_write))"
    by (simp_all add: request_ok_def check_pio_def consts_simps pio_key_def)
  have addr: "request_addrs ?q = addrs 65536 4096"
    by (simp add: request_addrs_def pio_vec_def page_vec_def addrs_def)
  have d: "distinct (request_addrs ?q)" unfolding addr by (rule distinct_addrs) simp
  have "v_shift (view_of m1) = v_shift (view_of (cache_map small_cache))" by (simp only: 1(3) a_serve_shift)
  then have geo: "cache_geometry ?c1"
    using small_cache_ok by (simp add: cache_geometry_def view_shift)
  have look2: "fst (a_request_lookup (hd ?q) (view_of (cache_map ?c1))) = Some 0"
    using serve_maps [OF look, of True] q(3) by (simp add: a_request_lookup_def a_lookup_def optimizable_def 1(3))
  obtain m2 w2 cs2 where 2: "submit_to_target (logged (disk_device 512)) ?c1 ?q (w1, cs1) =
      Some (0, ?c1\<lparr>cache_map := m2\<rparr>, (w2, cs2))"
    using disk_hit [OF geo _ q(1,4) look2, of "{}" 512 w1 cs1] 1(2) by auto
  have "ram (fst w2) (request_addrs ?q ! 0) = ram (fst (sample_storage, idle_device)) (request_addrs sample_write ! (0 * 4096 + 0))"
    by (rule read_your_write [OF disk_answers disk_obeys small_cache_ok small_cache_bytes inv sample_write_simps(2)
      op(2) look 1(1) q(1,2,3,5,6) 2 d]) simp
  then have "ram (fst w2) 65536 = ram sample_storage 4096"
    by (simp add: addr addrs_def sample_addrs)
  with 1(1) 2 show ?thesis by blast
qed

lemma block_bytes_geometry:
  assumes "cache_geometry c" and "page_bytes bs c"
  shows "block_bytes bs (cache_map c)" and "geometry_ok (cache_map c)"
proof -
  note s = cache_geometry_unat [OF assms(1)]
  show "block_bytes bs (cache_map c)"
    using assms(2) by (simp add: block_bytes_def page_bytes_def s(2) power_add)
  show "geometry_ok (cache_map c)"
    using s by (simp add: geometry_ok_def word_le_nat_alt)
qed

lemma block_bytes_cong:
  "v_shift (view_of m1) = v_shift (view_of m) \<Longrightarrow> block_bytes bs m1 = block_bytes bs m"
  by (simp add: block_bytes_def view_shift)

text \<open>The offset in the file, in 32 bit arithmetic.\<close>

lemma file_offset_wraps: "unat (file_offset cp) = unat cp * 32768 mod 2 ^ 32"
proof -
  have "unat (push_bit 15 cp) = take_bit 32 (push_bit 15 (unat cp))"
    by (simp only: unsigned_push_bit_eq len_num1 len_bit0) simp
  then show ?thesis by (simp add: file_offset_def consts_simps push_bit_eq_mult take_bit_eq_mod)
qed

text \<open>
  C7: on a device and files that carry out what they accept (the code ignores the status of a
  completion, so it takes a failed write to the device for a success), when a round of the worker
  with a free block leaves the key mapped, it is mapped to that block, and the block holds the 32 KiB of
  the file from the byte offset of the cache page modulo 4 GiB (it is computed in 32 bits): the bytes
  that \<open>pread\<close> delivered and, if it delivered less, whatever the DMA buffer held after them. No
  other byte of the device changes, and no file.
\<close>

theorem promotion_loads_file:
  assumes "obeys bs S V" and "map_inv {} m" and "geometry_ok m" and "block_bytes bs m"
    and "length (fst k) \<le> MAX_PATH_SIZE" and "v_map (view_of m) k = None" and "v_free (view_of m) = x # F"
    and "round_move S m dma (fst k) (snd k) w = Some (m', w')" and "v_map (view_of m') k \<noteq> None"
  shows "v_map (view_of m') k = Some x \<and> files (V w') = files (V w) \<and>
    (\<exists>n \<le> 32768. (full_transfers S \<longrightarrow> n = 32768) \<and>
      ssd (V w') = overlay (ssd (V w)) (unat x * 32768) (loaded n (files (V w) (fst k)) (snd k) (ram (V w)) dma)) \<and>
    unat (file_offset (snd k)) = unat (snd k) * 32768 mod 2 ^ 32"
proof -
  obtain v1 where v1: "a_promote_start k (view_of m) = Some (x, v1)"
    using assms(7) by (simp add: a_promote_start_def)
  obtain m1 where m1: "view_of m1 = v1" "completes (promotion_complete m1 x) (\<lambda>ok. a_promote_end x ok v1)"
      "round_move S m dma (fst k) (snd k) w =
        move_then (mg_start S m1 dma (Some (fst k)) (snd k) x PROMOTION) (promotion_complete m1 x) w"
    using round_promotes [OF assms(2,5,6) v1, of S dma w] by blast
  note keep = a_start_simps(1) [OF v1]
  obtain ok where ok: "mg_start S m1 dma (Some (fst k)) (snd k) x PROMOTION w = Some (ok, w')"
      "view_of m' = a_promote_end x ok v1"
    using move_then_inv [OF assms(8) [unfolded m1(3)] m1(2)] by blast
  have success: "ok = True"
    using assms(6,9) ok(2) keep by (cases ok) (simp_all add: a_promote_end_def a_drop_def)
  then have "v_map (view_of m') k = Some x"
    using ok(2) keep by (simp add: a_promote_end_def)
  moreover have "x < CACHE_BLOCK_NUMBER"
  proof -
    obtain F' C D T where inv: "minv m F' C D T {}" using assms(2) by (auto elim: map_invE)
    then have "x \<in> set F'" using assms(7) view_fields(2) [OF minv_core(1) [OF inv]] by simp
    then show ?thesis using mcore_bound [OF minv_core(1) [OF inv]] by blast
  qed
  moreover have "geometry_ok m1" "block_bytes bs m1"
    using cblock_view_cong(1) [of m1 m] block_bytes_cong [of m1 m] keep m1(1) assms(3,4) by simp_all
  ultimately show ?thesis
    using promotion_effect [OF assms(1) _ _ _ ok(1) [unfolded success]] file_offset_wraps by blast
qed

theorem promotion_loads_file_witness:
  "\<exists>m' w'. round_move (disk_device 512) small_map 4096 ''f'' 1 (sample_storage, idle_device) = Some (m', w') \<and>
    v_map (view_of m') (''f'', 1) = Some 0 \<and> ssd (fst w') 5 = 32773"
proof -
  let ?k = "(''f'', 1 :: u32)"
  have geo: "geometry_ok small_map" "block_bytes 512 small_map"
    using block_bytes_geometry [OF small_cache_ok small_cache_bytes] by simp_all
  have key: "length (fst ?k) \<le> MAX_PATH_SIZE" "v_map (view_of small_map) ?k = None"
      "v_free (view_of small_map) = 0 # [1, 2, 3, 4, 5, 6, 7]"
    by (simp_all add: small_map_law(2) small_free consts_simps) (simp add: empty_view_def)
  obtain v1 where v1: "a_promote_start ?k (view_of small_map) = Some (0, v1)"
    using key(3) by (simp add: a_promote_start_def)
  obtain m1 where m1: "view_of m1 = v1" "completes (promotion_complete m1 0) (\<lambda>ok. a_promote_end 0 ok v1)"
      "round_move (disk_device 512) small_map 4096 (fst ?k) (snd ?k) (sample_storage, idle_device) =
        move_then (mg_start (disk_device 512) m1 4096 (Some (fst ?k)) (snd ?k) 0 PROMOTION) (promotion_complete m1 0)
          (sample_storage, idle_device)"
    using round_promotes [OF small_map_law(1) key(1,2) v1, of "disk_device 512" 4096 "(sample_storage, idle_device)"]
    by blast
  note keep = a_start_simps(1) [OF v1]
  have "geometry_ok m1" using cblock_view_cong(1) [of m1 small_map] keep m1(1) geo(1) by simp
  then obtain w' where io: "mg_start (disk_device 512) m1 4096 (Some (fst ?k)) (snd ?k) 0 PROMOTION
      (sample_storage, idle_device) = Some (True, w')"
    using disk_moves(1) by blast
  obtain m' where m': "round_move (disk_device 512) small_map 4096 (fst ?k) (snd ?k) (sample_storage, idle_device) = Some (m', w')"
      "view_of m' = a_promote_end 0 True v1"
    using move_then_returns [OF m1(3,2) io refl] by blast
  have "v_map (view_of m') ?k \<noteq> None" using keep m'(2) by (simp add: a_promote_end_def)
  from promotion_loads_file [OF disk_obeys small_map_law(1) geo key m'(1) this]
  have "v_map (view_of m') ?k = Some 0" "ssd (fst w') = overlay (\<lambda>i. 0) 0 (loaded 32768 (\<lambda>i. of_nat i) 1 (\<lambda>a. ucast a) 4096)"
    using disk_full [of 512] by (simp_all add: sample_storage_def)
  moreover have "unat (file_offset 1) = 32768"
    by (simp add: file_offset_def consts_simps)
  ultimately have "v_map (view_of m') ?k = Some 0 \<and> ssd (fst w') 5 = 32773"
    by (simp add: overlay_apply loaded_def)
  with m'(1) show ?thesis by auto
qed

text \<open>A round of the worker that counts a writeback has saved the whole block in the file of its key.\<close>

lemma writeback_round_saves:
  assumes "obeys bs S V" and "full_transfers S" and "map_inv {} m1" and "geometry_ok m1" and "block_bytes bs m1"
    and "length (fst k) \<le> MAX_PATH_SIZE" and "v_free (view_of m1) = []" and "a_demote_start (view_of m1) = None"
    and "v_dirty (view_of m1) = b # D" and "v_key (view_of m1) b = Some l"
    and "round_move S m1 dma (fst k) (snd k) w1 = Some (m2, w2)" and "v_writebacks (view_of m2) \<noteq> v_writebacks (view_of m1)"
  shows "files (V w2) (fst l) = overlay (files (V w1) (fst l))
    (unat (file_offset (snd l))) (map (ssd (V w1)) [unat b * 32768..<unat b * 32768 + 32768])"
proof -
  have none: "a_promote_start k (view_of m1) = None" using assms(7) by (simp add: a_promote_start_def)
  obtain v where start: "a_writeback_start (view_of m1) = Some (b, v)"
    using assms(9) by (simp add: a_writeback_start_def)
  obtain m where m: "view_of m = v" "b < CACHE_BLOCK_NUMBER"
      "completes (writeback_complete m b) (\<lambda>ok. a_writeback_end b ok v)"
      "round_move S m1 dma (fst k) (snd k) w1 =
        move_then (mg_start S m dma (Some (fst l)) (snd l) b WRITEBACK) (writeback_complete m b) w1"
    using round_writes_back [OF assms(3,6) none assms(8) start, of S dma w1] assms(10) by auto
  obtain ok where ok: "mg_start S m dma (Some (fst l)) (snd l) b WRITEBACK w1 = Some (ok, w2)"
      "view_of m2 = a_writeback_end b ok v"
    using move_then_inv [OF assms(11) [unfolded m(4)] m(3)] by blast
  have wb: "v_writebacks v = v_writebacks (view_of m1)"
    using start by (auto simp: a_writeback_start_def split: list.splits)
  have success: "ok = True"
    using assms(12) ok(2) wb
    by (cases ok; cases "v_moving v b = Some True") (simp_all add: a_writeback_end_def a_settle_def enqueue_def)
  note same = a_start_simps(3) [OF start, THEN conjunct1]
  have "geometry_ok m" "block_bytes bs m"
    using assms(4,5) cblock_view_cong(1) [of m m1] block_bytes_cong [of m m1] same m(1) by simp_all
  then show ?thesis
    using writeback_effect [OF assms(1) _ _ m(2) ok(1) [unfolded success]] assms(2) by auto
qed

text \<open>Byte \<open>i\<close> of a request below 4 GiB is byte \<open>j\<close> of its cache page, on the device and in the file.\<close>

lemma request_byte:
  assumes "request_ok p" and "i < unat (pio_cnt (hd p)) * 4096" and "unat (pio_page_index (hd p)) < 2 ^ 20"
  shows "\<exists>j < 32768. page_start b (pio_page_index (hd p)) + i = unat b * 32768 + j \<and>
    unat (pio_page_index (hd p)) * 4096 + i = unat (file_offset (to_cache_page_index (pio_page_index (hd p)))) + j"
proof -
  let ?i = "pio_page_index (hd p)"
  have page: "unat ?i = unat (to_cache_page_index ?i) * 8 + unat (?i AND 7)" by (rule page_split)
  have "unat (?i AND 7) + unat (pio_cnt (hd p)) \<le> 8" using assms(1) by (simp add: request_ok_def check_pio_law)
  then have "unat (?i AND 7) * 4096 + i < 32768" using assms(2) by linarith
  moreover have "unat ?i * 4096 + i = unat (file_offset (to_cache_page_index ?i)) + (unat (?i AND 7) * 4096 + i)"
    by (simp add: page file_offset_exact [OF assms(3)])
  moreover have "page_start b ?i + i = unat b * 32768 + (unat (?i AND 7) * 4096 + i)" by (simp add: page_start_def)
  ultimately show ?thesis by blast
qed

text \<open>
  C5: on a device that carries out every command it accepts (the code ignores the status of a
  completion) and with file transfers that move every byte asked for: a write that hits a block and
  returns 0, followed by a round of the worker that counts a writeback and whose next block to write
  back is that block, leaves in the file, at the byte offset of the pages, exactly the bytes of the
  write's buffers, for pages below 4 GiB.
\<close>

theorem write_reaches_file:
  assumes "answers S" and "obeys bs S V" and "full_transfers S" and "cache_geometry c" and "page_bytes bs c"
    and "map_inv {} (cache_map c)" and "request_ok p" and "pio_operation (hd p) = WRITE"
    and "fst (a_request_lookup (hd p) (view_of (cache_map c))) = Some b"
    and "submit_to_target (logged S) c p (w, cs) = Some (0, c1, (w1, cs1))"
    and "length (fst k) \<le> MAX_PATH_SIZE" and "v_free (view_of (cache_map c1)) = []"
    and "a_demote_start (view_of (cache_map c1)) = None" and "v_dirty (view_of (cache_map c1)) = b # D"
    and "round_move S (cache_map c1) dma (fst k) (snd k) w1 = Some (m2, w2)"
    and "v_writebacks (view_of m2) \<noteq> v_writebacks (view_of (cache_map c1))"
    and "unat (pio_page_index (hd p)) < 2 ^ 20" and "i < unat (pio_cnt (hd p)) * 4096"
  shows "files (V w2) (pio_path (hd p)) (unat (pio_page_index (hd p)) * 4096 + i) = ram (V w) (request_addrs p ! i)"
proof -
  let ?v = "view_of (cache_map c)" and ?i = "pio_page_index (hd p)"
  have op: "pio_operation (hd p) \<noteq> DISCARD" using assms(8) by simp
  obtain m1 where 1: "c1 = c\<lparr>cache_map := m1\<rparr>" "map_inv {} m1" "view_of m1 = a_serve (hd p) True ?v"
    using submit_law [OF assms(1,4,6,7) op, of w cs] assms(10) by auto
  have m1: "cache_map c1 = m1" using 1(1) by simp
  have shift: "v_shift (view_of m1) = v_shift ?v" by (simp add: 1(3) a_serve_shift)
  have geo: "geometry_ok m1" "block_bytes bs m1"
    using block_bytes_geometry [OF assms(4,5)] cblock_view_cong(1) [OF shift] block_bytes_cong [OF shift] by simp_all
  obtain cmd where cmd: "block_cmd c p b cmd" "performs bs cmd 0 (V w) (V w1)"
    using submit_performs [OF obeys_logged [OF assms(2)] assms(4,6,7) op assms(10)] assms(9)
    by (auto simp: carried_def)
  have written: "ssd (V w1) = overlay (ssd (V w)) (page_start b ?i) (map (ram (V w)) (request_addrs p))"
    using block_cmd_effect [OF assms(7,5) cmd] assms(8) by simp
  have key: "v_key (view_of m1) b = Some (pio_key (hd p))"
    using injective_law [OF 1(2), of "pio_key (hd p)" b] serve_maps [OF assms(9), of True] 1(3) by simp
  note saved = writeback_round_saves [OF assms(2,3) 1(2) geo assms(11) assms(12-14) [unfolded m1] key
      assms(15,16) [unfolded m1]]
  obtain j where j: "j < 32768" "page_start b ?i + i = unat b * 32768 + j"
      "unat ?i * 4096 + i = unat (file_offset (to_cache_page_index ?i)) + j"
    using request_byte [OF assms(7,18,17)] by blast
  have "files (V w2) (pio_path (hd p)) (unat ?i * 4096 + i) = ssd (V w1) (page_start b ?i + i)"
    using saved j by (simp add: pio_key_def overlay_apply)
  also have "\<dots> = ram (V w) (request_addrs p ! i)"
    using assms(18) by (simp add: written overlay_apply length_request_addrs [OF assms(7)])
  finally show ?thesis .
qed

theorem write_reaches_file_witness:
  "\<exists>c1 w1 cs1 m2 w2. submit_to_target (logged (disk_device 512)) one_cache sample_write ((sample_storage, idle_device), []) =
      Some (0, c1, (w1, cs1)) \<and>
    round_move (disk_device 512) (cache_map c1) 8192 ''g'' 0 w1 = Some (m2, w2) \<and>
    files (fst w2) ''f'' 32768 = ram sample_storage 4096"
proof -
  let ?k = "(''g'', 0 :: u32)"
  have inv: "map_inv {} (cache_map one_cache)" by (simp add: one_cache_ok one_map_law)
  have op: "pio_operation (hd sample_write) \<noteq> DISCARD" "pio_operation (hd sample_write) = WRITE" by simp_all
  have free: "v_free (empty_view 1 6) = 0 # []" by (simp add: empty_view_def index_range_def)
  have look: "fst (a_request_lookup (hd sample_write) (view_of (cache_map one_cache))) = Some 0"
    using sample_insert [OF free] by (simp add: one_cache_ok one_map_law)
  obtain m1 w1 cs1 where 1: "submit_to_target (logged (disk_device 512)) one_cache sample_write
      ((sample_storage, idle_device), []) = Some (0, one_cache\<lparr>cache_map := m1\<rparr>, (w1, cs1))"
      "map_inv {} m1" "view_of m1 = a_serve (hd sample_write) True (view_of (cache_map one_cache))"
    using disk_hit [OF one_cache_ok(1) inv sample_write_simps(2) op(1) look] by blast
  let ?v = "(empty_view 1 6)\<lparr>v_free := [], v_dirty := [0], v_misses := 1, v_key := [0 \<mapsto> (''f'', 1)], v_map := [(''f'', 1) \<mapsto> 0]\<rparr>"
  have view: "view_of m1 = ?v"
    using sample_insert [OF free] unfolding 1(3) one_cache_ok(3) one_map_law(2)
    by (simp add: a_serve_def a_set_dirty_def) (simp add: empty_view_def)
  have none: "a_promote_start ?k (view_of m1) = None" "a_demote_start (view_of m1) = None"
      "v_free (view_of m1) = []" "v_dirty (view_of m1) = 0 # []"
    by (simp_all add: view a_promote_start_def a_demote_start_def) (simp add: empty_view_def)
  obtain v where start: "a_writeback_start (view_of m1) = Some (0, v)" "v_writebacks v = v_writebacks (view_of m1)"
    by (simp add: a_writeback_start_def none)
  have len: "length (fst ?k) \<le> MAX_PATH_SIZE" by (simp add: consts_simps)
  obtain m k' where m: "view_of m = v" "completes (writeback_complete m 0) (\<lambda>ok. a_writeback_end 0 ok v)"
      "round_move (disk_device 512) m1 8192 (fst ?k) (snd ?k) w1 =
        move_then (mg_start (disk_device 512) m 8192 (Some (fst k')) (snd k') 0 WRITEBACK) (writeback_complete m 0) w1"
    using round_writes_back [OF 1(2) len none(1,2) start(1), of "disk_device 512" 8192 w1] by blast
  have "geometry_ok m1" by (simp add: geometry_ok_def view_shift view empty_view_def)
  then have "geometry_ok m"
    using cblock_view_cong(1) [of m m1] a_start_simps(3) [OF start(1)] m(1) by simp
  then obtain w2 where io: "mg_start (disk_device 512) m 8192 (Some (fst k')) (snd k') 0 WRITEBACK w1 = Some (True, w2)"
    using disk_moves(2) by (metis surj_pair)
  obtain m2 where m2: "round_move (disk_device 512) m1 8192 (fst ?k) (snd ?k) w1 = Some (m2, w2)"
      "view_of m2 = a_writeback_end 0 True v"
    using move_then_returns [OF m(3,2) io refl] by blast
  have counted: "v_writebacks (view_of m2) \<noteq> v_writebacks (view_of m1)"
    by (simp add: m2(2) a_writeback_end_def start(2))
  let ?c1 = "one_cache\<lparr>cache_map := m1\<rparr>"
  have c1: "cache_map ?c1 = m1" by simp
  have small: "unat (pio_page_index (hd sample_write)) < 2 ^ 20" "0 < unat (pio_cnt (hd sample_write)) * 4096"
    by simp_all
  have "files (fst w2) (pio_path (hd sample_write)) (unat (pio_page_index (hd sample_write)) * 4096 + 0) =
      ram (fst (sample_storage, idle_device)) (request_addrs sample_write ! 0)"
    by (rule write_reaches_file [OF disk_answers disk_obeys disk_full one_cache_ok(1,2) inv sample_write_simps(2)
      op(2) look 1(1) len, unfolded c1, OF none(3,2,4) m2(1) counted small])
  then have "files (fst w2) ''f'' 32768 = ram sample_storage 4096"
    by (simp add: sample_addrs)
  with 1(1) m2(1) c1 show ?thesis by (metis fst_conv snd_conv)
qed

end
