(* ===== verification/Reuse_Race.thy ===== *)
theory Reuse_Race
  imports Storage_Spec
begin

text \<open>
  A request and the worker between the lookup and the transfer. \<open>map_pio\<close> releases
  \<open>mapping_lock\<close> after its lookup and sends its command afterwards, for the block the lookup
  named; a block that is being demoted is still in the table, so a lookup can name it, and
  nothing keeps the worker from finishing the demotion and giving the block to another page
  before the command is sent.
\<close>

text \<open>The lookup of \<open>map_pio\<close>.\<close>

definition request_lookup :: "mapping \<Rightarrow> pio_node \<Rightarrow> (bool \<times> u32 \<times> mapping) option" where
  "request_lookup m x =
     (if optimizable x then lookup_mapping_with_insert m (pio_path x) (pio_page_index x) 0
      else lookup_mapping m (pio_path x) (pio_page_index x) 0)"

lemma map_pio_split:
  "check_pio (hd p) \<Longrightarrow> p \<noteq> [] \<Longrightarrow> map_pio S c p w = do {
     (hit, cblock, m) \<leftarrow> request_lookup (cache_map c) (hd p);
     if hit then map_to_cache S (c\<lparr>cache_map := m\<rparr>) p cblock w else map_to_origin S (c\<lparr>cache_map := m\<rparr>) p w
   }"
  by (cases p) (auto simp: map_pio_def request_lookup_def split: bind_splits)

subsection \<open>The worker's part\<close>

text \<open>A lookup of a page whose block is being demoted names the block and leaves it in transit.\<close>

lemma lookup_in_transit:
  assumes "map_inv P m" and "length (pio_path y) \<le> MAX_PATH_SIZE" and "v_map (view_of m) (pio_key y) = Some x"
    and "x \<notin> set (v_clean (view_of m))"
  shows "\<exists>m'. request_lookup m y = Some (True, x, m') \<and> map_inv P m' \<and>
    view_of m' = (view_of m)\<lparr>v_hits := v_hits (view_of m) + 1\<rparr>"
proof -
  have "a_request_lookup y (view_of m) = (Some x, (view_of m)\<lparr>v_hits := v_hits (view_of m) + 1\<rparr>)"
    using assms(3,4) by (simp add: a_request_lookup_def a_lookup_def a_insert_def a_hit_def touch_def)
  then show ?thesis
    using request_lookup_law [OF assms(1,2)] by (simp add: request_lookup_def)
qed

text \<open>Demotion, lookup in the middle of it, and promotion of another page into the same block.\<close>

lemma block_changes_hands:
  assumes "map_inv P m" and "v_free (view_of m) = []" and "v_clean (view_of m) = x # C"
    and "unat (v_blocks (view_of m)) div 2 < length (v_clean (view_of m))"
    and "length (pio_path y) \<le> MAX_PATH_SIZE" and "v_map (view_of m) (pio_key y) = Some x"
    and "length (fst k) \<le> MAX_PATH_SIZE" and "v_map (view_of m) k = None"
  shows "\<exists>m1 m2 m3 m4 m5. demotion_clean_to_free m cb = Some (True, x, m1) \<and>
    request_lookup m1 y = Some (True, x, m2) \<and> demotion_complete m2 x True = Some m3 \<and>
    promotion_free_to_clean m3 (fst k) (snd k) cb = Some (True, x, m4) \<and>
    promotion_complete m4 x True = Some m5 \<and> map_inv P m5 \<and> x < cache_block_num m5 \<and>
    v_map (view_of m5) (pio_key y) = None \<and> v_map (view_of m5) k = Some x \<and>
    v_key (view_of m5) x = Some k \<and> v_moving (view_of m5) x = None \<and> v_shift (view_of m5) = v_shift (view_of m)"
proof -
  let ?v = "view_of m"
  let ?v1 = "?v\<lparr>v_clean := C, v_moving := (v_moving ?v)(x \<mapsto> False)\<rparr>"
  have x: "x < v_blocks ?v" "x \<notin> P" "v_key ?v x = Some (pio_key y)"
    using injective_law [OF assms(1), of "pio_key y" x] assms(6) by simp_all
  have fresh: "x \<notin> set C" using partition_law [OF assms(1)] by (simp add: assms(3))
  have "a_demote_start ?v = Some (x, ?v1)"
    using assms(4) by (simp add: a_demote_start_def assms(3))
  then obtain m1 where m1: "demotion_clean_to_free m cb = Some (True, x, m1)" "map_inv P m1" "view_of m1 = ?v1"
    using demotion_start_law [OF assms(1), of cb] by auto
  obtain m2 where m2: "request_lookup m1 y = Some (True, x, m2)" "map_inv P m2"
      "view_of m2 = ?v1\<lparr>v_hits := v_hits ?v + 1\<rparr>"
    using lookup_in_transit [OF m1(2) assms(5), of x] assms(6) fresh by (auto simp: m1(3))
  have "in_flight x m2" using x(1) by (simp add: in_flight_view m2(3))
  then obtain m3 where m3: "demotion_complete m2 x True = Some m3" "map_inv P m3"
      "view_of m3 = a_demote_end x True (view_of m2)"
    using demotion_complete_law [OF m2(2) _ x(2), of True] by blast
  have v3: "v_free (view_of m3) = [x]" "v_map (view_of m3) = (v_map ?v)(pio_key y := None)"
      "v_shift (view_of m3) = v_shift ?v" "v_blocks (view_of m3) = v_blocks ?v"
    by (simp_all add: m3(3) m2(3) a_demote_end_def a_drop_def assms(2) x(3))
  let ?v4 = "(view_of m3)\<lparr>v_free := [], v_key := (v_key (view_of m3))(x \<mapsto> k),
      v_moving := (v_moving (view_of m3))(x \<mapsto> False)\<rparr>"
  have "a_promote_start (fst k, snd k) (view_of m3) = Some (x, ?v4)"
    by (simp add: a_promote_start_def v3(1))
  then obtain m4 where m4: "promotion_free_to_clean m3 (fst k) (snd k) cb = Some (True, x, m4)"
      "map_inv (insert x P) m4" "view_of m4 = ?v4"
    using promotion_start_law [OF m3(2) assms(7), of "snd k" cb] by auto
  have new: "v_map (view_of m4) (the (v_key (view_of m4) x)) = None"
    by (simp add: m4(3) v3(2) assms(8))
  obtain m5 where m5: "promotion_complete m4 x True = Some m5" "map_inv (insert x P - {x}) m5"
      "view_of m5 = a_promote_end x True (view_of m4)"
    using promotion_complete_law [OF m4(2) insertI1 new, of True] by blast
  have "map_inv P m5" using m5(2) x(2) by simp
  moreover have "x < cache_block_num m5"
    using x(1) by (simp add: view_blocks [symmetric] m5(3) m4(3) a_promote_end_def a_settle_def enqueue_def v3(4))
  moreover have "k \<noteq> pio_key y" using assms(6,8) by auto
  ultimately show ?thesis
    using m1(1) m2(1) m3(1) m4(1) m5(1)
    by (auto simp: m5(3) m4(3) a_promote_end_def a_settle_def enqueue_def v3)
qed

subsection \<open>Properties\<close>

text \<open>
  C8: a write whose lookup names a block that is being demoted can be carried out
  after the worker has given the block to another page. On a device that accepts and carries out its command it
  returns 0, its bytes are in that block, and the block belongs to the other page and is dirty: the
  other page reads them, and a writeback will put them into the other file. The written page itself
  is in no block.
\<close>

theorem late_write_hits_other_page:
  assumes "answers S" and "obeys bs S V" and "cache_geometry c" and "page_bytes bs c" and "map_inv P (cache_map c)"
    and "v_free (view_of (cache_map c)) = []" and "v_clean (view_of (cache_map c)) = x # C"
    and "unat (v_blocks (view_of (cache_map c))) div 2 < length (v_clean (view_of (cache_map c)))"
    and "request_ok p" and "pio_operation (hd p) = WRITE" and "v_map (view_of (cache_map c)) (pio_key (hd p)) = Some x"
    and "length (fst k) \<le> MAX_PATH_SIZE" and "v_map (view_of (cache_map c)) k = None"
    and "\<And>cmd w. awaited cmd \<noteq> None \<Longrightarrow> fst (submit S cmd w) = 0"
  shows "\<exists>m1 m2 m3 m4 m5 m6 w' cs'. demotion_clean_to_free (cache_map c) cb = Some (True, x, m1) \<and>
    request_lookup m1 (hd p) = Some (True, x, m2) \<and> demotion_complete m2 x True = Some m3 \<and>
    promotion_free_to_clean m3 (fst k) (snd k) cb = Some (True, x, m4) \<and> promotion_complete m4 x True = Some m5 \<and>
    map_to_cache (logged S) (c\<lparr>cache_map := m5\<rparr>) p x (w, cs) = Some (0, c\<lparr>cache_map := m6\<rparr>, (w', cs')) \<and>
    v_map (view_of m6) k = Some x \<and> v_map (view_of m6) (pio_key (hd p)) = None \<and> x \<in> set (v_dirty (view_of m6)) \<and>
    (\<forall>i < unat (pio_cnt (hd p)) * 4096.
      ssd (V w') (page_start x (pio_page_index (hd p)) + i) = ram (V w) (request_addrs p ! i))"
proof -
  have len: "length (pio_path (hd p)) \<le> MAX_PATH_SIZE" using assms(9) by (simp add: request_ok_def)
  obtain m1 m2 m3 m4 m5 where run: "demotion_clean_to_free (cache_map c) cb = Some (True, x, m1)"
      "request_lookup m1 (hd p) = Some (True, x, m2)" "demotion_complete m2 x True = Some m3"
      "promotion_free_to_clean m3 (fst k) (snd k) cb = Some (True, x, m4)" "promotion_complete m4 x True = Some m5"
    and inv: "map_inv P m5" "x < cache_block_num m5"
    and v5: "v_map (view_of m5) (pio_key (hd p)) = None" "v_map (view_of m5) k = Some x"
      "v_key (view_of m5) x = Some k" "v_moving (view_of m5) x = None" "v_shift (view_of m5) = v_shift (view_of (cache_map c))"
    using block_changes_hands [OF assms(5-8) len assms(11-13)] by blast
  let ?c = "c\<lparr>cache_map := m5\<rparr>"
  have geo: "cache_geometry ?c" and bytes: "page_bytes bs ?c"
    using assms(3,4) v5(5) by (simp_all add: cache_geometry_def view_shift page_bytes_def)
  have op: "pio_operation (hd p) \<noteq> DISCARD" using assms(10) by simp
  have at: "x < cache_block_num (cache_map ?c)" "map_inv P (cache_map ?c)" using inv by simp_all
  obtain rc m6 w' cmd where s: "map_to_cache (logged S) ?c p x (w, cs) = Some (rc, ?c\<lparr>cache_map := m6\<rparr>, (w', cs @ [cmd]))"
      "view_of m6 = (if pio_operation (hd p) = WRITE \<and> rc = 0 then a_set_dirty x (view_of (cache_map ?c)) else view_of (cache_map ?c))"
    using serve_cache [OF assms(1) geo assms(9) op at] by blast
  have b: "x < CACHE_BLOCK_NUMBER"
    using inv by (auto elim!: map_invE dest!: minv_core(1) simp: mcore_def)
  obtain cmd' where cmd': "block_cmd ?c p x cmd'" "carried bs (logged S) (V \<circ> fst) cmd' rc (w, cs) (w', cs @ [cmd])"
    using hit_performs [OF obeys_logged [OF assms(2)] geo assms(9) op b s(1)] by blast
  then have "awaited cmd' \<noteq> None" by (auto simp: block_cmd_def)
  then have rc: "rc = 0" using cmd'(2) assms(14) by (simp add: carried_def case_prod_beta)
  have "performs bs cmd' 0 (V w) (V w')" using cmd'(2) rc by (simp add: carried_def)
  from block_cmd_effect [OF assms(9) bytes cmd'(1) this] assms(10)
  have data: "\<forall>i < unat (pio_cnt (hd p)) * 4096.
      ssd (V w') (page_start x (pio_page_index (hd p)) + i) = ram (V w) (request_addrs p ! i)"
    by (simp add: overlay_apply length_request_addrs [OF assms(9)])
  have "view_of m6 = a_set_dirty x (view_of m5)" using s(2) assms(10) rc by simp
  then have "v_map (view_of m6) k = Some x \<and> v_map (view_of m6) (pio_key (hd p)) = None \<and> x \<in> set (v_dirty (view_of m6))"
    using v5 by (simp add: a_set_dirty_def)
  then show ?thesis
    using run s(1) [unfolded rc] data by auto
qed

theorem late_write_hits_other_page_witness:
  "\<exists>m m1 m3 m6 w cs. demotion_clean_to_free m 9 = Some (True, 0, m1) \<and> request_lookup m1 (hd sample_write) \<noteq> None \<and>
    promotion_free_to_clean m3 ''g'' 2 9 \<noteq> None \<and> v_map (view_of m) (''f'', 1) = Some 0 \<and>
    v_map (view_of m6) (''g'', 2) = Some 0 \<and> ssd (fst w) 0 = ram sample_storage 4096 \<and>
    (\<exists>m5. map_to_cache (logged (disk_device 512)) (one_cache\<lparr>cache_map := m5\<rparr>) sample_write 0
      ((sample_storage, idle_device), []) = Some (0, one_cache\<lparr>cache_map := m6\<rparr>, (w, cs)))"
proof -
  obtain m where m: "map_inv {} m" "view_of m = (empty_view 1 6)\<lparr>v_free := [], v_clean := [0], v_promotions := 1,
      v_key := [0 \<mapsto> (''f'', 1)], v_map := [(''f'', 1) \<mapsto> 0]\<rparr>"
    using one_map_filled by blast
  let ?c = "one_cache\<lparr>cache_map := m\<rparr>" and ?k = "(''g'', 2 :: u32)"
  have geo: "cache_geometry ?c" "page_bytes 512 ?c" "map_inv {} (cache_map ?c)"
    using one_cache_ok(1,2) m(1)
    by (simp_all add: cache_geometry_def view_shift page_bytes_def m(2) one_cache_ok(3) one_map_law(2))
  have lists: "v_free (view_of (cache_map ?c)) = []" "v_clean (view_of (cache_map ?c)) = [0]"
      "unat (v_blocks (view_of (cache_map ?c))) div 2 < length (v_clean (view_of (cache_map ?c)))"
    by (simp_all add: m(2)) (simp add: empty_view_def)
  have keys: "v_map (view_of (cache_map ?c)) (pio_key (hd sample_write)) = Some 0"
      "length (fst ?k) \<le> MAX_PATH_SIZE" "v_map (view_of (cache_map ?c)) ?k = None"
    by (simp_all add: m(2) sample_key consts_simps)
  have op: "pio_operation (hd sample_write) = WRITE" by simp
  note all = late_write_hits_other_page [OF disk_answers disk_obeys geo lists sample_write_simps(2) op keys disk_accepts,
      of 9 "(sample_storage, idle_device)" "[]"]
  have "unat (pio_cnt (hd sample_write)) * 4096 > 0" by simp
  moreover have "page_start 0 (pio_page_index (hd sample_write)) = 0" by (simp add: page_start_def)
  ultimately obtain m1 m2 m3 m4 m5 m6 w cs where r: "demotion_clean_to_free m 9 = Some (True, 0, m1)"
      "request_lookup m1 (hd sample_write) = Some (True, 0, m2)" "promotion_free_to_clean m3 ''g'' 2 9 = Some (True, 0, m4)"
      "map_to_cache (logged (disk_device 512)) (one_cache\<lparr>cache_map := m5\<rparr>) sample_write 0
        ((sample_storage, idle_device), []) = Some (0, one_cache\<lparr>cache_map := m6\<rparr>, (w, cs))"
      "v_map (view_of m6) (''g'', 2) = Some 0" "ssd (fst w) 0 = ram sample_storage 4096"
    using all by (auto simp: sample_addrs dest!: spec [where x = 0])
  moreover have "v_map (view_of m) (''f'', 1) = Some 0" by (simp add: m(2))
  ultimately show ?thesis by (metis option.distinct(1))
qed

end
