(* ===== verification/Worker.thy ===== *)
theory Worker
  imports System
begin

text \<open>
  The worker thread: the loop of \<open>migration\<close> in \<^verbatim>\<open>lib/ssd_cache_api.c\<close> pass by pass, and how
  a request to cancel it ends it.
\<close>

subsection \<open>One pass\<close>

lemma migration_pass_law:
  assumes "answers S" and "map_inv {} m" and "geometry_ok m"
    and "head_promotable (view_of m)"
  defines "idle \<equiv> v_work (view_of m) = []"
  shows "\<exists>ok m' w' cs'. migration_pass (logged S) m dma (w, cs) = Some (\<not> idle, idle, m', (w', cs @ cs')) \<and>
    map_inv {} m' \<and> view_of m' = snd (a_migrate ok (view_of m))"
proof -
  obtain ok m' w' cs' where d: "do_migration_work (logged S) m dma (w, cs) =
        Some (fst (a_migrate ok (view_of m)), m', (w', cs @ cs'))"
      "map_inv {} m'" "view_of m' = snd (a_migrate ok (view_of m))"
    using do_migration_law [OF assms(1-4), where dma = dma and w = w and cs = cs] by blast
  have f: "fst (a_migrate ok (view_of m)) \<longleftrightarrow> \<not> idle"
    by (simp add: a_migrate_def idle_def split: list.splits)
  have e: "idle \<Longrightarrow> items (m_wq m') = []"
    using d(3) view_work [of m'] by (simp add: a_migrate_def idle_def)
  have "migration_pass (logged S) m dma (w, cs) = Some (\<not> idle, idle, m', (w', cs @ cs'))"
    using d(1) f e is_empty_law [OF map_inv_ready [OF d(2)]] by (simp add: migration_pass_def)
  with d(2,3) show ?thesis by blast
qed

text \<open>What the loop relies on and keeps: above all, the paths of queued works fit its buffer.\<close>

definition short_paths :: "cache_view \<Rightarrow> bool" where
  "short_paths v \<longleftrightarrow> (\<forall>w \<in> set (v_work v). length (work_path w) < MAX_PATH_SIZE)"

definition worker_ok :: "mapping \<Rightarrow> bool" where
  "worker_ok m \<longleftrightarrow> map_inv {} m \<and> geometry_ok m \<and> view_inv Idle (view_of m) \<and> short_paths (view_of m)"

text \<open>Users keep that, and from pass \<open>k\<close> on they queue nothing new.\<close>

definition polite :: "nat \<Rightarrow> (nat \<Rightarrow> mapping \<Rightarrow> mapping) \<Rightarrow> bool" where
  "polite k users \<longleftrightarrow> (\<forall>n m. worker_ok m \<longrightarrow> worker_ok (users n m) \<and>
     (k \<le> n \<longrightarrow> v_work (view_of (users n m)) = v_work (view_of m)))"

lemma politeD:
  "polite k users \<Longrightarrow> worker_ok m \<Longrightarrow> worker_ok (users n m)"
  "polite k users \<Longrightarrow> k \<le> n \<Longrightarrow> worker_ok m \<Longrightarrow> v_work (view_of (users n m)) = v_work (view_of m)"
  by (simp_all add: polite_def)

lemma a_move_maps:
  "v_map (a_move k ok v) k' \<noteq> None \<Longrightarrow> v_map v k' \<noteq> None \<or> k' = k"
  by (auto simp: a_move_def a_promote_start_def a_promote_end_def a_settle_def a_drop_def enqueue_def
      a_demote_start_def a_demote_end_def a_writeback_start_def a_writeback_end_def
      split: option.splits list.splits if_splits)

lemma key_of_inject: "key_of w = key_of u \<Longrightarrow> w = u"
  by (cases w; cases u) (simp add: key_of_def)

lemma migrate_keeps_idle:
  assumes "view_inv Idle v"
  shows "view_inv Idle (snd (a_migrate ok v))"
proof (cases "v_work v")
  case (Cons w ws)
  have "v_map (a_move (key_of w) ok v) (key_of u) = None" if "u \<in> set ws" for u
  proof (rule ccontr)
    assume "v_map (a_move (key_of w) ok v) (key_of u) \<noteq> None"
    then have "v_map v (key_of u) \<noteq> None \<or> key_of u = key_of w" by (rule a_move_maps)
    then show False
      using assms that Cons by (auto simp: view_inv_def dest: key_of_inject)
  qed
  then show ?thesis using assms Cons by (simp add: view_inv_def a_migrate_def)
qed (use assms in \<open>simp add: a_migrate_def\<close>)

lemma view_inv_head: "view_inv Idle v \<Longrightarrow> short_paths v \<Longrightarrow> head_promotable v"
  by (simp add: view_inv_def short_paths_def head_promotable_def split: list.split)

lemma a_migrate_shift: "v_shift (snd (a_migrate ok v)) = v_shift v" "v_work (snd (a_migrate ok v)) = tl (v_work v)"
  by (simp_all add: a_migrate_def split: list.split)

lemma migrate_short: "short_paths v \<Longrightarrow> short_paths (snd (a_migrate ok v))"
  by (cases "v_work v") (auto simp: short_paths_def a_migrate_shift)

lemma pass_law:
  assumes "answers S" and "worker_ok m"
  shows "\<exists>ok m' w' cs'. migration_pass (logged S) m dma (w, cs) =
      Some (v_work (view_of m) \<noteq> [], v_work (view_of m) = [], m', (w', cs')) \<and> worker_ok m' \<and>
    view_of m' = snd (a_migrate ok (view_of m))"
proof -
  note ok = assms(2) [unfolded worker_ok_def]
  obtain b m' w' cs' where p: "migration_pass (logged S) m dma (w, cs) =
        Some (v_work (view_of m) \<noteq> [], v_work (view_of m) = [], m', (w', cs @ cs'))"
      "map_inv {} m'" "view_of m' = snd (a_migrate b (view_of m))"
    using migration_pass_law [OF assms(1) _ _ view_inv_head] ok by blast
  have "geometry_ok m'"
    using ok a_migrate_shift(1) by (simp add: geometry_ok_def view_shift p(3))
  moreover have "view_inv Idle (view_of m')" unfolding p(3) using ok by (blast intro: migrate_keeps_idle)
  moreover have "short_paths (view_of m')" unfolding p(3) using ok by (blast intro: migrate_short)
  ultimately show ?thesis using p by (auto simp: worker_ok_def)
qed

subsection \<open>The passes of a run\<close>

text \<open>The mapping and the world after \<open>n\<close> passes.\<close>

primrec passes :: "'w driver \<Rightarrow> (nat \<Rightarrow> mapping \<Rightarrow> mapping) \<Rightarrow> addr \<Rightarrow> mapping \<times> 'w \<Rightarrow> nat \<Rightarrow> mapping \<times> 'w" where
  "passes S users dma mw 0 = mw"
| "passes S users dma mw (Suc n) = (let (m, w) = passes S users dma mw n in
     case migration_pass S (users n m) dma w of None \<Rightarrow> (m, w) | Some (worked, idle, m', w') \<Rightarrow> (m', w'))"

lemma passes_law:
  fixes S :: "'w driver" and dma :: addr and w :: "'w \<times> io_cmd list"
  assumes "answers S" and "worker_ok m" and "polite k users"
  defines "st \<equiv> passes (logged S) users dma (m, w)"
  shows "worker_ok (fst (st n))"
    and "\<exists>ok. view_of (fst (st (Suc n))) = snd (a_migrate ok (view_of (users n (fst (st n)))))"
    and "let q = v_work (view_of (users n (fst (st n)))) in
      migration_pass (logged S) (users n (fst (st n))) dma (snd (st n)) = Some (q \<noteq> [], q = [], fst (st (Suc n)), snd (st (Suc n)))"
    and "k \<le> n \<Longrightarrow> v_work (view_of (users n (fst (st n)))) = v_work (view_of (fst (st n)))"
    and "k \<le> n \<Longrightarrow> v_work (view_of (fst (st (Suc n)))) = tl (v_work (view_of (fst (st n))))"
proof -
  have step: "\<exists>ok. worker_ok (fst (st (Suc n))) \<and>
      view_of (fst (st (Suc n))) = snd (a_migrate ok (view_of (users n (fst (st n))))) \<and>
      (let q = v_work (view_of (users n (fst (st n)))) in migration_pass (logged S) (users n (fst (st n))) dma (snd (st n)) =
        Some (q \<noteq> [], q = [], fst (st (Suc n)), snd (st (Suc n))))" if inv: "worker_ok (fst (st n))" for n
  proof -
    obtain m1 w1 cs1 where st: "st n = (m1, (w1, cs1))" by (metis surj_pair)
    obtain ok m' w' cs' where p: "migration_pass (logged S) (users n m1) dma (w1, cs1) =
        Some (v_work (view_of (users n m1)) \<noteq> [], v_work (view_of (users n m1)) = [], m', (w', cs'))" "worker_ok m'"
        "view_of m' = snd (a_migrate ok (view_of (users n m1)))"
      using pass_law [OF assms(1) politeD(1) [OF assms(3)], of m1 n dma w1 cs1] inv st by auto
    have "st (Suc n) = (m', (w', cs'))" using st p(1) by (simp add: st_def)
    with p st show ?thesis by (auto simp: Let_def)
  qed
  show inv: "worker_ok (fst (st n))" for n
  proof (induction n)
    case 0
    then show ?case using assms(2) by (simp add: st_def)
  next
    case (Suc n)
    then show ?case using step by blast
  qed
  show "\<exists>ok. view_of (fst (st (Suc n))) = snd (a_migrate ok (view_of (users n (fst (st n)))))"
    using step [OF inv] by blast
  show "let q = v_work (view_of (users n (fst (st n)))) in
      migration_pass (logged S) (users n (fst (st n))) dma (snd (st n)) = Some (q \<noteq> [], q = [], fst (st (Suc n)), snd (st (Suc n)))"
    using step [OF inv] by blast
  show same: "k \<le> n \<Longrightarrow> v_work (view_of (users n (fst (st n)))) = v_work (view_of (fst (st n)))"
    by (rule politeD(2) [OF assms(3) _ inv])
  show "k \<le> n \<Longrightarrow> v_work (view_of (fst (st (Suc n)))) = tl (v_work (view_of (fst (st n))))"
    using step [OF inv, of n] same by (auto simp: a_migrate_shift)
qed

text \<open>The loop goes through the passes until the first that finds both an empty queue and the request.\<close>

lemma migration_stops:
  fixes S :: "'w driver" and dma :: addr and w :: "'w \<times> io_cmd list"
  assumes "answers S" and "worker_ok m" and "polite k users" and "n \<le> N"
  defines "st \<equiv> passes (logged S) users dma (m, w)"
  assumes "\<And>i. i < N \<Longrightarrow> \<not> (v_work (view_of (users i (fst (st i)))) = [] \<and> cancelled i)"
    and "v_work (view_of (users N (fst (st N)))) = []" and "cancelled N"
  shows "migration (logged S) users cancelled dma n (fst (st n)) (snd (st n)) = Some (st (Suc N))"
  using assms(4)
proof (induction "N - n" arbitrary: n)
  case 0
  then show ?case
    using passes_law(3) [OF assms(1-3), where dma = dma and w = w and n = N] assms(7,8)
    by (subst migration.simps) (simp add: st_def [symmetric] del: passes.simps)
next
  case (Suc d)
  have "n < N" using Suc.hyps(2) by simp
  then have "migration (logged S) users cancelled dma n (fst (st n)) (snd (st n)) =
      migration (logged S) users cancelled dma (n + 1) (fst (st (n + 1))) (snd (st (n + 1)))"
    using passes_law(3) [OF assms(1-3), where dma = dma and w = w and n = n] assms(6) [of n]
    by (subst migration.simps) (auto simp: st_def [symmetric] Let_def case_prod_beta simp del: passes.simps)
  also have "\<dots> = Some (st (Suc N))" by (rule Suc.hyps(1)) (use Suc.hyps(2) in auto)
  finally show ?case .
qed

text \<open>From pass \<open>k\<close> on every pass takes the oldest work.\<close>

lemma works_off:
  fixes S :: "'w driver" and dma :: addr and w :: "'w \<times> io_cmd list"
  assumes "answers S" and "worker_ok m" and "polite k users"
  defines "st \<equiv> passes (logged S) users dma (m, w)"
  shows "v_work (view_of (fst (st (k + j)))) = drop j (v_work (view_of (fst (st k))))"
proof (induction j)
  case (Suc j)
  have "v_work (view_of (fst (st (Suc (k + j))))) = tl (v_work (view_of (fst (st (k + j)))))"
    unfolding st_def by (rule passes_law(5) [OF assms(1-3)]) simp
  with Suc show ?case by (simp add: tl_drop drop_Suc)
qed simp

lemma migration_ends:
  fixes S :: "'w driver" and dma :: addr and w :: "'w \<times> io_cmd list"
  assumes "answers S" and "worker_ok m" and "polite k users" and "\<forall>i. cancelled i \<longleftrightarrow> k \<le> i"
  defines "st \<equiv> passes (logged S) users dma (m, w)"
  defines "N \<equiv> k + length (v_work (view_of (fst (st k))))"
  shows "migration (logged S) users cancelled dma 0 m w = Some (st (Suc N))" and "v_work (view_of (fst (st (Suc N)))) = []"
proof -
  note off = works_off [OF assms(1-3), where dma = dma and w = w, folded st_def]
  note same = passes_law(4) [OF assms(1-3), where dma = dma and w = w, folded st_def]
  have st0: "fst (st 0) = m" "snd (st 0) = w" by (simp_all add: st_def)
  have "migration (logged S) users cancelled dma 0 (fst (st 0)) (snd (st 0)) = Some (st (Suc N))"
    unfolding st_def
  proof (rule migration_stops [OF assms(1-3)], goal_cases)
    case (2 i)
    show ?case
    proof (rule notI)
      assume idle: "v_work (view_of (users i (fst (passes (logged S) users dma (m, w) i)))) = [] \<and> cancelled i"
      then have i: "k \<le> i" using assms(4) by simp
      then obtain j where j: "i = k + j" by (auto simp: le_iff_add)
      then have "drop j (v_work (view_of (fst (st k)))) = []"
        using idle same [OF i] off [of j] by (simp add: st_def)
      with 2 j show False by (simp add: N_def)
    qed
  next
    case 3
    then show ?case using same [of N] off [of "length (v_work (view_of (fst (st k))))"] by (simp add: N_def st_def)
  qed (use assms(4) in \<open>simp_all add: N_def\<close>)
  then show "migration (logged S) users cancelled dma 0 m w = Some (st (Suc N))" by (simp only: st0)
  show "v_work (view_of (fst (st (Suc N)))) = []"
    using off [of "Suc (length (v_work (view_of (fst (st k)))))"] by (simp add: N_def)
qed

text \<open>With the request there from the start and no users, exactly the queued works are carried out.\<close>

lemma drain_law:
  assumes "answers S" and "worker_ok m" and "polite 0 users"
  shows "\<exists>m' w'. migration (logged S) users (\<lambda>n. True) dma 0 m w = Some (m', w') \<and> worker_ok m' \<and>
    (users = (\<lambda>n m. m) \<longrightarrow> (\<exists>oks. length oks = length (v_work (view_of m)) \<and>
      view_of m' = fold (\<lambda>ok v. snd (a_migrate ok v)) oks (view_of m)))"
proof -
  let ?st = "passes (logged S) users dma (m, w)"
  let ?n = "length (v_work (view_of m))"
  note law = passes_law [OF assms, where dma = dma and w = w]
  have "migration (logged S) users (\<lambda>n. True) dma 0 m w = Some (?st (Suc ?n))"
    using migration_ends(1) [OF assms, where cancelled = "\<lambda>n. True" and dma = dma and w = w] by simp
  moreover have "\<exists>oks. length oks = n \<and> view_of (fst (?st n)) = fold (\<lambda>ok v. snd (a_migrate ok v)) oks (view_of m)"
    if u: "users = (\<lambda>n m. m)" for n
  proof (induction n)
    case (Suc n)
    then obtain oks where oks: "length oks = n" "view_of (fst (?st n)) = fold (\<lambda>ok v. snd (a_migrate ok v)) oks (view_of m)" by blast
    obtain ok where "view_of (fst (?st (Suc n))) = snd (a_migrate ok (view_of (fst (?st n))))"
      using law(2) [of n] by (auto simp only: u)
    then have "view_of (fst (?st (Suc n))) = fold (\<lambda>ok v. snd (a_migrate ok v)) (oks @ [ok]) (view_of m)" by (simp only: oks(2)) simp
    moreover have "length (oks @ [ok]) = Suc n" using oks(1) by simp
    ultimately show ?case by blast
  qed simp
  moreover have "view_of (fst (?st (Suc ?n))) = view_of (fst (?st ?n))" if u: "users = (\<lambda>n m. m)"
  proof -
    have "v_work (view_of (fst (?st ?n))) = []" using works_off [OF assms, where dma = dma and w = w and j = ?n] by simp
    then show ?thesis using law(2) [of ?n] by (auto simp only: u a_migrate_def list.case snd_conv)
  qed
  ultimately show ?thesis using law(1) [of "Suc ?n"] by (metis prod.collapse)
qed

subsection \<open>Requests between the passes\<close>

lemma serve_change:
  assumes "map_inv P m" and "length (pio_path x) \<le> MAX_PATH_SIZE" and "view_inv ph (view_of m)"
  shows "view_inv ph (a_serve x d (view_of m))"
proof -
  have "length (fst (pio_key x)) \<le> MAX_PATH_SIZE" using assms(2) by (simp add: pio_key_def)
  then have "user_change (view_of m) (snd (a_request_lookup x (view_of m)))"
    using lookup_change insert_change [OF assms(1)] by (simp add: a_request_lookup_def)
  then have "view_inv ph (snd (a_request_lookup x (view_of m)))" by (rule user_change_inv [OF assms(3)])
  then show ?thesis
    using user_change_inv [OF _ set_dirty_change] by (auto simp: a_serve_def case_prod_beta split: option.splits)
qed

lemma serve_short:
  assumes "length (pio_path x) < MAX_PATH_SIZE" and "short_paths v"
  shows "short_paths (a_serve x d v)"
  using assms
  by (auto simp: short_paths_def a_serve_def a_request_lookup_def a_lookup_def a_insert_def a_hit_def a_miss_def
      a_request_def a_set_dirty_def work_of_def pio_key_def split: option.splits list.splits if_splits)

lemma serve_worker_ok:
  assumes "worker_ok m" and "map_inv {} m'" and "view_of m' = a_serve x d (view_of m)"
    and "length (pio_path x) < MAX_PATH_SIZE"
  shows "worker_ok m'"
  using assms serve_change [of "{}" m x Idle d] serve_short [OF assms(4)]
  by (simp add: worker_ok_def geometry_ok_def view_shift a_serve_shift)

subsection \<open>Properties\<close>





end
