(* ===== verification/Coherence.thy ===== *)
theory Coherence
  imports Storage_Spec Worker
begin

text \<open>
  The cache is transparent: what a file holds, as seen through the cache, is what it would hold
  if every request went to the file. \<open>contents\<close> is the view through the cache, \<open>coherent\<close> the
  invariant behind it (a cached page that is not dirty equals the file), and the reference is a
  memory with plain files, \<open>plain_request\<close>. The devices of this theory report no errors and keep
  the data of deallocated blocks, of which the worker deallocates the wrong ones.
\<close>

unbundle bit_operations_syntax

subsection \<open>Devices without errors\<close>

fun succeeds :: "io_cmd \<Rightarrow> int \<Rightarrow> bool" where
  "succeeds (OpenFile path mode) rc \<longleftrightarrow> path = None \<or> 0 \<le> rc"
| "succeeds (Pread fd a n off) rc \<longleftrightarrow> rc = uint n"
| "succeeds (Pwrite fd a n off) rc \<longleftrightarrow> rc = uint n"
| "succeeds (Preadv fd vs k off) rc \<longleftrightarrow> rc = int (length (iov_bytes vs))"
| "succeeds (Pwritev fd vs k off) rc \<longleftrightarrow> rc = int (length (iov_bytes vs))"
| "succeeds (CloseFile fd) rc \<longleftrightarrow> True"
| "succeeds (NsDeallocate q off n) rc \<longleftrightarrow> True"
| "succeeds (NsRead q a off n) rc \<longleftrightarrow> rc = 0"
| "succeeds (NsWrite q a off n) rc \<longleftrightarrow> rc = 0"
| "succeeds (NsReadv q req off n) rc \<longleftrightarrow> rc = 0"
| "succeeds (NsWritev q req off n) rc \<longleftrightarrow> rc = 0"

definition reliable :: "'w driver \<Rightarrow> bool" where
  "reliable S \<longleftrightarrow> (\<forall>c w. succeeds c (fst (submit S c w)))"

definition trims_keep :: "'w driver \<Rightarrow> ('w \<Rightarrow> storage) \<Rightarrow> bool" where
  "trims_keep S V \<longleftrightarrow> (\<forall>q off n w. V (snd (submit S (NsDeallocate q off n) w)) = V w)"

lemma reliableD:
  assumes "reliable S" and "submit S c w = (rc, w')"
  shows "succeeds c rc"
  using assms unfolding reliable_def by (metis fst_conv)

lemma reliable_logged: "reliable S \<Longrightarrow> reliable (logged S)"
  by (auto simp: reliable_def)

lemma trims_keep_logged: "trims_keep S V \<Longrightarrow> trims_keep (logged S) (V \<circ> fst)"
  by (auto simp: trims_keep_def)

lemma reliable_awaited: "reliable S \<Longrightarrow> awaited c \<noteq> None \<Longrightarrow> fst (submit S c w) = 0"
  using reliableD [of S c w] by (cases c; cases "submit S c w") auto

lemma reliable_full: "reliable S \<Longrightarrow> full_transfers S"
  unfolding full_transfers_def reliable_def by (metis succeeds.simps(2,3))

lemma disk_reliable: "reliable (disk_device bs)"
proof -
  have "succeeds c (fst (disk_io bs c s))" for c s
    by (cases c) (auto simp: Let_def split: option.splits)
  then show ?thesis by (auto simp: reliable_def)
qed

lemma disk_trims_keep: "trims_keep (disk_device bs) fst"
  by (auto simp: trims_keep_def)

text \<open>Every transfer of a move succeeds, and so does the move.\<close>

lemma reliable_io:
  assumes "reliable S"
  shows "read_spdk S a off n q w = Some (rc, w') \<Longrightarrow> rc = 0" and "write_spdk S a off n q w = Some (rc, w') \<Longrightarrow> rc = 0"
  using reliable_awaited [OF assms, of "NsRead q a off n" w] reliable_awaited [OF assms, of "NsWrite q a off n" w]
  by (auto simp: read_spdk_def write_spdk_def case_prod_beta Let_def split: bind_splits)

lemma reliable_moves:
  assumes "reliable S" and "geometry_ok m"
  shows "mg_start S m dma (Some path) cp x PROMOTION w = Some (ok, w') \<Longrightarrow> ok"
    and "mg_start S m dma (Some path) cp x WRITEBACK w = Some (ok, w') \<Longrightarrow> ok"
proof -
  have open_ok: "\<not> fst (submit S (OpenFile (Some path) mode) w) < 0" for mode w
    using assms(1) by (metis reliable_def option.distinct(1) succeeds.simps(1) not_less)
  have io_ok: "\<not> fst (submit S (Pread fd a n off) w) < 0" "\<not> fst (submit S (Pwrite fd a n off) w) < 0" for fd a n off w
    using assms(1) unfolding reliable_def by (metis succeeds.simps(2,3) uint_ge_0 not_less)+
  show "mg_start S m dma (Some path) cp x PROMOTION w = Some (ok, w') \<Longrightarrow> ok"
    using reliable_io(2) [OF assms(1)]
    by (auto simp: mg_start_eq [OF assms(2)] case_prod_beta Let_def open_ok io_ok split: bind_splits)
  show "mg_start S m dma (Some path) cp x WRITEBACK w = Some (ok, w') \<Longrightarrow> ok"
    using reliable_io(1) [OF assms(1)]
    by (auto simp: mg_start_eq [OF assms(2)] case_prod_beta Let_def open_ok io_ok split: bind_splits if_splits)
qed

text \<open>A request served by the file reads or writes all its pages there.\<close>

lemma origin_effect:
  assumes "obeys bs S V" and "reliable S" and "request_ok p" and "pio_operation (hd p) \<noteq> DISCARD" and "pio_fd (hd p) = 0"
    and "map_to_origin S c p w = Some (rc, c', w')"
  defines "off \<equiv> unat (ucast (push_bit 12 (pio_page_index (hd p))) :: u64)" and "n \<equiv> unat (pio_cnt (hd p)) * 4096"
  shows "\<exists>f. V w' = (if pio_operation (hd p) = READ
    then (V w)\<lparr>fds := f, ram := fill (request_addrs p) (map (files (V w) (pio_path (hd p))) [off..<off + n]) (ram (V w))\<rparr>
    else (V w)\<lparr>fds := f, files := (files (V w))(pio_path (hd p) :=
      overlay (files (V w) (pio_path (hd p))) off (map (ram (V w)) (request_addrs p)))\<rparr>)"
proof -
  obtain x ps where p: "p = x # ps" using assms(3) by (cases p) (auto simp: request_ok_def)
  note vec = request_vec [OF assms(3), unfolded p list.sel]
  have len: "length (request_addrs p) = n" using length_request_addrs [OF assms(3)] by (simp add: n_def)
  show ?thesis
  proof (cases "pio_operation x = READ")
    case True
    obtain fd w1 where o: "submit S (OpenFile (Some (pio_path x)) O_RDONLY_CREAT) w = (fd, w1)" by (meson surj_pair)
    let ?io = "Preadv fd (pio_vec p) (uint (pio_cnt x)) (ucast (push_bit 12 (pio_page_index x)))"
    obtain r w2 where r: "submit S ?io w1 = (r, w2)" by (meson surj_pair)
    obtain r' w3 where c: "submit S (CloseFile fd) w2 = (r', w3)" by (meson surj_pair)
    have fd: "\<not> fd < 0" using reliableD [OF assms(2) o] by simp
    have "w' = w3"
      using assms(5,6) True fd o r c vec by (simp add: map_to_origin_def read_origin_def p)
    moreover have "r = int n" using reliableD [OF assms(2) r] len by (simp add: request_addrs_def p)
    ultimately show ?thesis
      using obeys_submit [OF assms(1) o] obeys_submit [OF assms(1) r] obeys_submit [OF assms(1) c] fd True len p
      by (intro exI [of _ "fds (V w2)"]) (simp add: off_def request_addrs_def)
  next
    case False
    obtain fd w1 where o: "submit S (OpenFile (Some (pio_path x)) O_WRONLY_CREAT) w = (fd, w1)" by (meson surj_pair)
    let ?io = "Pwritev fd (pio_vec p) (uint (pio_cnt x)) (ucast (push_bit 12 (pio_page_index x)))"
    obtain r w2 where r: "submit S ?io w1 = (r, w2)" by (meson surj_pair)
    obtain r' w3 where c: "submit S (CloseFile fd) w2 = (r', w3)" by (meson surj_pair)
    have fd: "\<not> fd < 0" using reliableD [OF assms(2) o] by simp
    have "w' = w3"
      using assms(5,6) False fd o r c vec by (simp add: map_to_origin_def write_origin_def p)
    moreover have "r = int n" using reliableD [OF assms(2) r] len by (simp add: request_addrs_def p)
    ultimately show ?thesis
      using obeys_submit [OF assms(1) o] obeys_submit [OF assms(1) r] obeys_submit [OF assms(1) c] fd False len p
      by (intro exI [of _ "fds (V w2)"]) (simp add: off_def request_addrs_def)
  qed
qed

text \<open>So a request moves its bytes between its buffers and one place: the block it hits, or the file.\<close>

lemma request_effect:
  assumes "obeys bs S V" and "reliable S" and "cache_geometry c" and "page_bytes bs c" and "map_inv P (cache_map c)"
    and "request_ok p" and "pio_operation (hd p) \<noteq> DISCARD" and "pio_fd (hd p) = 0"
    and "submit_to_target S c p w = Some (rc, c', w')"
  defines "off \<equiv> unat (ucast (push_bit 12 (pio_page_index (hd p))) :: u64)" and "n \<equiv> unat (pio_cnt (hd p)) * 4096"
    and "A \<equiv> request_addrs p" and "f \<equiv> pio_path (hd p)" and "s \<equiv> V w"
  shows "case fst (a_request_lookup (hd p) (view_of (cache_map c))) of
      Some b \<Rightarrow> rc = 0 \<and> (let st = page_start b (pio_page_index (hd p)) in
        V w' = (if pio_operation (hd p) = READ then s\<lparr>ram := fill A (map (ssd s) [st..<st + n]) (ram s)\<rparr>
          else s\<lparr>ssd := overlay (ssd s) st (map (ram s) A)\<rparr>))
    | None \<Rightarrow> \<exists>d. V w' = (if pio_operation (hd p) = READ
        then s\<lparr>fds := d, ram := fill A (map (files s f) [off..<off + n]) (ram s)\<rparr>
        else s\<lparr>fds := d, files := (files s)(f := overlay (files s f) off (map (ram s) A))\<rparr>)"
proof (cases "fst (a_request_lookup (hd p) (view_of (cache_map c)))")
  case None
  then obtain m1 where o: "map_to_origin S (c\<lparr>cache_map := m1\<rparr>) p w = Some (rc, c', w')"
    using submit_split [OF assms(5-7,9)] by auto
  show ?thesis
    unfolding None option.case off_def n_def A_def f_def s_def by (rule origin_effect [OF assms(1,2,6-8) o])
next
  case (Some b)
  obtain cmd where cmd: "block_cmd c p b cmd" "rc = fst (submit S cmd w)" "performs bs cmd rc (V w) (V w')"
    using submit_performs [OF assms(1,3,5-7,9)] Some by (auto simp: carried_def)
  then have "awaited cmd \<noteq> None" by (auto simp: block_cmd_def)
  then have "rc = 0" using reliable_awaited [OF assms(2)] cmd(2) by simp
  then show ?thesis
    using block_cmd_effect [OF assms(6,4) cmd(1,3)] Some by (simp add: n_def A_def s_def Let_def)
qed

subsection \<open>Files through the cache\<close>

text \<open>Byte \<open>j\<close> of a file, where its cache page is: in the block that the mapping names, or in the file.\<close>

definition contents :: "cache_view \<Rightarrow> storage \<Rightarrow> cstring \<Rightarrow> nat \<Rightarrow> byte" where
  "contents v s path j = (case v_map v (path, of_nat (j div 32768)) of
     Some b \<Rightarrow> ssd s (unat b * 32768 + j mod 32768)
   | None \<Rightarrow> files s path j)"

text \<open>
  Between the worker's rounds no block is in transit; all cached and queued pages lie below 4 GiB,
  where offsets do not wrap; a cached page that is not dirty equals the file.
\<close>

definition settled :: "cache_view \<Rightarrow> bool" where
  "settled v \<longleftrightarrow> (\<forall>x. v_moving v x = None) \<and> view_inv Idle v \<and> short_paths v \<and>
     (\<forall>w \<in> set (v_work v). unat (work_index w) < 2 ^ 17) \<and> (\<forall>k. v_map v k \<noteq> None \<longrightarrow> unat (snd k) < 2 ^ 17)"

definition clean_agree :: "cache_view \<Rightarrow> storage \<Rightarrow> bool" where
  "clean_agree v s \<longleftrightarrow> (\<forall>k x j. v_map v k = Some x \<longrightarrow> x \<notin> set (v_dirty v) \<longrightarrow> j < 32768 \<longrightarrow>
     ssd s (unat x * 32768 + j) = files s (fst k) (unat (snd k) * 32768 + j))"

definition coherent :: "nat \<Rightarrow> cache \<Rightarrow> storage \<Rightarrow> bool" where
  "coherent bs c s \<longleftrightarrow> map_inv {} (cache_map c) \<and> cache_geometry c \<and> page_bytes bs c \<and>
     settled (view_of (cache_map c)) \<and> clean_agree (view_of (cache_map c)) s"

text \<open>Bytes below 4 GiB by page and position in it.\<close>

lemma page_byte:
  assumes "unat (k :: u32) < 2 ^ 17" and "j < 32768"
  shows "(of_nat ((unat k * 32768 + j) div 32768) :: u32) = k" and "(unat k * 32768 + j) mod 32768 = j"
  using assms by simp_all

lemma byte_page:
  assumes "j < 2 ^ 32"
  shows "unat (of_nat (j div 32768) :: u32) = j div 32768" and "j div 32768 < 2 ^ 17"
    and "unat (of_nat (j div 32768) :: u32) * 32768 + j mod 32768 = j"
proof -
  show d: "j div 32768 < 2 ^ 17" using assms by (simp add: div_less_iff_less_mult)
  show u: "unat (of_nat (j div 32768) :: u32) = j div 32768"
    by (rule unat_of_nat_lt_len) (use d in simp)
  show "unat (of_nat (j div 32768) :: u32) * 32768 + j mod 32768 = j"
    unfolding u by (rule div_mult_mod_eq)
qed

lemma file_offset_page:
  assumes "unat cp < 2 ^ 17"
  shows "unat (file_offset cp) = unat cp * 32768"
proof -
  have "unat cp * 2 ^ 15 < 2 ^ 32" using assms by simp
  then have "unat (push_bit 15 cp) = unat cp * 2 ^ 15" by (rule push_bit_unat)
  then show ?thesis by (simp add: file_offset_def consts_simps)
qed

lemma page_offset:
  assumes "unat (i :: u32) < 2 ^ 20"
  shows "unat (ucast (push_bit 12 i) :: u64) = unat i * 4096"
proof -
  have "unat i * 2 ^ 12 < 2 ^ 32" using assms by simp
  then have "unat (push_bit 12 i) = unat i * 2 ^ 12" by (rule push_bit_unat)
  then show ?thesis by simp
qed

text \<open>Two keys never share a block.\<close>

lemma keys_apart:
  "map_inv {} m \<Longrightarrow> v_map (view_of m) k = Some x \<Longrightarrow> v_map (view_of m) k' = Some x \<Longrightarrow> k = k'"
  using injective_law by fastforce

text \<open>An overlay inside the page of one key changes no other page.\<close>

lemma overlay_other_page:
  assumes "a * 32768 \<le> st" and "st + length xs \<le> a * 32768 + 32768" and "b \<noteq> a" and "j < 32768"
  shows "overlay d st xs (b * 32768 + j) = d (b * 32768 + j)"
proof -
  have "b * 32768 + 32768 \<le> a * 32768 \<or> a * 32768 + 32768 \<le> b * 32768" using assms(3) by auto
  then show ?thesis using assms(1,2,4) by (auto simp: overlay_apply)
qed

subsection \<open>Requests\<close>

lemma serve_hit:
  assumes "fst (a_request_lookup x v) = Some b" and "\<forall>y. v_moving v y = None"
    and "\<And>b. v_map v (pio_key x) = Some b \<Longrightarrow> v_key v b \<noteq> None"
  defines "v' \<equiv> a_serve x True v"
  shows "v_map v' = (v_map v)(pio_key x \<mapsto> b)" and "\<forall>y. v_moving v' y = None" and "v_work v' = v_work v"
    and "set (v_dirty v') = (if pio_operation x = WRITE then insert b (set (v_dirty v)) else set (v_dirty v))"
    and "v_map v (pio_key x) = Some b \<or> optimizable x"
proof -
  have ins: "set (remove1 b xs @ [b]) = insert b (set xs)" for xs :: "u32 list"
    using set_remove1_subset [of b xs] by auto (metis in_set_remove1)
  show "v_map v' = (v_map v)(pio_key x \<mapsto> b)" "\<forall>y. v_moving v' y = None" "v_work v' = v_work v"
    "set (v_dirty v') = (if pio_operation x = WRITE then insert b (set (v_dirty v)) else set (v_dirty v))"
    "v_map v (pio_key x) = Some b \<or> optimizable x"
    using assms(1-3) ins
    by (auto simp: v'_def a_serve_def a_request_lookup_def a_lookup_def a_insert_def a_hit_def a_miss_def
        a_set_dirty_def optimizable_def fun_eq_iff split: option.splits list.splits if_splits)
qed

lemma serve_miss:
  fixes d :: bool
  assumes "fst (a_request_lookup x v) = None"
  defines "v' \<equiv> a_serve x d v"
  shows "v_map v' = v_map v" and "v_moving v' = v_moving v" and "v_dirty v' = v_dirty v" and "v_map v (pio_key x) = None"
    and "set (v_work v') \<subseteq> insert (work_of (pio_key x)) (set (v_work v))"
  using assms(1)
  by (auto simp: v'_def a_serve_def a_request_lookup_def a_lookup_def a_insert_def a_request_def a_miss_def
      split: option.splits list.splits if_splits)

lemma contents_page:
  assumes "unat (cp :: u32) < 2 ^ 17" and "j < 32768"
  shows "contents v s path (unat cp * 32768 + j) = (case v_map v (path, cp) of
    Some b \<Rightarrow> ssd s (unat b * 32768 + j) | None \<Rightarrow> files s path (unat cp * 32768 + j))"
  unfolding contents_def page_byte [OF assms] ..

lemma all_bytes:
  assumes "\<And>(cp :: u32) i. unat cp < 2 ^ 17 \<Longrightarrow> i < 32768 \<Longrightarrow> f (unat cp * 32768 + i) = g (unat cp * 32768 + i)" and "j < 2 ^ 32"
  shows "f j = g j"
proof -
  have "f (unat (of_nat (j div 32768) :: u32) * 32768 + j mod 32768) = g (unat (of_nat (j div 32768) :: u32) * 32768 + j mod 32768)"
    by (rule assms(1)) (simp_all only: byte_page(1,2) [OF assms(2)] mod_less_divisor zero_less_numeral)
  then show ?thesis unfolding byte_page(3) [OF assms(2)] .
qed

text \<open>Where the bytes of a request lie: at \<open>o\<close> in the cache page, in the file and in every block.\<close>

lemma request_place:
  assumes "request_ok p" and "unat (pio_page_index (hd p)) < 2 ^ 20"
  obtains d where "unat (pio_page_index (hd p)) * 4096 = unat (snd (pio_key (hd p))) * 32768 + d"
    and "d + unat (pio_cnt (hd p)) * 4096 \<le> 32768" and "\<And>b. page_start b (pio_page_index (hd p)) = unat b * 32768 + d"
    and "unat (snd (pio_key (hd p))) < 2 ^ 17"
    and "optimizable (hd p) \<Longrightarrow> d = 0 \<and> unat (pio_cnt (hd p)) * 4096 = 32768"
proof
  let ?i = "pio_page_index (hd p)" and ?d = "unat (pio_page_index (hd p) AND 7) * 4096"
  have split: "unat ?i = unat (snd (pio_key (hd p))) * 8 + unat (?i AND 7)"
    by (simp add: pio_key_def page_split [of ?i])
  show "unat ?i * 4096 = unat (snd (pio_key (hd p))) * 32768 + ?d" by (simp add: split)
  have "unat (?i AND 7) + unat (pio_cnt (hd p)) \<le> 8" using assms(1) by (simp add: request_ok_def check_pio_law)
  then show "?d + unat (pio_cnt (hd p)) * 4096 \<le> 32768" by linarith
  show "page_start b ?i = unat b * 32768 + ?d" for b by (simp add: page_start_def)
  have "unat (snd (pio_key (hd p))) * 8 < 2 ^ 20" using assms(2) split by linarith
  then show "unat (snd (pio_key (hd p))) < 2 ^ 17" by simp
  show "?d = 0 \<and> unat (pio_cnt (hd p)) * 4096 = 32768" if "optimizable (hd p)"
    using that by (simp add: optimizable_def overwritable_def)
qed

lemma overlay_shift: "overlay f (a + d) xs (a + i) = overlay g (c + d) xs (c + i) \<longleftrightarrow>
    (d \<le> i \<and> i < d + length xs) \<or> f (a + i) = g (c + i)"
  by (auto simp: overlay_apply)

lemma hit_write_data:
  assumes "v_map v' = (v_map v)(k \<mapsto> b)" and "\<And>l c. l \<noteq> k \<Longrightarrow> v_map v l = Some c \<Longrightarrow> c \<noteq> b"
    and "v_map v k = Some b \<or> d = 0 \<and> length ys = 32768" and "d + length ys \<le> 32768" and "unat (snd k) < 2 ^ 17"
    and "j < 2 ^ 32"
  shows "contents v' (s\<lparr>ssd := overlay (ssd s) (unat b * 32768 + d) ys\<rparr>) path j =
    (if path = fst k then overlay (contents v s path) (unat (snd k) * 32768 + d) ys j else contents v s path j)"
proof (rule all_bytes [OF _ assms(6)])
  fix cp :: u32 and i
  let ?s = "s\<lparr>ssd := overlay (ssd s) (unat b * 32768 + d) ys\<rparr>"
  assume cp: "unat cp < 2 ^ 17" and i: "i < (32768 :: nat)"
  show "contents v' ?s path (unat cp * 32768 + i) = (if path = fst k
    then overlay (contents v s path) (unat (snd k) * 32768 + d) ys (unat cp * 32768 + i) else contents v s path (unat cp * 32768 + i))"
  proof (cases "(path, cp) = k")
    case True
    then have "overlay (ssd s) (unat b * 32768 + d) ys (unat b * 32768 + i) =
        overlay (contents v s path) (unat cp * 32768 + d) ys (unat cp * 32768 + i)"
      using assms(3) i unfolding overlay_shift by (auto simp: contents_page [OF cp i])
    then show ?thesis using True by (auto simp: contents_page [OF cp i] assms(1))
  next
    case False
    then have same: "contents v' ?s path (unat cp * 32768 + i) = contents v s path (unat cp * 32768 + i)"
      using assms(2) overlay_other_page [of "unat b" "unat b * 32768 + d" ys _ i] assms(4) i
      by (auto simp: contents_page [OF cp i] assms(1) word_unat_eq_iff split: option.splits)
    moreover have "unat cp \<noteq> unat (snd k)" if "path = fst k"
      using False that by (cases k) (auto simp: word_unat_eq_iff)
    ultimately show ?thesis
      using overlay_other_page [of "unat (snd k)" "unat (snd k) * 32768 + d" ys "unat cp" i] assms(4) i by auto
  qed
qed

lemma miss_write_data:
  assumes "v_map v' = v_map v" and "v_map v k = None" and "d + length ys \<le> 32768" and "unat (snd k) < 2 ^ 17" and "j < 2 ^ 32"
  shows "contents v' (s\<lparr>fds := e, files := (files s)(fst k := overlay (files s (fst k)) (unat (snd k) * 32768 + d) ys)\<rparr>) path j =
    (if path = fst k then overlay (contents v s path) (unat (snd k) * 32768 + d) ys j else contents v s path j)"
proof (rule all_bytes [OF _ assms(5)])
  fix cp :: u32 and i
  let ?s = "s\<lparr>fds := e, files := (files s)(fst k := overlay (files s (fst k)) (unat (snd k) * 32768 + d) ys)\<rparr>"
  assume cp: "unat cp < 2 ^ 17" and i: "i < (32768 :: nat)"
  show "contents v' ?s path (unat cp * 32768 + i) = (if path = fst k
    then overlay (contents v s path) (unat (snd k) * 32768 + d) ys (unat cp * 32768 + i) else contents v s path (unat cp * 32768 + i))"
  proof (cases "(path, cp) = k")
    case True
    then show ?thesis using assms(2) by (auto simp: contents_page [OF cp i] assms(1) overlay_apply)
  next
    case False
    then have "unat cp \<noteq> unat (snd k)" if "path = fst k"
      using that by (cases k) (auto simp: word_unat_eq_iff)
    then show ?thesis
      using overlay_other_page [of "unat (snd k)" "unat (snd k) * 32768 + d" ys "unat cp" i] assms(3) i
      by (auto simp: contents_page [OF cp i] assms(1) split: option.splits)
  qed
qed

lemma clean_agree_cong:
  assumes "v_map v' = v_map v" and "set (v_dirty v') = set (v_dirty v)" and "ssd s' = ssd s" and "files s' = files s"
  shows "clean_agree v' s' = clean_agree v s" and "contents v' s' = contents v s"
proof -
  show "clean_agree v' s' = clean_agree v s" by (simp only: clean_agree_def assms)
  show "contents v' s' = contents v s" by (intro ext) (simp only: contents_def assms)
qed

lemma hit_write_agree:
  assumes "clean_agree v s" and "v_map v' = (v_map v)(k \<mapsto> b)" and "set (v_dirty v') = insert b (set (v_dirty v))"
    and "d + length ys \<le> 32768"
  shows "clean_agree v' (s\<lparr>ssd := overlay (ssd s) (unat b * 32768 + d) ys\<rparr>)"
  unfolding clean_agree_def
proof (intro allI impI)
  fix l x and j :: nat
  assume l: "v_map v' l = Some x" "x \<notin> set (v_dirty v')" "j < 32768"
  have old: "x \<noteq> b" "x \<notin> set (v_dirty v)" using l(2) by (simp_all add: assms(3))
  then have "l \<noteq> k" using l(1) by (auto simp: assms(2))
  then have map: "v_map v l = Some x" using l(1) by (simp add: assms(2))
  have x: "unat x \<noteq> unat b" using old(1) by (simp add: word_unat_eq_iff)
  have "overlay (ssd s) (unat b * 32768 + d) ys (unat x * 32768 + j) = ssd s (unat x * 32768 + j)"
    by (rule overlay_other_page [OF _ _ x l(3)]) (use assms(4) in simp_all)
  moreover have "ssd s (unat x * 32768 + j) = files s (fst l) (unat (snd l) * 32768 + j)"
    using assms(1) map old(2) l(3) unfolding clean_agree_def by blast
  ultimately show "ssd (s\<lparr>ssd := overlay (ssd s) (unat b * 32768 + d) ys\<rparr>) (unat x * 32768 + j) =
      files (s\<lparr>ssd := overlay (ssd s) (unat b * 32768 + d) ys\<rparr>) (fst l) (unat (snd l) * 32768 + j)"
    by simp
qed

text \<open>A file that changes inside one page agrees with the clean blocks of all other pages.\<close>

lemma file_write_agree:
  assumes "clean_agree v s" and "d + length ys \<le> 32768"
    and "\<And>l x. v_map v' l = Some x \<Longrightarrow> x \<notin> set (v_dirty v') \<Longrightarrow> l \<noteq> k \<Longrightarrow> v_map v l = Some x \<and> x \<notin> set (v_dirty v)"
    and "\<And>x j. v_map v' k = Some x \<Longrightarrow> j < 32768 \<Longrightarrow>
      ssd s (unat x * 32768 + j) = overlay (files s (fst k)) (unat (snd k) * 32768 + d) ys (unat (snd k) * 32768 + j)"
  shows "clean_agree v' (s\<lparr>fds := e, files := (files s)(fst k := overlay (files s (fst k)) (unat (snd k) * 32768 + d) ys)\<rparr>)"
  unfolding clean_agree_def
proof (intro allI impI)
  fix l x and j :: nat
  let ?s = "s\<lparr>fds := e, files := (files s)(fst k := overlay (files s (fst k)) (unat (snd k) * 32768 + d) ys)\<rparr>"
  assume l: "v_map v' l = Some x" "x \<notin> set (v_dirty v')" "j < 32768"
  show "ssd ?s (unat x * 32768 + j) = files ?s (fst l) (unat (snd l) * 32768 + j)"
  proof (cases "l = k")
    case True
    then show ?thesis using assms(4) l(1,3) by simp
  next
    case False
    then have "unat (snd l) \<noteq> unat (snd k)" if "fst l = fst k"
      using that by (cases l; cases k) (auto simp: word_unat_eq_iff)
    then have "files ?s (fst l) (unat (snd l) * 32768 + j) = files s (fst l) (unat (snd l) * 32768 + j)"
      using overlay_other_page [of "unat (snd k)" "unat (snd k) * 32768 + d" ys "unat (snd l)" j] assms(2) l(3) by auto
    then show ?thesis using assms(1,3) l False by (simp add: clean_agree_def)
  qed
qed

subsection \<open>The reference: plain files\<close>

record plain =
  p_mem :: "addr \<Rightarrow> byte"
  p_data :: "cstring \<Rightarrow> nat \<Rightarrow> byte"

text \<open>A request moves bytes between its buffers and its file, and that is all.\<close>

definition plain_request :: "pio \<Rightarrow> plain \<Rightarrow> plain" where
  "plain_request p r = (let f = pio_path (hd p); off = unat (pio_page_index (hd p)) * 4096; A = request_addrs p in
     if pio_operation (hd p) = READ then r\<lparr>p_mem := fill A (map (p_data r f) [off..<off + length A]) (p_mem r)\<rparr>
     else r\<lparr>p_data := (p_data r)(f := overlay (p_data r f) off (map (p_mem r) A))\<rparr>)"

text \<open>What the cache stands for: memory outside the worker's buffer, and files below 4 GiB.\<close>

definition plain_of :: "addr \<Rightarrow> cache_view \<Rightarrow> storage \<Rightarrow> plain" where
  "plain_of dma v s = \<lparr>p_mem = (\<lambda>a. if a \<in> set (addrs dma 32768) then 0 else ram s a),
     p_data = (\<lambda>f j. if j < 2 ^ 32 then contents v s f j else 0)\<rparr>"

definition request_fits :: "addr \<Rightarrow> pio \<Rightarrow> bool" where
  "request_fits dma p \<longleftrightarrow> request_ok p \<and> pio_operation (hd p) \<in> {READ, WRITE} \<and> pio_fd (hd p) = 0 \<and>
     length (pio_path (hd p)) < MAX_PATH_SIZE \<and> unat (pio_page_index (hd p)) < 2 ^ 20 \<and>
     set (request_addrs p) \<inter> set (addrs dma 32768) = {}"

lemma fill_masked:
  assumes "set as \<inter> D = {}"
  shows "(\<lambda>a. if a \<in> D then z else fill as xs r a) = fill as xs (\<lambda>a. if a \<in> D then z else r a)"
  using assms
proof (induction as arbitrary: xs r)
  case (Cons b as)
  have step: "fill (b # as) (x # ys) q = fill as ys (q(b := x))" for x ys q by (simp add: fill_def)
  show ?case
  proof (cases xs)
    case xs: (Cons x xs')
    have "(\<lambda>a. if a \<in> D then z else (r(b := x)) a) = (\<lambda>a. if a \<in> D then z else r a)(b := x)"
      using Cons.prems by (auto simp: fun_eq_iff)
    then show ?thesis unfolding xs step using Cons.IH [of xs' "r(b := x)"] Cons.prems by simp
  next
    case Nil
    have none: "fill (b # as) [] q = q" for q by (simp add: fill_def)
    show ?thesis unfolding Nil none ..
  qed
next
  case Nil
  have none: "fill [] xs q = q" for q by (simp add: fill_def)
  show ?case unfolding none ..
qed

lemma plain_read:
  assumes "set A \<inter> set (addrs dma 32768) = {}" and "off + length A \<le> 2 ^ 32"
    and "xs = map (contents v s f) [off..<off + length A]" and "contents v' s' = contents v s" and "ram s' = fill A xs (ram s)"
  shows "plain_of dma v' s' = (plain_of dma v s)\<lparr>p_mem :=
    fill A (map (p_data (plain_of dma v s) f) [off..<off + length A]) (p_mem (plain_of dma v s))\<rparr>"
proof -
  have xs: "map (p_data (plain_of dma v s) f) [off..<off + length A] = xs"
    using assms(2) by (simp add: assms(3) plain_of_def)
  have mem: "p_mem (plain_of dma v' s') = fill A xs (p_mem (plain_of dma v s))"
    unfolding plain_of_def plain.select_convs assms(5) by (rule fill_masked [OF assms(1)])
  have "p_data (plain_of dma v' s') = p_data (plain_of dma v s)"
    unfolding plain_of_def plain.select_convs assms(4) ..
  then show ?thesis unfolding xs by (intro plain.equality) (simp_all add: mem)
qed

lemma plain_write:
  assumes "set A \<inter> set (addrs dma 32768) = {}" and "off + length A \<le> 2 ^ 32" and "ram s' = ram s"
    and "\<And>g j. j < 2 ^ 32 \<Longrightarrow> contents v' s' g j =
      (if g = f then overlay (contents v s f) off (map (ram s) A) j else contents v s g j)"
  shows "plain_of dma v' s' = (plain_of dma v s)\<lparr>p_data := (p_data (plain_of dma v s))(f :=
    overlay (p_data (plain_of dma v s) f) off (map (p_mem (plain_of dma v s)) A))\<rparr>"
proof -
  have "map (p_mem (plain_of dma v s)) A = map (ram s) A"
    using assms(1) by (auto simp: plain_of_def)
  then show ?thesis
    using assms(2-4) by (auto simp: plain_of_def fun_eq_iff overlay_apply)
qed

text \<open>One request: the cache stays coherent, and does to what it stands for what the reference does.\<close>

lemma request_settled:
  assumes "map_inv {} m" and "settled (view_of m)" and "length (pio_path x) < MAX_PATH_SIZE"
    and "unat (snd (pio_key x)) < 2 ^ 17"
  shows "settled (a_serve x True (view_of m))"
proof (cases "fst (a_request_lookup x (view_of m))")
  case None
  note miss = serve_miss(1-3,5) [where d = True, OF None]
  have "unat (work_index (work_of (pio_key x))) < 2 ^ 17" using assms(4) by (simp add: work_of_def)
  then show ?thesis
    using serve_change [OF assms(1) less_imp_le [OF assms(3)], of Idle True] serve_short [OF assms(3), of _ True] assms(2) miss unfolding settled_def by auto
next
  case (Some b)
  have "\<And>b. v_map (view_of m) (pio_key x) = Some b \<Longrightarrow> v_key (view_of m) b \<noteq> None"
    using injective_law [OF assms(1)] by auto
  note hit = serve_hit [OF Some _ this]
  then show ?thesis
    using serve_change [OF assms(1) less_imp_le [OF assms(3)], of Idle True] serve_short [OF assms(3), of _ True] assms(2,4) hit unfolding settled_def
    by (auto simp del: split_paired_All)
qed

lemma request_hit_step:
  assumes "map_inv {} m" and "map_inv {} m'" and "settled (view_of m)" and "clean_agree (view_of m) s" and "request_fits dma p"
    and "fst (a_request_lookup (hd p) (view_of m)) = Some b" and "view_of m' = a_serve (hd p) True (view_of m)"
    and "s' = (let st = page_start b (pio_page_index (hd p)); A = request_addrs p in
      if pio_operation (hd p) = READ then s\<lparr>ram := fill A (map (ssd s) [st..<st + length A]) (ram s)\<rparr>
      else s\<lparr>ssd := overlay (ssd s) st (map (ram s) A)\<rparr>)"
  shows "clean_agree (view_of m') s' \<and> plain_of dma (view_of m') s' = plain_request p (plain_of dma (view_of m) s)"
proof -
  let ?v = "view_of m" and ?v' = "view_of m'" and ?k = "pio_key (hd p)" and ?A = "request_addrs p"
  note fits = assms(5) [unfolded request_fits_def]
  have ok: "request_ok p" and page: "unat (pio_page_index (hd p)) < 2 ^ 20"
    and apart: "set ?A \<inter> set (addrs dma 32768) = {}" using fits by simp_all
  obtain d where d: "unat (pio_page_index (hd p)) * 4096 = unat (snd ?k) * 32768 + d"
      "d + length ?A \<le> 32768" "\<And>b. page_start b (pio_page_index (hd p)) = unat b * 32768 + d"
      "unat (snd ?k) < 2 ^ 17" "optimizable (hd p) \<Longrightarrow> d = 0 \<and> length ?A = 32768"
    using request_place [OF ok page] unfolding length_request_addrs [OF ok] by metis
  have below: "unat (pio_page_index (hd p)) * 4096 + length ?A \<le> 2 ^ 32"
    using d(1,2,4) by simp
  have key: "fst ?k = pio_path (hd p)" by (simp add: pio_key_def)
  have known: "\<And>b. v_map ?v ?k = Some b \<Longrightarrow> v_key ?v b \<noteq> None" using injective_law [OF assms(1)] by auto
  have "\<forall>y. v_moving ?v y = None" using assms(3) by (simp add: settled_def)
  note hit = serve_hit [OF assms(6) this known, folded assms(7)]
  show ?thesis
  proof (cases "pio_operation (hd p) = READ")
    case True
    then have mapped: "v_map ?v ?k = Some b" using hit(5) by (auto simp: optimizable_def)
    then have same: "v_map ?v' = v_map ?v" "set (v_dirty ?v') = set (v_dirty ?v)"
      using hit(1,4) True by (auto simp: fun_eq_iff)
    let ?st = "unat b * 32768 + d"
    have s': "s' = s\<lparr>ram := fill ?A (map (ssd s) [?st..<?st + length ?A]) (ram s)\<rparr>"
      unfolding assms(8) Let_def d(3) using True by simp
    have bytes: "map (ssd s) [?st..<?st + length ?A] =
        map (contents ?v s (pio_path (hd p))) [unat (pio_page_index (hd p)) * 4096..<unat (pio_page_index (hd p)) * 4096 + length ?A]"
    proof (rule nth_equalityI)
      fix i
      assume "i < length (map (ssd s) [?st..<?st + length ?A])"
      then have i: "i < length ?A" by simp
      then have "d + i < 32768" using d(2) by simp
      then have "contents ?v s (pio_path (hd p)) (unat (snd ?k) * 32768 + (d + i)) = ssd s (unat b * 32768 + (d + i))"
        using contents_page [OF d(4)] mapped by (simp add: pio_key_def)
      then show "map (ssd s) [?st..<?st + length ?A] ! i = map (contents ?v s (pio_path (hd p)))
          [unat (pio_page_index (hd p)) * 4096..<unat (pio_page_index (hd p)) * 4096 + length ?A] ! i"
        using i by (simp add: d(1) add.assoc)
    qed simp
    have "contents ?v' s' = contents ?v s" "clean_agree ?v' s' = clean_agree ?v s"
      using clean_agree_cong [OF same, of s' s] by (simp_all add: s')
    moreover have "plain_of dma ?v' s' = plain_request p (plain_of dma ?v s)"
      using plain_read [OF apart below bytes calculation(1)] True by (simp add: s' plain_request_def Let_def)
    ultimately show ?thesis using assms(4) by simp
  next
    case False
    then have w: "pio_operation (hd p) = WRITE" using fits by auto
    have s': "s' = s\<lparr>ssd := overlay (ssd s) (unat b * 32768 + d) (map (ram s) ?A)\<rparr>"
      unfolding assms(8) Let_def d(3) using False by simp
    have dirty: "set (v_dirty ?v') = insert b (set (v_dirty ?v))" using hit(4) w by simp
    have others: "c \<noteq> b" if "l \<noteq> ?k" "v_map ?v l = Some c" for l c
      using keys_apart [OF assms(2), of l b ?k] hit(1) that by auto
    have cont: "contents ?v' s' g j = (if g = pio_path (hd p)
        then overlay (contents ?v s (pio_path (hd p))) (unat (pio_page_index (hd p)) * 4096) (map (ram s) ?A) j
        else contents ?v s g j)" if "j < 2 ^ 32" for g j
    proof -
      have "contents ?v' s' g j = (if g = fst ?k
          then overlay (contents ?v s g) (unat (snd ?k) * 32768 + d) (map (ram s) ?A) j else contents ?v s g j)"
        unfolding s' by (rule hit_write_data [OF hit(1) _ _ _ d(4) that]) (use others hit(5) d(2,5) in auto)
      then show ?thesis by (simp add: key d(1))
    qed
    have len: "d + length (map (ram s) ?A) \<le> 32768" using d(2) by simp
    have "clean_agree ?v' s'"
      unfolding s' by (rule hit_write_agree [OF assms(4) hit(1) dirty len])
    moreover have "plain_of dma ?v' s' = plain_request p (plain_of dma ?v s)"
      using plain_write [OF apart below _ cont] False by (simp add: s' plain_request_def Let_def)
    ultimately show ?thesis by blast
  qed
qed

lemma request_miss_step:
  assumes "settled (view_of m)" and "clean_agree (view_of m) s" and "request_fits dma p"
    and "fst (a_request_lookup (hd p) (view_of m)) = None" and "view_of m' = a_serve (hd p) True (view_of m)"
    and "s' = (let off = unat (pio_page_index (hd p)) * 4096; A = request_addrs p; f = pio_path (hd p) in
      if pio_operation (hd p) = READ then s\<lparr>fds := e, ram := fill A (map (files s f) [off..<off + length A]) (ram s)\<rparr>
      else s\<lparr>fds := e, files := (files s)(f := overlay (files s f) off (map (ram s) A))\<rparr>)"
  shows "clean_agree (view_of m') s' \<and> plain_of dma (view_of m') s' = plain_request p (plain_of dma (view_of m) s)"
proof -
  let ?v = "view_of m" and ?v' = "view_of m'" and ?k = "pio_key (hd p)" and ?A = "request_addrs p"
  note fits = assms(3) [unfolded request_fits_def]
  have ok: "request_ok p" and page: "unat (pio_page_index (hd p)) < 2 ^ 20"
    and apart: "set ?A \<inter> set (addrs dma 32768) = {}" using fits by simp_all
  obtain d where d: "unat (pio_page_index (hd p)) * 4096 = unat (snd ?k) * 32768 + d"
      "d + length ?A \<le> 32768" "unat (snd ?k) < 2 ^ 17"
    using request_place [OF ok page] unfolding length_request_addrs [OF ok] by metis
  have below: "unat (pio_page_index (hd p)) * 4096 + length ?A \<le> 2 ^ 32"
    using d by simp
  have key: "fst ?k = pio_path (hd p)" by (simp add: pio_key_def)
  note miss = serve_miss(1-3) [where d = True, OF assms(4), folded assms(5)]
  have unmapped: "v_map ?v ?k = None" by (rule serve_miss(4) [OF assms(4)])
  have len: "d + length (map (ram s) ?A) \<le> 32768" using d(2) by simp
  show ?thesis
  proof (cases "pio_operation (hd p) = READ")
    case True
    let ?off = "unat (pio_page_index (hd p)) * 4096"
    have s': "s' = s\<lparr>fds := e, ram := fill ?A (map (files s (pio_path (hd p))) [?off..<?off + length ?A]) (ram s)\<rparr>"
      unfolding assms(6) Let_def using True by simp
    have bytes: "map (files s (pio_path (hd p))) [?off..<?off + length ?A] = map (contents ?v s (pio_path (hd p))) [?off..<?off + length ?A]"
    proof (rule nth_equalityI)
      fix i
      assume "i < length (map (files s (pio_path (hd p))) [?off..<?off + length ?A])"
      then have i: "i < length ?A" by simp
      then have "d + i < 32768" using d(2) by simp
      then have "contents ?v s (pio_path (hd p)) (unat (snd ?k) * 32768 + (d + i)) =
          files s (pio_path (hd p)) (unat (snd ?k) * 32768 + (d + i))"
        using contents_page [OF d(3)] unmapped by (simp add: pio_key_def)
      then show "map (files s (pio_path (hd p))) [?off..<?off + length ?A] ! i =
          map (contents ?v s (pio_path (hd p))) [?off..<?off + length ?A] ! i"
        using i by (simp add: d(1) add.assoc)
    qed simp
    have "contents ?v' s' = contents ?v s" "clean_agree ?v' s' = clean_agree ?v s"
      using clean_agree_cong [of ?v' ?v s' s] miss by (simp_all add: s')
    moreover have "plain_of dma ?v' s' = plain_request p (plain_of dma ?v s)"
      using plain_read [OF apart below bytes calculation(1)] True by (simp add: s' plain_request_def Let_def)
    ultimately show ?thesis using assms(2) by simp
  next
    case False
    have s': "s' = s\<lparr>fds := e, files := (files s)(fst ?k := overlay (files s (fst ?k)) (unat (snd ?k) * 32768 + d) (map (ram s) ?A))\<rparr>"
      unfolding assms(6) Let_def d(1) key using False by simp
    have cont: "contents ?v' s' g j = (if g = pio_path (hd p)
        then overlay (contents ?v s (pio_path (hd p))) (unat (pio_page_index (hd p)) * 4096) (map (ram s) ?A) j
        else contents ?v s g j)" if "j < 2 ^ 32" for g j
      using miss_write_data [OF miss(1) unmapped len d(3) that, of s e g] by (simp add: s' key d(1))
    have "clean_agree ?v' s'"
      unfolding s' by (rule file_write_agree [OF assms(2) len]) (simp_all add: miss unmapped)
    moreover have "plain_of dma ?v' s' = plain_request p (plain_of dma ?v s)"
      using plain_write [OF apart below _ cont] False by (simp add: s' plain_request_def Let_def)
    ultimately show ?thesis by blast
  qed
qed

lemma request_step:
  assumes "answers S" and "obeys bs S V" and "reliable S" and "coherent bs c (V w)" and "request_fits dma p"
  shows "\<exists>rc c' w' cs'. submit_to_target (logged S) c p (w, cs) = Some (rc, c', (w', cs')) \<and> coherent bs c' (V w') \<and>
    plain_of dma (view_of (cache_map c')) (V w') = plain_request p (plain_of dma (view_of (cache_map c)) (V w))"
proof -
  note co = assms(4) [unfolded coherent_def]
  note fits = assms(5) [unfolded request_fits_def]
  have inv: "map_inv {} (cache_map c)" and geo: "cache_geometry c" and pb: "page_bytes bs c"
    and set: "settled (view_of (cache_map c))" and agree: "clean_agree (view_of (cache_map c)) (V w)"
    using co by simp_all
  have ok: "request_ok p" and op: "pio_operation (hd p) \<noteq> DISCARD" and fd: "pio_fd (hd p) = 0"
    and page: "unat (pio_page_index (hd p)) < 2 ^ 20" and path: "length (pio_path (hd p)) < MAX_PATH_SIZE"
    using fits by auto
  obtain rc m' w' cs' where r: "submit_to_target (logged S) c p (w, cs) = Some (rc, c\<lparr>cache_map := m'\<rparr>, (w', cs @ cs'))"
      "map_inv {} m'" "view_of m' = a_serve (hd p) (rc = 0) (view_of (cache_map c))"
    using submit_law [OF assms(1) geo inv ok op, of w cs] by blast
  note eff = request_effect [OF obeys_logged [OF assms(2)] reliable_logged [OF assms(3)] geo pb inv ok op fd r(1),
      folded length_request_addrs [OF ok], unfolded page_offset [OF page] comp_def fst_conv]
  have key: "unat (snd (pio_key (hd p))) < 2 ^ 17" using request_place [OF ok page] by metis
  have view: "view_of m' = a_serve (hd p) True (view_of (cache_map c))"
  proof (cases "fst (a_request_lookup (hd p) (view_of (cache_map c)))")
    case None
    then show ?thesis by (simp add: r(3) a_serve_def case_prod_beta)
  next
    case (Some b)
    then show ?thesis using eff r(3) by simp
  qed
  have step: "clean_agree (view_of m') (V w') \<and>
      plain_of dma (view_of m') (V w') = plain_request p (plain_of dma (view_of (cache_map c)) (V w))"
  proof (cases "fst (a_request_lookup (hd p) (view_of (cache_map c)))")
    case None
    from eff [unfolded None option.case] obtain e where "V w' = (let off = unat (pio_page_index (hd p)) * 4096; A = request_addrs p; f = pio_path (hd p) in
      if pio_operation (hd p) = READ then (V w)\<lparr>fds := e, ram := fill A (map (files (V w) f) [off..<off + length A]) (ram (V w))\<rparr>
      else (V w)\<lparr>fds := e, files := (files (V w))(f := overlay (files (V w) f) off (map (ram (V w)) A))\<rparr>)"
      unfolding Let_def by blast
    from request_miss_step [OF set agree assms(5) None view this] show ?thesis .
  next
    case (Some b)
    have "V w' = (let st = page_start b (pio_page_index (hd p)); A = request_addrs p in
      if pio_operation (hd p) = READ then (V w)\<lparr>ram := fill A (map (ssd (V w)) [st..<st + length A]) (ram (V w))\<rparr>
      else (V w)\<lparr>ssd := overlay (ssd (V w)) st (map (ram (V w)) A)\<rparr>)"
      using eff [unfolded Some option.case] unfolding Let_def by blast
    from request_hit_step [OF inv r(2) set agree assms(5) Some view this] show ?thesis .
  qed
  have "settled (view_of m')" unfolding view by (rule request_settled [OF inv set path key])
  moreover have "v_shift (view_of m') = v_shift (view_of (cache_map c))" by (simp only: view a_serve_shift)
  ultimately have "coherent bs (c\<lparr>cache_map := m'\<rparr>) (V w')"
    using r(2) geo pb step by (simp add: coherent_def cache_geometry_def page_bytes_def view_shift)
  then show ?thesis using r(1) step by (intro exI [of _ rc] exI [of _ "c\<lparr>cache_map := m'\<rparr>"]) auto
qed

subsection \<open>Rounds of the worker\<close>

lemma settled_key: "settled v \<Longrightarrow> v_map v k = Some x \<Longrightarrow> unat (snd k) < 2 ^ 17"
  unfolding settled_def by (metis option.distinct(1))

lemma storage_parts:
  "ssd s' = ssd t \<Longrightarrow> files s' = files t \<Longrightarrow> contents v s' = contents v t \<and> clean_agree v s' = clean_agree v t"
  by (rule conjI; rule clean_agree_cong) simp_all

lemma plain_same:
  assumes "\<And>a. a \<notin> set (addrs dma 32768) \<Longrightarrow> ram s' a = ram s a"
    and "\<And>g j. j < 2 ^ 32 \<Longrightarrow> contents v' s' g j = contents v s g j"
  shows "plain_of dma v' s' = plain_of dma v s"
  using assms by (auto simp: plain_of_def fun_eq_iff)

text \<open>A promotion gives the block the bytes of the file; the other blocks keep theirs.\<close>

lemma promotion_step:
  assumes "a_promote_start k v = Some (x, v1)" and "v' = a_promote_end x True v1" and "settled v" and "clean_agree v s"
    and "v_map v k = None" and "unat (snd k) < 2 ^ 17" and "\<forall>l c. l \<noteq> k \<longrightarrow> v_map v l = Some c \<longrightarrow> c \<noteq> x"
    and "ssd s' = overlay (ssd s) (unat x * 32768) (loaded 32768 (files s (fst k)) (snd k) r dma)" and "files s' = files s"
  shows "\<forall>y. v_moving v' y = None" and "\<forall>l. v_map v' l \<noteq> None \<longrightarrow> unat (snd l) < 2 ^ 17" and "clean_agree v' s'"
    and "j < 2 ^ 32 \<Longrightarrow> contents v' s' g j = contents v s g j"
proof -
  let ?ys = "loaded 32768 (files s (fst k)) (snd k) r dma"
  let ?t = "s\<lparr>ssd := overlay (ssd s) (unat x * 32768 + 0) ?ys\<rparr>"
  have map: "v_map v' = (v_map v)(k \<mapsto> x)" and moving: "\<forall>y. v_moving v' y = None" and dirty: "v_dirty v' = v_dirty v"
    using assms(1,3) unfolding assms(2)
    by (auto simp: a_promote_start_def a_promote_end_def a_settle_def enqueue_def settled_def split: list.splits)
  have ys: "length ?ys = 32768" "\<And>i. i < 32768 \<Longrightarrow> ?ys ! i = files s (fst k) (unat (snd k) * 32768 + i)"
    by (simp_all add: loaded_def file_offset_page [OF assms(6)])
  have parts: "contents v' s' = contents v' ?t" "clean_agree v' s' = clean_agree v' ?t"
    using storage_parts [of s' ?t v'] assms(8,9) by simp_all
  show "\<forall>y. v_moving v' y = None" by (rule moving)
  show "\<forall>l. v_map v' l \<noteq> None \<longrightarrow> unat (snd l) < 2 ^ 17" using assms(3,6) by (auto simp: map settled_def)
  show "clean_agree v' s'"
    unfolding parts unfolding clean_agree_def
  proof (intro allI impI)
    fix l y and i :: nat
    assume l: "v_map v' l = Some y" "y \<notin> set (v_dirty v')" "i < 32768"
    show "ssd ?t (unat y * 32768 + i) = files ?t (fst l) (unat (snd l) * 32768 + i)"
    proof (cases "l = k")
      case True
      then show ?thesis using l ys by (simp add: map overlay_apply)
    next
      case False
      then have old: "v_map v l = Some y" using l(1) by (simp add: map)
      have "y \<noteq> x" using assms(7) False old by blast
      then have "unat y \<noteq> unat x" by (simp add: word_unat_eq_iff)
      then have "ssd ?t (unat y * 32768 + i) = ssd s (unat y * 32768 + i)"
        using overlay_other_page [of "unat x" "unat x * 32768 + 0" ?ys "unat y" i] l(3) ys(1) by simp
      then show ?thesis using assms(4) old l(2,3) by (simp add: clean_agree_def dirty)
    qed
  qed
  show "contents v' s' g j = contents v s g j" if j: "j < 2 ^ 32"
  proof -
    have "contents v' ?t g j = (if g = fst k then overlay (contents v s g) (unat (snd k) * 32768 + 0) ?ys j else contents v s g j)"
      by (rule hit_write_data [OF map _ _ _ assms(6) j]) (use assms(7) ys(1) in auto)
    moreover have "overlay (contents v s (fst k)) (unat (snd k) * 32768 + 0) ?ys j = contents v s (fst k) j"
    proof (cases "unat (snd k) * 32768 \<le> j \<and> j < unat (snd k) * 32768 + 32768")
      case True
      then obtain i where i: "j = unat (snd k) * 32768 + i" "i < 32768"
        by (metis add_less_cancel_left le_Suc_ex)
      have "contents v s (fst k) j = files s (fst k) j"
        unfolding i(1) contents_page [OF assms(6) i(2)] using assms(5) by simp
      then show ?thesis using i ys by (simp add: overlay_apply)
    qed (auto simp: overlay_apply ys(1))
    ultimately show ?thesis by (simp add: parts)
  qed
qed

text \<open>A demotion drops a clean block: the file has its bytes.\<close>

lemma demotion_step:
  assumes "a_demote_start v = Some (x, v1)" and "v' = a_demote_end x True v1" and "settled v" and "clean_agree v s"
    and "v_map v k = Some x" and "v_key v x = Some k" and "x \<notin> set (v_dirty v)"
  shows "\<forall>y. v_moving v' y = None" and "\<forall>l. v_map v' l \<noteq> None \<longrightarrow> unat (snd l) < 2 ^ 17" and "clean_agree v' s"
    and "j < 2 ^ 32 \<Longrightarrow> contents v' s g j = contents v s g j"
proof -
  have map: "v_map v' = (v_map v)(k := None)" and moving: "\<forall>y. v_moving v' y = None" and dirty: "v_dirty v' = v_dirty v"
    using assms(1,3,6) unfolding assms(2)
    by (auto simp: a_demote_start_def a_demote_end_def a_drop_def settled_def split: list.splits if_splits)
  show "\<forall>y. v_moving v' y = None" by (rule moving)
  show "\<forall>l. v_map v' l \<noteq> None \<longrightarrow> unat (snd l) < 2 ^ 17" using assms(3) by (auto simp: map settled_def)
  show "clean_agree v' s" using assms(4) by (auto simp: clean_agree_def map dirty split: if_splits)
  have low: "unat (snd k) < 2 ^ 17" by (rule settled_key [OF assms(3,5)])
  show "contents v' s g j = contents v s g j" if "j < 2 ^ 32"
  proof (rule all_bytes [OF _ that])
    fix cp :: u32 and i
    assume cp: "unat cp < 2 ^ 17" and i: "i < (32768 :: nat)"
    show "contents v' s g (unat cp * 32768 + i) = contents v s g (unat cp * 32768 + i)"
      using assms(4,5,7) i by (auto simp: contents_page [OF cp i] map clean_agree_def)
  qed
qed

text \<open>A writeback gives the file the bytes of the block.\<close>

lemma writeback_data:
  assumes "a_writeback_start v = Some (x, v1)" and "v' = a_writeback_end x True v1" and "settled v" and "clean_agree v s"
    and "v_map v k = Some x"
    and "ssd s' = ssd s" and "files s' = (files s)(fst k := overlay (files s (fst k)) (unat (file_offset (snd k)))
      (map (ssd s) [unat x * 32768..<unat x * 32768 + 32768]))"
    and "\<forall>l c. l \<noteq> k \<longrightarrow> v_map v l = Some c \<longrightarrow> c \<noteq> x"
  shows "\<forall>y. v_moving v' y = None" and "\<forall>l. v_map v' l \<noteq> None \<longrightarrow> unat (snd l) < 2 ^ 17" and "clean_agree v' s'"
    and "j < 2 ^ 32 \<Longrightarrow> contents v' s' g j = contents v s g j"
proof -
  let ?ys = "map (ssd s) [unat x * 32768..<unat x * 32768 + 32768]"
  have low: "unat (snd k) < 2 ^ 17" by (rule settled_key [OF assms(3,5)])
  let ?t = "s\<lparr>fds := fds s, files := (files s)(fst k := overlay (files s (fst k)) (unat (snd k) * 32768 + 0) ?ys)\<rparr>"
  have parts: "contents v' s' = contents v' ?t" "clean_agree v' s' = clean_agree v' ?t"
    using storage_parts [of s' ?t v'] assms(6,7) file_offset_page [OF low] by simp_all
  have map: "v_map v' = v_map v" and moving: "\<forall>y. v_moving v' y = None" and dirty: "\<exists>D. v_dirty v = x # D \<and> v_dirty v' = D"
    using assms(1,3) unfolding assms(2)
    by (auto simp: a_writeback_start_def a_writeback_end_def a_settle_def enqueue_def settled_def split: list.splits)
  show "\<forall>y. v_moving v' y = None" by (rule moving)
  show "\<forall>l. v_map v' l \<noteq> None \<longrightarrow> unat (snd l) < 2 ^ 17" using assms(3) by (simp add: map settled_def)
  have len: "0 + length ?ys \<le> 32768" by simp
  show "clean_agree v' s'"
    unfolding parts
  proof (rule file_write_agree [OF assms(4) len])
    fix l y
    assume l: "v_map v' l = Some y" "y \<notin> set (v_dirty v')" "l \<noteq> k"
    then have "y \<noteq> x" using assms(8) unfolding map by blast
    then show "v_map v l = Some y \<and> y \<notin> set (v_dirty v)" using l(1,2) dirty by (auto simp: map)
  next
    fix y and i :: nat
    assume "v_map v' k = Some y" "i < 32768"
    then show "ssd s (unat y * 32768 + i) = overlay (files s (fst k)) (unat (snd k) * 32768 + 0) ?ys (unat (snd k) * 32768 + i)"
      using assms(5) by (simp add: map overlay_apply)
  qed
  show "contents v' s' g j = contents v s g j" if "j < 2 ^ 32"
    unfolding parts
  proof (rule all_bytes [OF _ that])
    fix cp :: u32 and i
    assume cp: "unat cp < 2 ^ 17" and i: "i < (32768 :: nat)"
    show "contents v' ?t g (unat cp * 32768 + i) = contents v s g (unat cp * 32768 + i)"
    proof (cases "(g, cp) = k")
      case True
      then show ?thesis using assms(5) by (auto simp: contents_page [OF cp i] map)
    next
      case False
      then have "unat cp \<noteq> unat (snd k)" if "g = fst k"
        using that by (cases k) (auto simp: word_unat_eq_iff)
      then show ?thesis
        using overlay_other_page [of "unat (snd k)" "unat (snd k) * 32768 + 0" ?ys "unat cp" i] i
        by (auto simp: contents_page [OF cp i] map split: option.splits)
    qed
  qed
qed

lemma free_block_apart:
  assumes "map_inv {} m" and "v_free (view_of m) = x # F" and "v_map (view_of m) l = Some c"
  shows "c \<noteq> x"
proof -
  obtain F' C D T where inv: "minv m F' C D T {}" using assms(1) by (auto elim: map_invE)
  have "\<not> is_alloc (ent m x)"
    using minv_flags(1) [OF inv] view_fields(2) [OF minv_core(1) [OF inv]] assms(2) by auto
  then have "v_key (view_of m) x = None" using view_fields(5) [OF minv_core(1) [OF inv]] by simp
  then show ?thesis using injective_law [OF assms(1), of l c] assms(3) by auto
qed

lemma clean_block_key:
  assumes "map_inv {} m" and "v_clean (view_of m) = x # C"
  shows "\<exists>k. v_map (view_of m) k = Some x \<and> v_key (view_of m) x = Some k" and "x \<notin> set (v_dirty (view_of m))"
proof -
  obtain F C' D T where inv: "minv m F C' D T {}" using assms(1) by (auto elim: map_invE)
  have "is_alloc (ent m x)"
    using minv_flags(2) [OF inv] view_fields(3) [OF minv_core(1) [OF inv]] assms(2) by auto
  then have key: "\<exists>k. v_key (view_of m) x = Some k" using view_fields(5) [OF minv_core(1) [OF inv]] by simp
  note part = partition_law [OF assms(1)]
  have "x \<in> set (v_free (view_of m) @ v_clean (view_of m) @ v_dirty (view_of m))" using assms(2) by simp
  then have "x < v_blocks (view_of m)" using part by blast
  with key show "\<exists>k. v_map (view_of m) k = Some x \<and> v_key (view_of m) x = Some k"
    using injective_law [OF assms(1)] by auto
  show "x \<notin> set (v_dirty (view_of m))" using part assms(2) by auto
qed

lemma dirty_block_mapped:
  assumes "map_inv {} m" and "x \<in> set (v_dirty (view_of m))" and "v_key (view_of m) x = Some k"
  shows "v_map (view_of m) k = Some x"
proof -
  have "x \<in> set (v_free (view_of m) @ v_clean (view_of m) @ v_dirty (view_of m))" using assms(2) by simp
  then have "x < v_blocks (view_of m)" using partition_law [OF assms(1)] by blast
  then show ?thesis using injective_law [OF assms(1)] assms(3) by simp
qed

lemma free_block_bound:
  assumes "map_inv {} m" and "v_free (view_of m) = x # F"
  shows "x < CACHE_BLOCK_NUMBER"
proof -
  obtain F' C D T where inv: "minv m F' C D T {}" using assms(1) by (auto elim: map_invE)
  then have "x \<in> set F'" using assms(2) view_fields(2) [OF minv_core(1) [OF inv]] by simp
  then show ?thesis using mcore_bound [OF minv_core(1) [OF inv]] by blast
qed

definition keeps_contents :: "addr \<Rightarrow> cache_view \<Rightarrow> storage \<Rightarrow> cache_view \<Rightarrow> storage \<Rightarrow> bool" where
  "keeps_contents dma v s v' s' \<longleftrightarrow> (\<forall>y. v_moving v' y = None) \<and> (\<forall>l. v_map v' l \<noteq> None \<longrightarrow> unat (snd l) < 2 ^ 17) \<and>
     clean_agree v' s' \<and> plain_of dma v' s' = plain_of dma v s"

lemma round_keeps:
  assumes "obeys bs S V" and "reliable S" and "trims_keep S V"
    and "map_inv {} m" and "geometry_ok m" and "block_bytes bs m" and "settled (view_of m)" and "clean_agree (view_of m) (V w)"
    and "length (fst k) \<le> MAX_PATH_SIZE" and "v_map (view_of m) k = None" and "unat (snd k) < 2 ^ 17"
    and "round_move S m dma (fst k) (snd k) w = Some (m', w')"
  shows "keeps_contents dma (view_of m) (V w) (view_of m') (V w')"
proof (cases "a_promote_start k (view_of m)")
  case (Some r)
  obtain x v1 where v1: "a_promote_start k (view_of m) = Some (x, v1)" using Some by (cases r) simp
  then obtain F where free: "v_free (view_of m) = x # F" by (auto simp: a_promote_start_def split: list.splits)
  obtain m1 where m1: "view_of m1 = v1" "completes (promotion_complete m1 x) (\<lambda>ok. a_promote_end x ok v1)"
      "round_move S m dma (fst k) (snd k) w =
        move_then (mg_start S m1 dma (Some (fst k)) (snd k) x PROMOTION) (promotion_complete m1 x) w"
    using round_promotes [OF assms(4,9,10) v1, of S dma w] by blast
  have shift: "v_shift (view_of m1) = v_shift (view_of m)" using a_start_simps(1) [OF v1] m1(1) by simp
  have geo: "geometry_ok m1" "block_bytes bs m1"
    using assms(5,6) cblock_view_cong(1) [OF shift] block_bytes_cong [OF shift] by simp_all
  obtain ok where ok: "mg_start S m1 dma (Some (fst k)) (snd k) x PROMOTION w = Some (ok, w')" "view_of m' = a_promote_end x ok v1"
    using move_then_inv [OF assms(12) [unfolded m1(3)] m1(2)] by blast
  have t: "ok = True" using reliable_moves(1) [OF assms(2) geo(1) ok(1)] by simp
  note bound = free_block_bound [OF assms(4) free]
  have eff: "files (V w') = files (V w)" "\<And>a. a \<notin> set (addrs dma 32768) \<Longrightarrow> ram (V w') a = ram (V w) a"
      "ssd (V w') = overlay (ssd (V w)) (unat x * 32768) (loaded 32768 (files (V w) (fst k)) (snd k) (ram (V w)) dma)"
    using promotion_effect [OF assms(1) geo bound ok(1) [unfolded t]] reliable_full [OF assms(2)] by auto
  have apart: "\<forall>l c. l \<noteq> k \<longrightarrow> v_map (view_of m) l = Some c \<longrightarrow> c \<noteq> x"
    using free_block_apart [OF assms(4) free] by blast
  note step = promotion_step [OF v1 ok(2) [unfolded t] assms(7,8,10,11) apart eff(3,1)]
  show ?thesis
    unfolding keeps_contents_def using step(1-3) plain_same [OF eff(2) step(4)] by blast
next
  case no_free: None
  show ?thesis
  proof (cases "a_demote_start (view_of m)")
    case (Some r)
    obtain x v1 where v1: "a_demote_start (view_of m) = Some (x, v1)" using Some by (cases r) simp
    then obtain C where clean: "v_clean (view_of m) = x # C" by (auto simp: a_demote_start_def split: list.splits if_splits)
    obtain l where l: "v_map (view_of m) l = Some x" "v_key (view_of m) x = Some l"
      using clean_block_key(1) [OF assms(4) clean] by blast
    obtain m1 where m1: "view_of m1 = v1" "completes (demotion_complete m1 x) (\<lambda>ok. a_demote_end x ok v1)"
        "round_move S m dma (fst k) (snd k) w = move_then (mg_start S m1 0 None 0 x DEMOTION) (demotion_complete m1 x) w"
      using round_demotes [OF assms(4,9) no_free v1, of S dma w] by blast
    have shift: "v_shift (view_of m1) = v_shift (view_of m)" using a_start_simps(2) [OF v1] m1(1) by simp
    have geo: "geometry_ok m1" using assms(5) cblock_view_cong(1) [OF shift] by simp
    obtain ok where ok: "mg_start S m1 0 None 0 x DEMOTION w = Some (ok, w')" "view_of m' = a_demote_end x ok v1"
      using move_then_inv [OF assms(12) [unfolded m1(3)] m1(2)] by blast
    have t: "ok = True" "V w' = V w"
      using ok(1) assms(3) by (auto simp: mg_start_eq(2) [OF geo] trim_spdk_def trims_keep_def)
    note step = demotion_step [OF v1 ok(2) [unfolded t(1)] assms(7,8) l clean_block_key(2) [OF assms(4) clean]]
    show ?thesis
      unfolding keeps_contents_def t(2) using step(1-3) plain_same [OF refl step(4)] by blast
  next
    case no_clean: None
    show ?thesis
    proof (cases "a_writeback_start (view_of m)")
      case (Some r)
      obtain x v1 where v1: "a_writeback_start (view_of m) = Some (x, v1)" using Some by (cases r) simp
      then have dirty: "x \<in> set (v_dirty (view_of m))" by (auto simp: a_writeback_start_def split: list.splits)
      obtain m1 l where m1: "view_of m1 = v1" "v_key (view_of m) x = Some l" "x < CACHE_BLOCK_NUMBER"
          "completes (writeback_complete m1 x) (\<lambda>ok. a_writeback_end x ok v1)"
          "round_move S m dma (fst k) (snd k) w =
            move_then (mg_start S m1 dma (Some (fst l)) (snd l) x WRITEBACK) (writeback_complete m1 x) w"
        using round_writes_back [OF assms(4,9) no_free no_clean v1, of S dma w] by blast
      have shift: "v_shift (view_of m1) = v_shift (view_of m)" using a_start_simps(3) [OF v1] m1(1) by simp
      have geo: "geometry_ok m1" "block_bytes bs m1"
        using assms(5,6) cblock_view_cong(1) [OF shift] block_bytes_cong [OF shift] by simp_all
      obtain ok where ok: "mg_start S m1 dma (Some (fst l)) (snd l) x WRITEBACK w = Some (ok, w')" "view_of m' = a_writeback_end x ok v1"
        using move_then_inv [OF assms(12) [unfolded m1(5)] m1(4)] by blast
      have t: "ok = True" using reliable_moves(2) [OF assms(2) geo(1) ok(1)] by simp
      have map: "v_map (view_of m) l = Some x" by (rule dirty_block_mapped [OF assms(4) dirty m1(2)])
      have apart: "\<forall>h c. h \<noteq> l \<longrightarrow> v_map (view_of m) h = Some c \<longrightarrow> c \<noteq> x"
        using keys_apart [OF assms(4) map] by metis
      have eff: "ssd (V w') = ssd (V w)" "\<And>a. a \<notin> set (addrs dma 32768) \<Longrightarrow> ram (V w') a = ram (V w) a"
          "files (V w') = (files (V w))(fst l := overlay (files (V w) (fst l)) (unat (file_offset (snd l)))
            (map (ssd (V w)) [unat x * 32768..<unat x * 32768 + 32768]))"
        using writeback_effect [OF assms(1) geo m1(3) ok(1) [unfolded t]] reliable_full [OF assms(2)] by auto
      note step = writeback_data [OF v1 ok(2) [unfolded t] assms(7,8) map eff(1,3) apart]
      show ?thesis
        unfolding keeps_contents_def using step(1-3) plain_same [OF eff(2) step(4)] by blast
    next
      case None
      have "m' = m \<and> w' = w" using round_idle [OF assms(4,9) no_free no_clean None, of S dma w] assms(12) by simp
      then show ?thesis using assms(7,8) by (simp add: keeps_contents_def settled_def)
    qed
  qed
qed

lemma view_wq:
  "v_map (view_of (m\<lparr>m_wq := q\<rparr>)) = v_map (view_of m)" "v_moving (view_of (m\<lparr>m_wq := q\<rparr>)) = v_moving (view_of m)"
  "v_dirty (view_of (m\<lparr>m_wq := q\<rparr>)) = v_dirty (view_of m)"
  by simp_all

lemma keeps_wq: "keeps_contents dma v s (view_of (m\<lparr>m_wq := q\<rparr>)) s' = keeps_contents dma v s (view_of m) s'"
proof -
  have "clean_agree (view_of (m\<lparr>m_wq := q\<rparr>)) s' = clean_agree (view_of m) s'" "contents (view_of (m\<lparr>m_wq := q\<rparr>)) s' = contents (view_of m) s'"
    by (rule clean_agree_cong; simp)+
  then show ?thesis unfolding keeps_contents_def plain_of_def view_wq by (simp only:)
qed

lemma migration_step:
  assumes "answers S" and "obeys bs S V" and "reliable S" and "trims_keep S V" and "coherent bs c (V w)"
  shows "\<exists>b m' w' cs'. do_migration_work (logged S) (cache_map c) dma (w, cs) = Some (b, m', (w', cs')) \<and>
    coherent bs (c\<lparr>cache_map := m'\<rparr>) (V w') \<and>
    plain_of dma (view_of m') (V w') = plain_of dma (view_of (cache_map c)) (V w)"
proof -
  let ?m = "cache_map c" and ?v = "view_of (cache_map c)"
  have inv: "map_inv {} ?m" and geo: "cache_geometry c" and pb: "page_bytes bs c" and set: "settled ?v"
    and agree: "clean_agree ?v (V w)" using assms(5) by (simp_all add: coherent_def)
  note bytes = block_bytes_geometry [OF geo pb]
  have idle: "view_inv Idle ?v" and short: "short_paths ?v" using set by (simp_all add: settled_def)
  obtain ok m' w' cs' where r: "do_migration_work (logged S) ?m dma (w, cs) = Some (fst (a_migrate ok ?v), m', (w', cs @ cs'))"
      "map_inv {} m'" "view_of m' = snd (a_migrate ok ?v)"
    using do_migration_law [OF assms(1) inv bytes(2) view_inv_head [OF idle short], of dma w cs] by blast
  have keep: "keeps_contents dma ?v (V w) (view_of m') (V w')"
  proof (cases "v_work ?v")
    case Nil
    then have "w' = w" "view_of m' = ?v"
      using r(1,3) peak_work_empty [OF map_inv_ready [OF inv]] by (auto simp: do_migration_work_def view_work a_migrate_def)
    then show ?thesis using set agree by (simp add: keeps_contents_def settled_def)
  next
    case (Cons wk ws)
    have wk: "length (work_path wk) < MAX_PATH_SIZE" "v_map ?v (key_of wk) = None" "unat (work_index wk) < 2 ^ 17"
      using set idle short Cons by (simp_all add: view_inv_def short_paths_def settled_def)
    have peak: "peak_work (m_wq ?m) MAX_PATH_SIZE [] 0 = Some (True, work_path wk, work_index wk, m_wq ?m)"
      using peak_work_front [OF map_inv_ready [OF inv]] Cons wk(1) by (simp add: view_work)
    note run = r(1) [unfolded do_migration_work_def peak, simplified]
    obtain m1 w1 where m1: "round_move (logged S) ?m dma (work_path wk) (work_index wk) (w, cs) = Some (m1, w1)"
      using run by (cases "round_move (logged S) ?m dma (work_path wk) (work_index wk) (w, cs)") auto
    obtain removed q where q: "remove_work (m_wq m1) = Some (removed, q)"
      using run by (cases "remove_work (m_wq m1)") (auto simp: m1)
    have fin: "w1 = (w', cs @ cs')" "m' = m1\<lparr>m_wq := q\<rparr>" using run by (simp_all add: m1 q)
    have path: "length (fst (key_of wk)) \<le> MAX_PATH_SIZE" using wk(1) by (simp add: key_of_def)
    have k: "fst (key_of wk) = work_path wk" "snd (key_of wk) = work_index wk" by (simp_all add: key_of_def)
    have agree': "clean_agree ?v ((V \<circ> fst) (w, cs))" using agree by simp
    have "keeps_contents dma ?v ((V \<circ> fst) (w, cs)) (view_of m1) ((V \<circ> fst) (w', cs @ cs'))"
      using round_keeps [OF obeys_logged [OF assms(2)] reliable_logged [OF assms(3)] trims_keep_logged [OF assms(4)]
        inv bytes(2,1) set agree' path wk(2), unfolded k, OF wk(3) m1 [unfolded fin(1)]] .
    then show ?thesis unfolding fin(2) keeps_wq comp_def fst_conv .
  qed
  have "view_inv Idle (view_of m')" unfolding r(3) by (rule migrate_keeps_idle [OF idle])
  moreover have "short_paths (view_of m')" unfolding r(3) by (rule migrate_short [OF short])
  moreover have "v_work (view_of m') = tl (v_work ?v)" and shift: "v_shift (view_of m') = v_shift ?v"
    unfolding r(3) by (rule a_migrate_shift)+
  then have "\<forall>x \<in> set (v_work (view_of m')). unat (work_index x) < 2 ^ 17"
    using set by (cases "v_work ?v") (simp_all add: settled_def)
  ultimately have "settled (view_of m')" using keep unfolding keeps_contents_def settled_def by blast
  then have "coherent bs (c\<lparr>cache_map := m'\<rparr>) (V w')"
    using r(2) geo pb keep shift by (simp add: coherent_def keeps_contents_def cache_geometry_def page_bytes_def view_shift)
  moreover have "plain_of dma (view_of m') (V w') = plain_of dma ?v (V w)" using keep by (simp add: keeps_contents_def)
  ultimately show ?thesis using r(1) by blast
qed

subsection \<open>Properties\<close>

text \<open>Users' requests and rounds of the worker, one after the other.\<close>

datatype event = Request pio | Round

fun run_events :: "'w driver \<Rightarrow> addr \<Rightarrow> event list \<Rightarrow> cache \<Rightarrow> 'w \<Rightarrow> (cache \<times> 'w) option" where
  "run_events S dma [] c w = Some (c, w)"
| "run_events S dma (Request p # es) c w = do {
     (rc, c, w) \<leftarrow> submit_to_target S c p w;
     run_events S dma es c w
   }"
| "run_events S dma (Round # es) c w = do {
     (worked, m, w) \<leftarrow> do_migration_work S (cache_map c) dma w;
     run_events S dma es (c\<lparr>cache_map := m\<rparr>) w
   }"

fun plain_event :: "event \<Rightarrow> plain \<Rightarrow> plain" where
  "plain_event (Request p) r = plain_request p r"
| "plain_event Round r = r"

text \<open>
  C3: a cache that is coherent at first behaves like plain files without a cache, whatever reads
  and writes users submit one after the other, with rounds of the worker anywhere between them: every
  call returns, the cache stays coherent, and memory and files, seen through the cache, are what the
  same requests make of them when each goes straight to its file and the worker does nothing. For
  well-formed requests that name their file by a path shorter than 32 characters (\<open>pio_fd\<close> is 0), pages below 4 GiB
  and buffers apart from the worker's; for a device and files that accept every command and transfer
  every byte asked for (so that cache pages end inside their files), and whose deallocated blocks keep
  their data (the worker deallocates the wrong ones).
\<close>

theorem cache_is_transparent:
  assumes "answers S" and "obeys bs S V" and "reliable S" and "trims_keep S V" and "coherent bs c (V w)"
    and "\<forall>p. Request p \<in> set es \<longrightarrow> request_fits dma p"
  shows "\<exists>c' w' cs'. run_events (logged S) dma es c (w, cs) = Some (c', (w', cs')) \<and> coherent bs c' (V w') \<and>
    plain_of dma (view_of (cache_map c')) (V w') = fold plain_event es (plain_of dma (view_of (cache_map c)) (V w))"
  using assms(5,6)
proof (induction es arbitrary: c w cs)
  case (Cons e es)
  obtain c1 w1 cs1 where 1: "run_events (logged S) dma (e # es) c (w, cs) = run_events (logged S) dma es c1 (w1, cs1)"
      "coherent bs c1 (V w1)"
      "plain_of dma (view_of (cache_map c1)) (V w1) = plain_event e (plain_of dma (view_of (cache_map c)) (V w))"
  proof (cases e)
    case (Request p)
    then have fits: "request_fits dma p" using Cons.prems(2) by simp
    obtain rc c' w' cs' where "submit_to_target (logged S) c p (w, cs) = Some (rc, c', (w', cs'))" "coherent bs c' (V w')"
        "plain_of dma (view_of (cache_map c')) (V w') = plain_request p (plain_of dma (view_of (cache_map c)) (V w))"
      using request_step [OF assms(1-3) Cons.prems(1) fits, of cs] by blast
    then show thesis using Request by (intro that [of c' w' cs']) simp_all
  next
    case Round
    obtain b m' w' cs' where "do_migration_work (logged S) (cache_map c) dma (w, cs) = Some (b, m', (w', cs'))"
        "coherent bs (c\<lparr>cache_map := m'\<rparr>) (V w')"
        "plain_of dma (view_of m') (V w') = plain_of dma (view_of (cache_map c)) (V w)"
      using migration_step [OF assms(1-4) Cons.prems(1), of dma cs] by blast
    then show thesis using Round by (intro that [of "c\<lparr>cache_map := m'\<rparr>" w' cs']) simp_all
  qed
  have "\<forall>p. Request p \<in> set es \<longrightarrow> request_fits dma p" using Cons.prems(2) by simp
  from Cons.IH [OF 1(2) this, of cs1] 1(1,3) show ?case by simp
qed (use assms in simp)

text \<open>A page of \<open>f\<close> is read, promoted, written, and read again into another buffer.\<close>

definition page_request :: "operate \<Rightarrow> addr \<Rightarrow> pio" where
  "page_request op buf = [(sample_page op 9 1)\<lparr>pio_fd := 0, pio_buffer := buf\<rparr>]"

lemma page_request_simps [simp]:
  "pio_operation (hd (page_request op buf)) = op" "pio_path (hd (page_request op buf)) = ''f''"
  "pio_page_index (hd (page_request op buf)) = 9" "pio_fd (hd (page_request op buf)) = 0"
  "request_addrs (page_request op buf) = addrs buf 4096"
  by (simp_all add: page_request_def request_addrs_def pio_vec_def page_vec_def addrs_def)

lemma one_page_ok: "request_ok (page_request op buf)"
  by (simp add: page_request_def request_ok_def check_pio_def consts_simps)

lemma addrs_range:
  assumes "x \<in> set (addrs a n)" and "unat a + n \<le> 2 ^ 64"
  shows "unat a \<le> unat x \<and> unat x < unat a + n"
proof -
  obtain i where i: "x = a + of_nat i" "i < n" using assms(1) by (auto simp: addrs_def)
  have u: "unat (of_nat i :: addr) = i" using i(2) assms(2) by (simp add: unat_of_nat)
  have "unat x = unat a + i"
    unfolding i(1) using i(2) assms(2) by (subst unat_add_lem [THEN iffD1]) (simp_all add: u)
  then show ?thesis using i(2) by simp
qed

lemma addrs_apart:
  assumes "unat a + n \<le> unat b" and "unat b + k \<le> 2 ^ 64"
  shows "set (addrs a n) \<inter> set (addrs b k) = {}"
  using addrs_range [of _ a n] addrs_range [OF _ assms(2)] assms by fastforce

lemma empty_coherent: "coherent 512 small_cache sample_storage"
  by (simp add: coherent_def small_map_law small_cache_ok small_cache_bytes settled_def short_paths_def clean_agree_def view_inv_def empty_view_def)

theorem cache_is_transparent_witness:
  "\<exists>c' w' cs'. run_events (logged (disk_device 512)) 1048576
      [Request (page_request READ 4096), Round, Request (page_request WRITE 8193), Round, Request (page_request READ 65536)]
      small_cache ((sample_storage, idle_device), []) = Some (c', (w', cs')) \<and> ram (fst w') 65536 = 1"
proof -
  let ?es = "[Request (page_request READ 4096), Round, Request (page_request WRITE 8193), Round, Request (page_request READ 65536)]"
  let ?r = "plain_of 1048576 (view_of (cache_map small_cache)) sample_storage"
  have fits: "\<forall>p. Request p \<in> set ?es \<longrightarrow> request_fits 1048576 p"
    by (auto simp: request_fits_def one_page_ok consts_simps intro!: addrs_apart)
  have start: "coherent 512 small_cache (fst (sample_storage, idle_device))" by (simp add: empty_coherent)
  obtain c' w' cs' where run: "run_events (logged (disk_device 512)) 1048576 ?es small_cache ((sample_storage, idle_device), []) =
        Some (c', (w', cs'))"
      "plain_of 1048576 (view_of (cache_map c')) (fst w') = fold plain_event ?es ?r"
    using cache_is_transparent [OF disk_answers disk_obeys disk_reliable disk_trims_keep start fits, of "[]"] by auto
  have fill0: "fill (addrs a 4096) xs m a = xs ! 0" if "length xs = 4096" for a xs m
    using fill_apply(1) [of "addrs a 4096" xs 0 m] distinct_addrs [of 4096 a] that by (simp add: addrs_def)
  have far: "8193 \<notin> set (addrs (4096 :: addr) 4096)" "8193 \<notin> set (addrs (1048576 :: addr) 32768)" "65536 \<notin> set (addrs (1048576 :: addr) 32768)"
    using addrs_range [of 8193 4096 4096] addrs_range [of 8193 1048576 32768] addrs_range [of 65536 1048576 32768] by auto
  define r1 where "r1 = plain_request (page_request READ 4096) ?r"
  define r2 where "r2 = plain_request (page_request WRITE 8193) r1"
  have "p_mem r1 8193 = p_mem ?r 8193" using far(1) by (simp add: r1_def plain_request_def Let_def fill_other)
  also have "\<dots> = 1" using far(2) by (simp add: plain_of_def sample_storage_def)
  finally have one: "p_mem r1 8193 = 1" .
  have "p_data r2 ''f'' 36864 = p_mem r1 8193"
    by (simp add: r2_def plain_request_def Let_def overlay_apply) (simp add: addrs_def)
  moreover have "p_mem (plain_request (page_request READ 65536) r2) 65536 = p_data r2 ''f'' 36864"
    by (simp add: plain_request_def Let_def fill0)
  ultimately have "p_mem (fold plain_event ?es ?r) 65536 = 1" using one by (simp add: r1_def r2_def)
  then have "ram (fst w') 65536 = 1" using far(3) unfolding run(2) [symmetric] by (simp add: plain_of_def)
  with run(1) show ?thesis by blast
qed

end
