(* ===== verification/Device_Tests.thy ===== *)
theory Device_Tests
  imports Storage_Spec
begin

text \<open>
  The two programs of \<^verbatim>\<open>examples/3_spdk_rw.c\<close> and \<^verbatim>\<open>examples/4_spdk_iovec.c\<close>, which exercise
  the device layer alone: they fill buffers, write them, clear them, read them back and compare
  or print. What the processor does to memory is a record of two operations whose contract
  \<open>runs_on\<close> says that stores change the bytes they name and loads read them.
\<close>

subsection \<open>Loads and stores\<close>

record 'w cpu =
  stores :: "addr \<Rightarrow> byte list \<Rightarrow> 'w \<Rightarrow> 'w"
  loads :: "addr \<Rightarrow> 'w \<Rightarrow> byte"

definition runs_on :: "'w cpu \<Rightarrow> ('w \<Rightarrow> storage) \<Rightarrow> bool" where
  "runs_on M V \<longleftrightarrow> (\<forall>a xs w. V (stores M a xs w) = (V w)\<lparr>ram := fill (addrs a (length xs)) xs (ram (V w))\<rparr>) \<and>
     (\<forall>a w. loads M a w = ram (V w) a)"

definition memset :: "'w cpu \<Rightarrow> addr \<Rightarrow> byte \<Rightarrow> nat \<Rightarrow> 'w \<Rightarrow> 'w" where
  "memset M a b n = stores M a (replicate n b)"

text \<open>
  The string at an address of a buffer with \<open>n\<close> bytes left: \<open>None\<close> when it has no terminating
  zero in the buffer.
\<close>

primrec load_string :: "'w cpu \<Rightarrow> nat \<Rightarrow> addr \<Rightarrow> 'w \<Rightarrow> byte list option" where
  "load_string M 0 a w = None"
| "load_string M (Suc n) a w =
     (if loads M a w = 0 then Some []
      else do { s \<leftarrow> load_string M n (a + 1) w; Some (loads M a w # s) })"

definition c_bytes :: "cstring \<Rightarrow> byte list" where
  "c_bytes s = map of_char s"

definition store_string :: "'w cpu \<Rightarrow> addr \<Rightarrow> byte list \<Rightarrow> 'w \<Rightarrow> 'w" where
  "store_string M a s = stores M a (s @ [0])"

subsection \<open>Write, clear, read, compare\<close>

definition ROUND :: nat where
  "ROUND = 1000"

definition MAX_LBA :: nat where
  "MAX_LBA = 100"

text \<open>One round, with the two results of \<open>rand\<close>; the return codes are not looked at.\<close>

definition test_round :: "'w driver \<Rightarrow> 'w cpu \<Rightarrow> addr \<Rightarrow> addr \<Rightarrow> queue_type \<Rightarrow> nat \<times> nat \<Rightarrow> 'w \<Rightarrow> (bool \<times> 'w) option" where
  "test_round S M buf tmp q = (\<lambda>(r1, r2) w. do {
     lba \<leftarrow> Some (of_nat (r1 mod MAX_LBA) :: u32);
     w \<leftarrow> Some (store_string M buf (c_bytes (decimal (r2 mod 1000000))) w);
     s \<leftarrow> load_string M (unat PAGE_SIZE) buf w;
     w \<leftarrow> Some (store_string M tmp s w);
     (_, w) \<leftarrow> write_spdk S buf (ucast lba) 8 q w;
     w \<leftarrow> Some (memset M buf 0 (unat PAGE_SIZE) w);
     (_, w) \<leftarrow> read_spdk S buf (ucast lba) 8 q w;
     (_, w) \<leftarrow> Some (trim_spdk S (ucast lba) 8 q w);
     s \<leftarrow> load_string M (unat PAGE_SIZE) buf w;
     t \<leftarrow> load_string M (unat PAGE_SIZE) tmp w;
     Some (s = t, w)
   })"

text \<open>The loop; \<open>False\<close> stands for \<open>exit(-1)\<close>.\<close>

primrec test_rounds :: "'w driver \<Rightarrow> 'w cpu \<Rightarrow> addr \<Rightarrow> addr \<Rightarrow> queue_type \<Rightarrow> (nat \<times> nat) list \<Rightarrow> 'w \<Rightarrow> (bool \<times> 'w) option" where
  "test_rounds S M buf tmp q [] w = Some (True, w)"
| "test_rounds S M buf tmp q (r # rs) w = do {
     (same, w) \<leftarrow> test_round S M buf tmp q r w;
     if same then test_rounds S M buf tmp q rs w else Some (False, w)
   }"

definition test_func :: "'w driver \<Rightarrow> 'w cpu \<Rightarrow> addr \<Rightarrow> addr \<Rightarrow> queue_type \<Rightarrow> (nat \<Rightarrow> nat \<times> nat) \<Rightarrow> 'w \<Rightarrow> (bool \<times> 'w) option" where
  "test_func S M buf tmp q rand w = test_rounds S M buf tmp q (map rand [0..<ROUND]) w"

subsection \<open>Vectors\<close>




subsection \<open>Transfers between lists of addresses\<close>

text \<open>What an accepted command does: \<open>puts\<close> copies bytes of memory to the device, \<open>gets\<close> back.\<close>

definition puts :: "nat \<Rightarrow> addr list \<Rightarrow> nat \<Rightarrow> storage \<Rightarrow> storage \<Rightarrow> bool" where
  "puts bs A off s s' \<longleftrightarrow> s' = s\<lparr>ssd := overlay (ssd s) (off * bs) (map (ram s) A)\<rparr>"

definition gets :: "nat \<Rightarrow> addr list \<Rightarrow> nat \<Rightarrow> storage \<Rightarrow> storage \<Rightarrow> bool" where
  "gets bs B off s s' \<longleftrightarrow> s' = s\<lparr>ram := fill B (map (ssd s) [off * bs..<off * bs + length B]) (ram s)\<rparr>"

lemma puts_gets:
  assumes "puts bs A off s s1" and "ssd s2 = ssd s1" and "gets bs B off s2 s3"
    and "length B = length A" and "distinct B"
  shows "i < length A \<Longrightarrow> ram s3 (B ! i) = ram s (A ! i)" and "a \<notin> set B \<Longrightarrow> ram s3 a = ram s2 a"
proof -
  let ?xs = "map (ssd s2) [off * bs..<off * bs + length B]"
  have r: "ram s3 = fill B ?xs (ram s2)" using assms(3) by (simp add: gets_def)
  note f = fill_apply [OF assms(5), of ?xs]
  show "a \<notin> set B \<Longrightarrow> ram s3 a = ram s2 a" using f(2) by (simp add: r)
  assume i: "i < length A"
  then have "ram s3 (B ! i) = ssd s1 (off * bs + i)"
    using f(1) [of i "ram s2"] assms(2,4) by (simp add: r)
  also have "\<dots> = ram s (A ! i)" using assms(1) i by (simp add: puts_def overlay_apply)
  finally show "ram s3 (B ! i) = ram s (A ! i)" .
qed

lemma gets_keeps: "gets bs B off s s' \<Longrightarrow> ssd s' = ssd s"
  by (simp add: gets_def)


lemma accepted_puts_gets:
  assumes "answers S" and "obeys bs S V" and "\<And>cmd w. awaited cmd \<noteq> None \<Longrightarrow> fst (submit S cmd w) = 0"
  shows "\<exists>w'. write_spdk S a off n q w = Some (0, w') \<and> puts bs (addrs a (unat n * bs)) (unat off) (V w) (V w')"
    and "\<exists>w'. read_spdk S a off n q w = Some (0, w') \<and> gets bs (addrs a (unat n * bs)) (unat off) (V w) (V w')"
proof -
  obtain w1 where w1: "write_spdk S a off n q w = Some (0, w1)"
    using accepted_transfer(2) [OF assms] by blast
  from transfer_performs(2) [OF assms(2) w1]
  have "puts bs (addrs a (unat n * bs)) (unat off) (V w) (V w1)" by (simp add: carried_def puts_def)
  with w1 show "\<exists>w'. write_spdk S a off n q w = Some (0, w') \<and> puts bs (addrs a (unat n * bs)) (unat off) (V w) (V w')"
    by blast
  obtain w2 where w2: "read_spdk S a off n q w = Some (0, w2)"
    using accepted_transfer(1) [OF assms] by blast
  from transfer_performs(1) [OF assms(2) w2]
  have "gets bs (addrs a (unat n * bs)) (unat off) (V w) (V w2)" by (simp add: carried_def gets_def add_mult_distrib)
  with w2 show "\<exists>w'. read_spdk S a off n q w = Some (0, w') \<and> gets bs (addrs a (unat n * bs)) (unat off) (V w) (V w')"
    by blast
qed


subsection \<open>Strings in memory\<close>

lemma load_string_cong:
  assumes "\<And>x. x \<in> set (addrs a n) \<Longrightarrow> loads M x w' = loads M x w"
  shows "load_string M n a w' = load_string M n a w"
  using assms
proof (induction n arbitrary: a)
  case (Suc n)
  have cons: "addrs a (Suc n) = a # addrs (a + 1) n"
    by (simp add: addrs_def upt_conv_Cons map_Suc_upt [symmetric] comp_def add.assoc del: upt_Suc)
  have "load_string M n (a + 1) w' = load_string M n (a + 1) w"
    using Suc.prems by (intro Suc.IH) (simp add: cons)
  then show ?case using Suc.prems [of a] by (simp add: cons)
qed simp

lemma load_string_law:
  assumes "\<And>j. j \<le> length s \<Longrightarrow> loads M (a + of_nat j) w = (s @ [0]) ! j" and "0 \<notin> set s" and "length s < n"
  shows "load_string M n a w = Some s"
  using assms
proof (induction s arbitrary: a n)
  case Nil
  from Nil.prems(1) [of 0] have "loads M a w = 0" by simp
  with Nil.prems(3) show ?case by (cases n) simp_all
next
  case (Cons b s)
  obtain k where n: "n = Suc k" using Cons.prems(3) by (cases n) simp_all
  have head: "loads M a w = b" using Cons.prems(1) [of 0] by simp
  have tail: "loads M (a + 1 + of_nat j) w = (s @ [0]) ! j" if "j \<le> length s" for j
    using Cons.prems(1) [of "Suc j"] that by (simp add: add.assoc)
  have "load_string M k (a + 1) w = Some s"
    by (rule Cons.IH [OF tail]) (use Cons.prems(2,3) n in auto)
  then show ?case using head Cons.prems(2) by (simp add: n)
qed

lemma stores_law:
  assumes "runs_on M V" and "length xs < 2 ^ 64"
  shows "j < length xs \<Longrightarrow> loads M (a + of_nat j) (stores M a xs w) = xs ! j"
    and "x \<notin> set (addrs a (length xs)) \<Longrightarrow> loads M x (stores M a xs w) = loads M x w"
    and "ssd (V (stores M a xs w)) = ssd (V w)"
proof -
  have v: "V (stores M a xs w) = (V w)\<lparr>ram := fill (addrs a (length xs)) xs (ram (V w))\<rparr>" and l: "loads M = (\<lambda>a w. ram (V w) a)"
    using assms(1) by (auto simp: runs_on_def fun_eq_iff)
  show "ssd (V (stores M a xs w)) = ssd (V w)" by (simp add: v)
  show "loads M (a + of_nat j) (stores M a xs w) = xs ! j" if "j < length xs"
    using fill_addrs [of j "length xs" "length xs" xs a] that assms(2) by (simp add: l v)
  show "loads M x (stores M a xs w) = loads M x w" if "x \<notin> set (addrs a (length xs))"
    using fill_apply(2) [OF distinct_addrs [OF assms(2)], of a xs x] that by (simp add: l v)
qed

lemma addrs_prefix: "k \<le> n \<Longrightarrow> set (addrs a k) \<subseteq> set (addrs a n)"
  by (auto simp: addrs_def)

lemma store_string_law:
  assumes "runs_on M V" and "0 \<notin> set s" and "length s < n" and "n < 2 ^ 64"
  shows "load_string M n a (store_string M a s w) = Some s"
    and "x \<notin> set (addrs a n) \<Longrightarrow> loads M x (store_string M a s w) = loads M x w"
    and "ssd (V (store_string M a s w)) = ssd (V w)"
proof -
  have len: "length (s @ [0]) < 2 ^ 64" using assms(3,4) by simp
  note st = stores_law [OF assms(1) len]
  show "load_string M n a (store_string M a s w) = Some s"
    by (rule load_string_law) (use assms(2,3) st(1) in \<open>simp_all add: store_string_def\<close>)
  show "ssd (V (store_string M a s w)) = ssd (V w)" by (simp add: store_string_def st(3))
  show "loads M x (store_string M a s w) = loads M x w" if "x \<notin> set (addrs a n)"
  proof -
    have "set (addrs a (length (s @ [0]))) \<subseteq> set (addrs a n)"
      using assms(3) by (intro addrs_prefix) simp
    with that have "x \<notin> set (addrs a (length (s @ [0])))" by blast
    from st(2) [OF this] show ?thesis unfolding store_string_def .
  qed
qed

lemma decimal_bytes:
  assumes "n < 1000000"
  shows "0 \<notin> set (c_bytes (decimal n))" and "length (c_bytes (decimal n)) < 4096"
proof -
  have "(of_char c :: byte) \<noteq> 0" if "c \<in> set (decimal n)" for c
  proof -
    let ?k = "of_char c :: nat"
    have "(of_char c :: byte) = of_nat ?k" by (simp only: of_nat_of_char)
    moreover have "unat (of_nat ?k :: byte) = ?k"
      using decimal_digits [OF that] by (simp add: unat_of_nat)
    ultimately show ?thesis using decimal_digits [OF that] by (intro notI) simp
  qed
  then show "0 \<notin> set (c_bytes (decimal n))" by (auto simp: c_bytes_def)
  have "length (decimal n) \<le> Suc 5" by (rule decimal_length) (use assms in simp)
  then show "length (c_bytes (decimal n)) < 4096" by (simp add: c_bytes_def)
qed

subsection \<open>One round\<close>

lemma memset_law:
  assumes "runs_on M V" and "n < 2 ^ 64"
  shows "x \<notin> set (addrs a n) \<Longrightarrow> loads M x (memset M a b n w) = loads M x w"
    and "ssd (V (memset M a b n w)) = ssd (V w)"
    and "j < n \<Longrightarrow> loads M (a + of_nat j) (memset M a b n w) = b"
  using stores_law [OF assms(1), of "replicate n b"] assms(2) by (simp_all add: memset_def)

lemma trim_keeps:
  assumes "obeys bs S V"
  shows "ram (V (snd (trim_spdk S off n q w))) = ram (V w)"
proof -
  have "performs bs (NsDeallocate q off n) (fst (trim_spdk S off n q w)) (V w) (V (snd (trim_spdk S off n q w)))"
    unfolding trim_spdk_def by (rule obeys_submit [OF assms]) simp
  then show ?thesis by auto
qed

lemma round_law:
  assumes "answers S" and "obeys 512 S V" and "\<And>cmd w. awaited cmd \<noteq> None \<Longrightarrow> fst (submit S cmd w) = 0"
    and "runs_on M V" and "distinct (addrs buf 4096 @ addrs tmp 4096)"
  shows "\<exists>w'. test_round S M buf tmp q (r1, r2) w = Some (True, w')"
proof -
  let ?s = "c_bytes (decimal (r2 mod 1000000))" and ?B = "addrs buf 4096" and ?T = "addrs tmp 4096"
    and ?lba = "ucast (of_nat (r1 mod MAX_LBA) :: u32) :: u64"
  have s: "0 \<notin> set ?s" "length ?s < 4096" using decimal_bytes [of "r2 mod 1000000"] by simp_all
  have disj: "set ?B \<inter> set ?T = {}" and dB: "distinct ?B" using assms(5) by auto
  have page: "unat PAGE_SIZE = 4096" by (simp add: consts_simps)
  have l: "loads M x v = ram (V v) x" for x v using assms(4) by (simp add: runs_on_def)
  note put = store_string_law [OF assms(4) s, simplified]
  define w1 where "w1 = store_string M buf ?s w"
  have 1: "load_string M 4096 buf w1 = Some ?s" unfolding w1_def by (rule put(1))
  define w2 where "w2 = store_string M tmp ?s w1"
  have t2: "load_string M 4096 tmp w2 = Some ?s" unfolding w2_def by (rule put(1))
  have b2: "loads M x w2 = loads M x w1" if "x \<in> set ?B" for x
    unfolding w2_def by (rule put(2)) (use that disj in blast)
  have 2: "load_string M 4096 buf w2 = Some ?s"
    using load_string_cong [of buf 4096 M w2 w1] b2 1 by simp
  have n: "unat (8 :: u32) * 512 = 4096" by simp
  obtain w3 where w3: "write_spdk S buf ?lba 8 q w2 = Some (0, w3)" "puts 512 ?B (unat ?lba) (V w2) (V w3)"
    using accepted_puts_gets(1) [OF assms(1-3), of buf ?lba 8 q w2] unfolding n by blast
  define w4 where "w4 = memset M buf 0 4096 w3"
  note clear = memset_law [OF assms(4), of 4096, simplified]
  obtain w5 where w5: "read_spdk S buf ?lba 8 q w4 = Some (0, w5)" "gets 512 ?B (unat ?lba) (V w4) (V w5)"
    using accepted_puts_gets(2) [OF assms(1-3), of buf ?lba 8 q w4] unfolding n by blast
  obtain rc w6 where w6: "trim_spdk S ?lba 8 q w5 = (rc, w6)" by (meson surj_pair)
  have r6: "ram (V w6) = ram (V w5)" using trim_keeps [OF assms(2), of ?lba 8 q w5] w6 by simp
  have same: "ssd (V w4) = ssd (V w3)" unfolding w4_def by (rule clear(2))
  note restored = puts_gets [OF w3(2) same w5(2) refl dB]
  have "loads M x w6 = loads M x w2" if "x \<in> set ?B" for x
    using that restored(1) by (auto simp: l r6 in_set_conv_nth)
  then have "load_string M 4096 buf w6 = load_string M 4096 buf w2" by (rule load_string_cong)
  moreover have "loads M x w6 = loads M x w2" if "x \<in> set ?T" for x
  proof -
    have out: "x \<notin> set ?B" using that disj by blast
    have "loads M x w6 = loads M x w4" using restored(2) [OF out] by (simp add: l r6)
    also have "\<dots> = loads M x w3" unfolding w4_def by (rule clear(1) [OF out])
    also have "\<dots> = loads M x w2" using w3(2) by (simp add: l puts_def)
    finally show ?thesis .
  qed
  then have "load_string M 4096 tmp w6 = load_string M 4096 tmp w2" by (rule load_string_cong)
  ultimately have "test_round S M buf tmp q (r1, r2) w = Some (True, w6)"
    using 1 2 t2 w3(1) w5(1) w6
    by (simp add: test_round_def page flip: w1_def w2_def w4_def)
  then show ?thesis by blast
qed

subsection \<open>Pages of buffers\<close>

definition span :: "addr list \<Rightarrow> addr list" where
  "span as = concat (map (\<lambda>a. addrs a 4096) as)"

lemma span_simps [simp]: "span [] = []" "span (a # as) = addrs a 4096 @ span as"
  by (simp_all add: span_def)

lemma length_span [simp]: "length (span as) = length as * 4096"
  by (induction as) simp_all









subsection \<open>Properties\<close>

text \<open>The processor of the sample storage.\<close>

definition plain_cpu :: "(storage \<times> 'd) cpu" where
  "plain_cpu = \<lparr>stores = (\<lambda>a xs (s, d). (s\<lparr>ram := fill (addrs a (length xs)) xs (ram s)\<rparr>, d)),
     loads = (\<lambda>a (s, d). ram s a)\<rparr>"

lemma plain_runs: "runs_on plain_cpu fst"
  by (auto simp: runs_on_def plain_cpu_def)

lemma distinct_areas:
  assumes "unat (b :: addr) = unat a + n" and "unat b + k \<le> 2 ^ 64"
  shows "distinct (addrs a n @ addrs b k)"
proof -
  have b64: "unat b < 2 ^ 64" using unsigned_less [of b, where 'a = nat] by simp
  have nk: "n < 2 ^ 64" "k < 2 ^ 64 \<or> unat b = 0" using assms b64 by auto
  have la: "unat (a + of_nat i) = unat a + i" if "i < n" for i
    using that assms b64 nk by (subst unat_add_lem [THEN iffD1]) (simp_all add: unat_of_nat)
  have lb: "unat (b + of_nat i) = unat b + i" if "i < k" for i
    using that assms b64 by (subst unat_add_lem [THEN iffD1]) (simp_all add: unat_of_nat)
  have "distinct (addrs a n)"
    by (auto simp: addrs_def distinct_map inj_on_def) (metis la add_left_cancel)
  moreover have "distinct (addrs b k)"
    by (auto simp: addrs_def distinct_map inj_on_def) (metis lb add_left_cancel)
  moreover have "set (addrs a n) \<inter> set (addrs b k) = {}"
  proof -
    have "a + of_nat i \<noteq> b + of_nat j" if "i < n" "j < k" for i j
      using la [OF that(1)] lb [OF that(2)] that assms(1) by (metis add.assoc add_cancel_right_right le_add1 nat_add_left_cancel_le not_le)
    then show ?thesis by (auto simp: addrs_def)
  qed
  ultimately show ?thesis by simp
qed

text \<open>
  C33: on a device with 512 byte blocks that accepts and answers its commands and carries out
  each of them when it is submitted, the trims included, the test program passes all its rounds:
  whatever numbers \<open>rand\<close> yields, the string that a round writes to eight blocks, clears from memory and
  reads back equals its copy. No round fails, runs past a buffer or hangs. The program needs this order
  but does not wait for its trims: late_trim_fails has a device that answers everything as well but
  carries a trim out later, and the test fails on it.
\<close>

theorem device_test_passes:
  assumes "answers S" and "obeys 512 S V" and "\<And>cmd w. awaited cmd \<noteq> None \<Longrightarrow> fst (submit S cmd w) = 0"
    and "runs_on M V" and "distinct (addrs buf 4096 @ addrs tmp 4096)"
  shows "\<exists>w'. test_func S M buf tmp q rand w = Some (True, w')"
proof -
  have "\<exists>w'. test_rounds S M buf tmp q rs w = Some (True, w')" for rs
  proof (induction rs arbitrary: w)
    case (Cons r rs)
    obtain w1 where "test_round S M buf tmp q r w = Some (True, w1)"
      using round_law [OF assms, of q "fst r" "snd r" w] by auto
    with Cons.IH [of w1] show ?case by simp
  qed simp
  then show ?thesis by (simp add: test_func_def)
qed

theorem device_test_passes_witness:
  "\<exists>w. test_func (disk_device 512) plain_cpu 4096 8192 IO_QUEUE (\<lambda>i. (i * 7, i * i)) (sample_storage, idle_device) = Some (True, w)"
proof -
  have "distinct (addrs 4096 4096 @ addrs 8192 4096)" by (rule distinct_areas) simp_all
  with disk_accepts show ?thesis
    by (rule device_test_passes [OF disk_answers disk_obeys _ plain_runs])
qed

text \<open>
  A device that carries out a trim only when the next read is submitted, with zeros in the trimmed
  bytes. Trims are answered like all other commands.
\<close>

definition trimmed :: "(nat \<times> nat) option \<Rightarrow> storage \<Rightarrow> storage" where
  "trimmed t s = (case t of None \<Rightarrow> s | Some (k, n) \<Rightarrow> s\<lparr>ssd := overlay (ssd s) k (replicate n 0)\<rparr>)"

fun late_io :: "io_cmd \<Rightarrow> storage \<times> (nat \<times> nat) option \<Rightarrow> int \<times> storage \<times> (nat \<times> nat) option" where
  "late_io (NsDeallocate q off n) (s, t) = (0, s, Some (unat off * 512, unat n * 512))"
| "late_io (NsRead q a off n) (s, t) = (let (rc, s) = disk_io 512 (NsRead q a off n) (trimmed t s) in (rc, s, None))"
| "late_io c (s, t) = (let (rc, s) = disk_io 512 c s in (rc, s, t))"

definition late_device :: "((storage \<times> (nat \<times> nat) option) \<times> (queue_type \<Rightarrow> callback list)) driver" where
  "late_device = \<lparr>
     submit = (\<lambda>c (st, w). (fst (late_io c st), (snd (late_io c st), snd (submit fifo_device c w)))),
     poll = (\<lambda>q (st, w). (fst (poll fifo_device q w), (st, snd (poll fifo_device q w))))\<rparr>"

definition late_cpu :: "((storage \<times> 't) \<times> 'd) cpu" where
  "late_cpu = \<lparr>stores = (\<lambda>a xs ((s, t), d). ((s\<lparr>ram := fill (addrs a (length xs)) xs (ram s)\<rparr>, t), d)),
     loads = (\<lambda>a ((s, t), d). ram s a)\<rparr>"

lemma late_simps [simp]:
  "submit late_device c (st, w) = (fst (late_io c st), (snd (late_io c st), snd (submit fifo_device c w)))"
  "poll late_device q (st, w) = (fst (poll fifo_device q w), (st, snd (poll fifo_device q w)))"
  by (simp_all add: late_device_def)

lemma late_runs: "runs_on late_cpu (fst \<circ> fst)"
  by (auto simp: runs_on_def late_cpu_def)

lemma late_stores: "snd (fst (stores late_cpu a xs w)) = snd (fst w)"
  by (cases w) (auto simp: late_cpu_def)

lemma late_completes: "completes_within late_device q cb n (s, w) = completes_within fifo_device q cb n w"
  by (induction n arbitrary: w) (simp_all add: case_prod_beta Let_def)

lemma late_answers: "answers late_device"
proof -
  have "fst (submit fifo_device c w) = 0" for c w by (simp add: fifo_device_def)
  with fifo_answers show ?thesis by (auto simp: answers_def late_completes)
qed

lemma late_polled: "polled late_device q w w' \<Longrightarrow> fst w' = fst w"
  by (induction rule: polled.induct) (metis fst_conv late_simps(2) prod.collapse snd_conv)+

lemma late_transfers:
  "\<exists>w'. write_spdk late_device a off n q w = Some (0, w') \<and> fst w' = snd (late_io (NsWrite q a off n) (fst w))"
  "\<exists>w'. read_spdk late_device a off n q w = Some (0, w') \<and> fst w' = snd (late_io (NsRead q a off n) (fst w))"
proof -
  have law: "fst (submit late_device c w) = 0 \<and> fst (snd (submit late_device c w)) = snd (late_io c (fst w)) \<and>
      (\<exists>w'. await late_device q IoComplete False (snd (submit late_device c w)) = Some w' \<and> fst w' = fst (snd (submit late_device c w)))"
    if c: "awaited c = Some (q, IoComplete)" "fst (late_io c (fst w)) = 0" for c
  proof -
    have 0: "fst (submit late_device c w) = 0" "fst (snd (submit late_device c w)) = snd (late_io c (fst w))"
      using c(2) by (cases w; simp)+
    from answers_await [OF late_answers c(1) 0(1)] obtain w' where w': "await late_device q IoComplete False (snd (submit late_device c w)) = Some w'"
      by blast
    with 0 late_polled [OF await_polled [OF w']] show ?thesis by blast
  qed
  have "awaited (NsWrite q a off n) = Some (q, IoComplete)" "fst (late_io (NsWrite q a off n) (fst w)) = 0"
    by (simp, cases "fst w", simp)
  from law [OF this] obtain w' where "fst (submit late_device (NsWrite q a off n) w) = 0"
      "await late_device q IoComplete False (snd (submit late_device (NsWrite q a off n) w)) = Some w'"
      "fst w' = snd (late_io (NsWrite q a off n) (fst w))" by metis
  then show "\<exists>w'. write_spdk late_device a off n q w = Some (0, w') \<and> fst w' = snd (late_io (NsWrite q a off n) (fst w))"
    by (intro exI [of _ w']) (simp add: write_spdk_def case_prod_beta)
  have "awaited (NsRead q a off n) = Some (q, IoComplete)" "fst (late_io (NsRead q a off n) (fst w)) = 0"
    by (simp, cases "fst w", simp)
  from law [OF this] obtain w' where "fst (submit late_device (NsRead q a off n) w) = 0"
      "await late_device q IoComplete False (snd (submit late_device (NsRead q a off n) w)) = Some w'"
      "fst w' = snd (late_io (NsRead q a off n) (fst w))" by metis
  then show "\<exists>w'. read_spdk late_device a off n q w = Some (0, w') \<and> fst w' = snd (late_io (NsRead q a off n) (fst w))"
    by (intro exI [of _ w']) (simp add: read_spdk_def case_prod_beta)
qed

lemma decimal_nonempty: "decimal n \<noteq> []"
  by (subst decimal.simps) simp

text \<open>A round whose blocks still have to be trimmed reads zeros.\<close>

lemma late_round:
  fixes w :: "(storage \<times> (nat \<times> nat) option) \<times> (queue_type \<Rightarrow> callback list)" and r1 r2 :: nat and buf tmp :: addr
  assumes "distinct (addrs buf 4096 @ addrs tmp 4096)"
    and "snd (fst w) \<in> {None, Some (unat (ucast (of_nat (r1 mod MAX_LBA) :: u32) :: u64) * 512, 4096)}"
  defines "lba \<equiv> ucast (of_nat (r1 mod MAX_LBA) :: u32) :: u64"
  shows "\<exists>b w'. test_round late_device late_cpu buf tmp q (r1, r2) w = Some (b, w') \<and>
    snd (fst w') = Some (unat lba * 512, 4096) \<and> (snd (fst w) = Some (unat lba * 512, 4096) \<longrightarrow> \<not> b)"
proof -
  let ?M = "late_cpu :: ((storage \<times> (nat \<times> nat) option) \<times> (queue_type \<Rightarrow> callback list)) cpu"
  let ?V = "\<lambda>w :: (storage \<times> (nat \<times> nat) option) \<times> (queue_type \<Rightarrow> callback list). fst (fst w)"
  let ?s = "c_bytes (decimal (r2 mod 1000000))" and ?B = "addrs buf 4096" and ?T = "addrs tmp 4096"
  have s: "0 \<notin> set ?s" "length ?s < 4096" "?s \<noteq> []"
    using decimal_bytes [of "r2 mod 1000000"] decimal_nonempty by (simp_all add: c_bytes_def)
  have disj: "set ?B \<inter> set ?T = {}" and dB: "distinct ?B" using assms(1) by auto
  have page: "unat PAGE_SIZE = 4096" by (simp add: consts_simps)
  have runs: "runs_on ?M ?V" using late_runs by (simp add: comp_def)
  have l: "loads ?M x v = ram (?V v) x" for x v by (cases v; cases "fst v") (simp add: late_cpu_def)
  note put = store_string_law [OF runs s(1,2), simplified]
  define w1 where "w1 = store_string ?M buf ?s w"
  have 1: "load_string ?M 4096 buf w1 = Some ?s" unfolding w1_def by (rule put(1))
  define w2 where "w2 = store_string ?M tmp ?s w1"
  have t2: "load_string ?M 4096 tmp w2 = Some ?s" unfolding w2_def by (rule put(1))
  obtain w3 where w3: "write_spdk late_device buf lba 8 q w2 = Some (0, w3)" "fst w3 = snd (late_io (NsWrite q buf lba 8) (fst w2))"
    using late_transfers(1) by blast
  define w4 where "w4 = memset ?M buf 0 4096 w3"
  note clear = memset_law [OF runs, of 4096, simplified]
  obtain w5 where w5: "read_spdk late_device buf lba 8 q w4 = Some (0, w5)" "fst w5 = snd (late_io (NsRead q buf lba 8) (fst w4))"
    using late_transfers(2) by blast
  obtain w6 where w6: "trim_spdk late_device lba 8 q w5 = (0, w6)" "fst w6 = (fst (fst w5), Some (unat lba * 512, 4096))"
    by (cases w5; cases "fst w5") (auto simp: trim_spdk_def)
  have "snd (fst w2) = snd (fst w)" by (simp add: w2_def w1_def store_string_def late_stores)
  then have "snd (fst w3) = snd (fst w)" using w3(2) by (cases "fst w2") simp
  then have pend: "snd (fst w4) = snd (fst w)" by (simp add: w4_def memset_def late_stores)
  have r6: "ram (?V w6) = fill ?B (map (ssd (trimmed (snd (fst w)) (?V w4))) [unat lba * 512..<(unat lba + 8) * 512]) (ram (?V w4))"
    using w5(2) w6(2) pend by (cases "fst w4") (simp add: trimmed_def split: option.splits)
  note f = fill_apply [OF dB, of "map (ssd (trimmed (snd (fst w)) (?V w4))) [unat lba * 512..<(unat lba + 8) * 512]"]
  have T: "loads ?M x w6 = loads ?M x w2" if "x \<in> set ?T" for x
  proof -
    have out: "x \<notin> set ?B" using that disj by blast
    have "loads ?M x w6 = loads ?M x w4" using f(2) [OF _ out] by (simp add: l r6)
    also have "\<dots> = loads ?M x w3" unfolding w4_def by (rule clear(1) [OF out])
    also have "\<dots> = loads ?M x w2" using w3(2) by (cases "fst w2") (simp add: l)
    finally show ?thesis .
  qed
  have t6: "load_string ?M 4096 tmp w6 = Some ?s" using load_string_cong [of tmp 4096 ?M w6 w2] T t2 by simp
  have b6: "load_string ?M 4096 buf w6 = Some []" if late: "snd (fst w) = Some (unat lba * 512, 4096)"
  proof -
    have "ram (?V w6) (?B ! 0) = 0" using f(1) [of 0 "ram (?V w4)"] by (simp add: r6 late trimmed_def overlay_apply)
    then have "loads ?M buf w6 = 0" by (simp add: l addrs_def)
    then show ?thesis by (simp add: numeral_eq_Suc)
  qed
  have run: "test_round late_device ?M buf tmp q (r1, r2) w = do {
      s \<leftarrow> load_string ?M 4096 buf w6; t \<leftarrow> load_string ?M 4096 tmp w6; Some (s = t, w6) }"
    using 1 w3(1) w5(1) w6(1) by (simp add: test_round_def page lba_def flip: w1_def w2_def w4_def)
  have b2: "loads ?M x w2 = loads ?M x w1" if "x \<in> set ?B" for x
    unfolding w2_def by (rule put(2)) (use that disj in blast)
  have n: "length [unat lba * 512..<(unat lba + 8) * 512] = 4096" by simp
  have fresh: "load_string ?M 4096 buf w6 = Some ?s" if none: "snd (fst w) = None"
  proof -
    have "loads ?M (?B ! i) w6 = loads ?M (?B ! i) w2" if i: "i < 4096" for i
    proof -
      have "loads ?M (?B ! i) w6 = ssd (?V w4) (unat lba * 512 + i)"
        using f(1) [of i "ram (?V w4)"] i by (simp add: l r6 none trimmed_def)
      also have "\<dots> = ssd (?V w3) (unat lba * 512 + i)" using clear(2) by (simp add: w4_def)
      also have "\<dots> = loads ?M (?B ! i) w2"
        using w3(2) i by (cases "fst w2") (simp add: l overlay_apply)
      finally show ?thesis .
    qed
    then have "loads ?M x w6 = loads ?M x w1" if "x \<in> set ?B" for x
      using that b2 [OF that] by (auto simp: in_set_conv_nth)
    then show ?thesis using load_string_cong [of buf 4096 ?M w6 w1] 1 by simp
  qed
  show ?thesis
  proof (cases "snd (fst w) = None")
    case True
    then show ?thesis using run fresh t6 w6(2) by (intro exI [of _ True] exI [of _ w6]) simp
  next
    case False
    with assms(2) have "snd (fst w) = Some (unat lba * 512, 4096)" by (simp add: lba_def)
    then show ?thesis using run b6 t6 w6(2) s(3) by (intro exI [of _ False] exI [of _ w6]) simp
  qed
qed

text \<open>Two rounds on the same blocks suffice.\<close>

theorem late_trim_fails:
  assumes "distinct (addrs buf 4096 @ addrs tmp 4096)" and "snd (fst w) = None"
  shows "answers late_device \<and> (\<exists>w'. test_func late_device late_cpu buf tmp q (\<lambda>i. (0, i)) w = Some (False, w'))"
proof
  show "answers late_device" by (rule late_answers)
  obtain b1 w1 where 1: "test_round late_device late_cpu buf tmp q (0, 0) w = Some (b1, w1)"
      "snd (fst w1) = Some (unat (ucast (of_nat (0 mod MAX_LBA) :: u32) :: u64) * 512, 4096)"
    using late_round [of buf tmp w 0 q 0] assms by auto
  obtain w2 where 2: "test_round late_device late_cpu buf tmp q (0, Suc 0) w1 = Some (False, w2)"
    using late_round [OF assms(1), of w1 0 q "Suc 0"] 1(2) by auto
  have "0 < ROUND" "Suc 0 < ROUND" by (simp_all add: ROUND_def)
  then have "[0..<ROUND] = 0 # 1 # [2..<ROUND]"
    by (simp add: upt_conv_Cons [of 0 ROUND] upt_conv_Cons [of "Suc 0" ROUND] numeral_2_eq_2 del: upt_Suc)
  then have rs: "map (\<lambda>i. (0 :: nat, i)) [0..<ROUND] = (0, 0) # (0, Suc 0) # map (\<lambda>i. (0, i)) [2..<ROUND]"
    by simp
  show "\<exists>w'. test_func late_device late_cpu buf tmp q (\<lambda>i. (0, i)) w = Some (False, w')"
    by (cases b1) (simp_all add: test_func_def rs 1(1) 2)
qed

theorem late_trim_fails_witness:
  "\<exists>w. test_func late_device late_cpu 4096 8192 IO_QUEUE (\<lambda>i. (0, i)) ((sample_storage, None), idle_device) = Some (False, w)"
proof -
  have "distinct (addrs 4096 4096 @ addrs 8192 4096)" by (rule distinct_areas) simp_all
  from late_trim_fails [OF this, of "((sample_storage, None), idle_device)" IO_QUEUE] show ?thesis by simp
qed



end
