(* ===== verification/Lifecycle.thy ===== *)
theory Lifecycle
  imports Worker
begin

text \<open>
  What the life cycle operations establish: initialisation builds a cache that satisfies the
  invariants the request path and the worker rely on, the user count counts, the
  administrator's wait ends when the users have left, and a pass of the worker reaches its
  cancellation point exactly when it found no work.
\<close>

subsection \<open>Geometry of the device\<close>

lemma unat_pow: "k < 32 \<Longrightarrow> unat ((2 :: u32) ^ k) = 2 ^ k"
proof -
  assume "k < 32"
  then have "(2 :: nat) ^ k < 2 ^ 32" by (rule power_strict_increasing) simp
  then show ?thesis using unat_of_nat_lt_len [of "2 ^ k"] by simp
qed

lemma LOG2_pow: "k < 32 \<Longrightarrow> LOG2 (2 ^ k) = int k"
proof (induction k)
  case 0
  then show ?case by (subst LOG2.simps) simp
next
  case (Suc k)
  have u: "unat ((2 :: u32) ^ Suc k) = 2 ^ Suc k"
    by (rule unat_pow [OF Suc.prems])
  have "drop_bit 1 ((2 :: u32) ^ Suc k) = 2 ^ k"
  proof (rule unsigned_word_eqI [where 'a = nat])
    have "unat ((2 :: u32) ^ k) = 2 ^ k"
      using Suc.prems by (intro unat_pow) simp
    then show "unat (drop_bit 1 ((2 :: u32) ^ Suc k)) = unat ((2 :: u32) ^ k)"
      using u by (simp add: drop_bit_eq_div unat_div)
  qed
  moreover have "(1 :: u32) < 2 ^ Suc k"
    unfolding word_less_nat_alt u using one_less_power [of "2 :: nat" "Suc k"] by simp
  ultimately show ?case
    using Suc by (subst LOG2.simps) simp
qed

lemma div_pow:
  assumes "k \<le> n" and "n < 32"
  shows "(2 :: u32) ^ n div 2 ^ k = 2 ^ (n - k)"
proof (rule unsigned_word_eqI [where 'a = nat])
  note u = unat_pow
  show "unat ((2 :: u32) ^ n div 2 ^ k) = unat ((2 :: u32) ^ (n - k))"
    using assms u [of n] u [of k] u [of "n - k"] by (simp add: unat_div power_diff)
qed

lemma shifts_pow:
  assumes "k \<le> 12"
  shows "of_int (LOG2 (CACHE_BLOCK_SIZE div 2 ^ k)) = (of_nat (15 - k) :: u32)"
    and "of_int (LOG2 (PAGE_SIZE div 2 ^ k)) = (of_nat (12 - k) :: u32)"
proof -
  have c: "CACHE_BLOCK_SIZE = 2 ^ 15" "PAGE_SIZE = 2 ^ 12"
    by (simp_all add: consts_simps)
  have "LOG2 (2 ^ 15 div 2 ^ k) = int (15 - k)" "LOG2 (2 ^ 12 div 2 ^ k) = int (12 - k)"
    using assms div_pow [of k 15] div_pow [of k 12] LOG2_pow [of "15 - k"] LOG2_pow [of "12 - k"]
    by simp_all
  then show "of_int (LOG2 (CACHE_BLOCK_SIZE div 2 ^ k)) = (of_nat (15 - k) :: u32)"
    "of_int (LOG2 (PAGE_SIZE div 2 ^ k)) = (of_nat (12 - k) :: u32)"
    unfolding c by (simp_all only: of_int_of_nat_eq)
qed

subsection \<open>Initialisation\<close>

definition usable_device :: "platform \<Rightarrow> nvme_ns \<Rightarrow> bool" where
  "usable_device E ns \<longleftrightarrow> env_init_rc E \<ge> 0 \<and> probe_rc E = 0 \<and>
     isfind (fold attach_cb (probed E) reset_ctrlr_and_ns) \<and>
     t_ns (fold attach_cb (probed E) reset_ctrlr_and_ns) = Some ns"

lemma init_spdk_usable:
  assumes "usable_device E ns"
  shows "init_spdk E t = (0, create_qpairs E (fold attach_cb (probed E) reset_ctrlr_and_ns))"
    and "get_device_info (snd (init_spdk E t)) bs ds = (ns_sector_size ns, ns_size ns)"
  using assms by (simp_all add: usable_device_def init_spdk_def get_device_info_def create_qpairs_def Let_def)

lemma zero_cache_map [simp]: "cache_map zero_cache = zero_mapping"
  by (simp add: zero_cache_def)

lemma build_cache_law:
  assumes "usable_device E ns" and "ns_sector_size ns = 2 ^ k" and "k \<le> 12" and "2 ^ 30 \<le> ns_size ns"
  shows "\<exists>c. build_cache E (snd (init_spdk E t)) zero_cache = Some (0, c) \<and>
    map_inv {} (cache_map c) \<and> cache_geometry c \<and> geometry_ok (cache_map c) \<and>
    view_of (cache_map c) = empty_view CACHE_BLOCK_NUMBER (of_nat (15 - k)) \<and>
    cache_state c = \<lparr>st_running = True, st_count = 0, st_lock = \<lparr>locked = 0\<rparr>\<rparr> \<and>
    mg_worker c = thread_id E"
proof -
  have ns: "ns_sector_size ns \<noteq> 0"
    using assms(2,3) by simp
  have n: "CACHE_BLOCK_NUMBER \<noteq> 0" by (simp add: consts_simps)
  obtain m where m: "init_mapping zero_mapping (ns_sector_size ns) CACHE_BLOCK_NUMBER = Some (0, m)" "map_inv {} m"
      "view_of m = empty_view CACHE_BLOCK_NUMBER (of_int (LOG2 (CACHE_BLOCK_SIZE div ns_sector_size ns)))"
    using init_mapping_law [OF ns n order_refl, of zero_mapping] zero_mapping_start by auto
  have shift: "block_per_cblock_shift m = of_nat (15 - k)"
    using m(3) assms(2) shifts_pow(1) [OF assms(3)] by (simp add: view_shift empty_view_def)
  define c where "c = zero_cache\<lparr>cache_dev := (cache_dev zero_cache)\<lparr>dev_block_size := ns_sector_size ns,
      dev_device_size := ns_size ns, dev_cache_block_num := CACHE_BLOCK_NUMBER,
      dev_block_per_cblock_shift := of_int (LOG2 (CACHE_BLOCK_SIZE div ns_sector_size ns)),
      dev_block_per_page_shift := of_int (LOG2 (PAGE_SIZE div ns_sector_size ns))\<rparr>,
    cache_map := m, mg_worker := thread_id E,
    cache_state := \<lparr>st_running = True, st_count = 0, st_lock = \<lparr>locked = 0\<rparr>\<rparr>\<rparr>"
  have size: "\<not> ns_size ns < ucast CACHE_BLOCK_NUMBER * ucast CACHE_BLOCK_SIZE"
    using assms(4) by (simp add: consts_simps not_less)
  have "build_device (snd (init_spdk E t)) zero_cache = Some (zero_cache\<lparr>cache_dev :=
      (cache_dev zero_cache)\<lparr>dev_block_size := ns_sector_size ns,
      dev_device_size := ns_size ns, dev_cache_block_num := CACHE_BLOCK_NUMBER,
      dev_block_per_cblock_shift := of_int (LOG2 (CACHE_BLOCK_SIZE div ns_sector_size ns)),
      dev_block_per_page_shift := of_int (LOG2 (PAGE_SIZE div ns_sector_size ns))\<rparr>\<rparr>)"
    using init_spdk_usable(2) [OF assms(1)] ns by (simp add: build_device_def)
  then have "build_cache E (snd (init_spdk E t)) zero_cache = Some (0, c)"
    using m(1) size by (simp add: build_cache_def c_def wakeup_mg_worker_def zero_cache_def spinlock_init_def)
  moreover have "dev_block_per_page_shift (cache_dev c) = of_nat (12 - k)"
    using assms(2) shifts_pow(2) [OF assms(3)] by (simp add: c_def)
  moreover have "(of_nat (15 - k) :: u32) = of_nat (12 - k) + 3"
  proof -
    have "15 - k = (12 - k) + 3" using assms(3) by simp
    then show ?thesis by (simp only: of_nat_add of_nat_numeral)
  qed
  moreover have "(of_nat (12 - k) :: u32) \<le> 12" "(of_nat (15 - k) :: u32) \<le> 15"
    by (simp_all add: word_le_nat_alt unat_of_nat_lt_len del: of_nat_diff)
  moreover have "cache_map c = m" "mg_worker c = thread_id E"
      "cache_state c = \<lparr>st_running = True, st_count = 0, st_lock = \<lparr>locked = 0\<rparr>\<rparr>"
    by (simp_all add: c_def)
  moreover have "view_of m = empty_view CACHE_BLOCK_NUMBER (of_nat (15 - k))"
    using m(3) assms(2) shifts_pow(1) [OF assms(3)] by simp
  ultimately show ?thesis
    using m(2) shift by (simp only: cache_geometry_def geometry_ok_def) simp
qed


definition built :: "platform \<Rightarrow> nat \<Rightarrow> cache \<Rightarrow> bool" where
  "built E k c \<longleftrightarrow> map_inv {} (cache_map c) \<and> cache_geometry c \<and> geometry_ok (cache_map c) \<and>
     view_of (cache_map c) = empty_view CACHE_BLOCK_NUMBER (of_nat (15 - k)) \<and>
     cache_state c = \<lparr>st_running = True, st_count = 0, st_lock = \<lparr>locked = 0\<rparr>\<rparr> \<and>
     mg_worker c = thread_id E"

definition shm_works :: "platform \<Rightarrow> bool" where
  "shm_works E \<longleftrightarrow> shm_open_ok E \<and> ftruncate_ok E \<and> mmap_ok E"

lemma init_law:
  assumes "shm_works E" and "usable_device E ns" and "ns_sector_size ns = 2 ^ k" and "k \<le> 12"
    and "2 ^ 30 \<le> ns_size ns" and "shm_name s = None"
  shows "\<exists>p' s'. init_ssd_cache E p s = Some (0, p', s') \<and> shared_cache p' = Some (shm_next s) \<and>
    shm_name s' = Some (shm_next s) \<and> built E k (shm_objs s' (shm_next s)) \<and>
    (\<forall>j. j \<noteq> shm_next s \<longrightarrow> shm_objs s' j = shm_objs s j)"
proof -
  obtain c where c: "build_cache E (snd (init_spdk E (proc_target p))) zero_cache = Some (0, c)" "built E k c"
    using build_cache_law [OF assms(2-5)] unfolding built_def by blast
  have run: "\<not> st_running (cache_state zero_cache)" by (simp add: zero_cache_def)
  obtain t where rc: "init_spdk E (proc_target p) = (0, t)"
    using init_spdk_usable(1) [OF assms(2)] by simp
  show ?thesis
    using assms(1,6) c run rc
    by (simp add: init_ssd_cache_def alloc_shm_def shm_works_def put_cache_def)
qed

lemma init_twice:
  assumes "shm_works E" and "shm_name s = Some i" and "st_running (cache_state (shm_objs s i))"
  shows "init_ssd_cache E p s = Some (1, p\<lparr>shared_cache := Some i\<rparr>, s)"
  using assms by (simp add: init_ssd_cache_def alloc_shm_def shm_works_def)

lemma build_cache_small:
  assumes "usable_device E ns" and "ns_sector_size ns \<noteq> 0" and "ns_size ns < 2 ^ 30"
  shows "\<exists>c'. build_cache E (snd (init_spdk E t)) c = Some (1, c') \<and> cache_state c' = cache_state c"
  using init_spdk_usable(2) [OF assms(1), of t] assms(2,3)
  by (simp add: build_cache_def build_device_def consts_simps)

subsection \<open>Users\<close>

lemma count_step_law:
  "locked (st_lock (cache_state c)) = 0 \<Longrightarrow> count_step f c =
     Some (c\<lparr>cache_state := (cache_state c)\<lparr>st_count := f (st_count (cache_state c))\<rparr>\<rparr>)"
  by (simp add: count_step_def spinlock_unlock_def)

lemma join_law:
  assumes "shm_works E" and "shm_name s = Some i" and "st_running (cache_state (shm_objs s i))"
    and "locked (st_lock (cache_state (shm_objs s i))) = 0" and "fst (init_spdk E (proc_target p)) = 0"
  shows "\<exists>p' s'. link_ssd_cache E p s = Some (0, p', s') \<and> shared_cache p' = Some i \<and>
    cache_state (shm_objs s' i) = (cache_state (shm_objs s i))\<lparr>st_count := st_count (cache_state (shm_objs s i)) + 1\<rparr> \<and>
    cache_map (shm_objs s' i) = cache_map (shm_objs s i) \<and> cache_dev (shm_objs s' i) = cache_dev (shm_objs s i) \<and>
    shm_name s' = Some i"
  using assms count_step_law [OF assms(4), of "\<lambda>n. n + 1"]
  by (auto simp: link_ssd_cache_def link_shm_def shm_works_def put_cache_def Let_def split: prod.splits)

lemma leave_law:
  assumes "munmap_ok E" and "shared_cache p = Some i" and "st_running (cache_state (shm_objs s i))"
    and "locked (st_lock (cache_state (shm_objs s i))) = 0"
  shows "\<exists>p' s'. unlink_ssd_cache E p s = Some (0, p', s') \<and> shared_cache p' = None \<and>
    cache_state (shm_objs s' i) = (cache_state (shm_objs s i))\<lparr>st_count := st_count (cache_state (shm_objs s i)) - 1\<rparr> \<and>
    cache_map (shm_objs s' i) = cache_map (shm_objs s i) \<and> cache_dev (shm_objs s' i) = cache_dev (shm_objs s i) \<and>
    shm_name s' = shm_name s"
  using assms count_step_law [OF assms(4), of "\<lambda>n. n - 1"]
  by (auto simp: unlink_ssd_cache_def unmap_shm_def put_cache_def Let_def)

subsection \<open>The administrator waits for the users\<close>

lemma exit_wait_step:
  assumes "locked (st_lock (cache_state c)) = 0"
  shows "exit_wait others c = (if st_count (cache_state c) = 0 then Some c else exit_wait others (others c))"
proof -
  have "c\<lparr>cache_state := (cache_state c)\<lparr>st_lock := spinlock_unlock ((st_lock (cache_state c))\<lparr>locked := 1\<rparr>)\<rparr>\<rparr> = c"
    using assms by simp
  with assms show ?thesis by (subst exit_wait.simps) simp
qed

lemma exit_wait_returns:
  assumes "\<And>i. locked (st_lock (cache_state ((others ^^ i) c))) = 0"
    and "st_count (cache_state ((others ^^ n) c)) = 0"
    and "\<And>i. i < n \<Longrightarrow> st_count (cache_state ((others ^^ i) c)) \<noteq> 0"
  shows "exit_wait others c = Some ((others ^^ n) c)"
  using assms
proof (induction n arbitrary: c)
  case 0
  then show ?case using exit_wait_step [of c others] "0.prems"(1) [of 0] by simp
next
  case (Suc n)
  have "exit_wait others (others c) = Some ((others ^^ n) (others c))"
  proof (rule Suc.IH)
    show "locked (st_lock (cache_state ((others ^^ i) (others c)))) = 0" for i
      using Suc.prems(1) [of "Suc i"] by (simp add: funpow_swap1)
    show "st_count (cache_state ((others ^^ n) (others c))) = 0"
      using Suc.prems(2) by (simp add: funpow_swap1)
    show "i < n \<Longrightarrow> st_count (cache_state ((others ^^ i) (others c))) \<noteq> 0" for i
      using Suc.prems(3) [of "Suc i"] by (simp add: funpow_swap1)
  qed
  moreover have "locked (st_lock (cache_state c)) = 0" "st_count (cache_state c) \<noteq> 0"
    using Suc.prems(1) [of 0] Suc.prems(3) [of 0] by simp_all
  ultimately show ?case using exit_wait_step [of c others] by (simp add: funpow_swap1)
qed

lemma exit_wait_only_if:
  assumes "exit_wait others c = Some c'"
  shows "(\<forall>i. locked (st_lock (cache_state ((others ^^ i) c))) = 0) \<longrightarrow>
    (\<exists>i. st_count (cache_state ((others ^^ i) c)) = 0)"
  using assms
proof (rule exit_wait.raw_induct [where P = "\<lambda>others c c'.
    (\<forall>i. locked (st_lock (cache_state ((others ^^ i) c))) = 0) \<longrightarrow>
    (\<exists>i. st_count (cache_state ((others ^^ i) c)) = 0)", rotated])
  fix f :: "(cache \<Rightarrow> cache) \<Rightarrow> cache \<Rightarrow> cache option" and others c c'
  assume IH: "\<And>others c c'. f others c = Some c' \<Longrightarrow>
      (\<forall>i. locked (st_lock (cache_state ((others ^^ i) c))) = 0) \<longrightarrow>
      (\<exists>i. st_count (cache_state ((others ^^ i) c)) = 0)"
    and eq: "do {
       l \<leftarrow> spinlock_lock (st_lock (cache_state c));
       c \<leftarrow> Some (c\<lparr>cache_state := (cache_state c)\<lparr>st_lock := l\<rparr>\<rparr>);
       if st_count (cache_state c) \<le> 0
       then Some (c\<lparr>cache_state := (cache_state c)\<lparr>st_lock := spinlock_unlock (st_lock (cache_state c))\<rparr>\<rparr>)
       else f others (others
         (c\<lparr>cache_state := (cache_state c)\<lparr>st_lock := spinlock_unlock (st_lock (cache_state c))\<rparr>\<rparr>))
     } = Some c'"
  show "(\<forall>i. locked (st_lock (cache_state ((others ^^ i) c))) = 0) \<longrightarrow>
      (\<exists>i. st_count (cache_state ((others ^^ i) c)) = 0)"
  proof (intro impI)
    assume free: "\<forall>i. locked (st_lock (cache_state ((others ^^ i) c))) = 0"
    show "\<exists>i. st_count (cache_state ((others ^^ i) c)) = 0"
    proof (cases "st_count (cache_state c) = 0")
      case True
      then show ?thesis by (intro exI [of _ 0]) simp
    next
      case False
      have "locked (st_lock (cache_state c)) = 0" using free [THEN spec, of 0] by simp
      with eq False have "f others (others c) = Some c'" by simp
      moreover have "\<forall>i. locked (st_lock (cache_state ((others ^^ i) (others c)))) = 0"
      proof
        fix i
        show "locked (st_lock (cache_state ((others ^^ i) (others c)))) = 0"
          using free [THEN spec, of "Suc i"] by (simp add: funpow_swap1)
      qed
      ultimately obtain i where "st_count (cache_state ((others ^^ i) (others c))) = 0"
        using IH by blast
      then show ?thesis by (intro exI [of _ "Suc i"]) (simp add: funpow_swap1)
    qed
  qed
qed

text \<open>With users left and nobody to leave, the wait never ends.\<close>

lemma exit_wait_stuck:
  assumes "\<And>i. locked (st_lock (cache_state ((others ^^ i) c))) = 0"
    and "\<And>i. st_count (cache_state ((others ^^ i) c)) \<noteq> 0"
  shows "exit_wait others c = None"
  using exit_wait_only_if [of others c] assms by (cases "exit_wait others c") auto

text \<open>The join ends when the worker has worked off its queue.\<close>

lemma shutdown_law:
  assumes "answers S" and "worker_ok (cache_map c)" and "polite 0 users"
  shows "\<exists>rc c' w'. shutdown_mg_worker (logged S) E users (Some c) w = Some (rc, Some c', w') \<and>
    worker_ok (cache_map c') \<and> cache_state c' = cache_state c \<and> cache_dev c' = cache_dev c \<and>
    (join_rc E = 0 \<and> mg_worker c \<noteq> 0 \<and> users = (\<lambda>n m. m) \<longrightarrow> (\<exists>oks. length oks = length (v_work (view_of (cache_map c))) \<and>
      view_of (cache_map c') = fold (\<lambda>ok v. snd (a_migrate ok v)) oks (view_of (cache_map c))))"
proof (cases "mg_worker c = 0 \<or> join_rc E \<noteq> 0")
  case True
  then show ?thesis using assms(2) by (auto simp: shutdown_mg_worker_def)
next
  case False
  obtain m' w' where m: "migration (logged S) users (\<lambda>n. True) (mg_buffer E) 0 (cache_map c) w = Some (m', w')" "worker_ok m'"
      "users = (\<lambda>n m. m) \<longrightarrow> (\<exists>oks. length oks = length (v_work (view_of (cache_map c))) \<and>
        view_of m' = fold (\<lambda>ok v. snd (a_migrate ok v)) oks (view_of (cache_map c)))"
    using drain_law [OF assms, of "mg_buffer E" w] by blast
  with False show ?thesis by (simp add: shutdown_mg_worker_def)
qed

lemma exit_law:
  assumes "answers S" and "polite 0 users" and "munmap_ok E" and "shared_cache p = Some i" and "shm_name s \<noteq> None"
    and "st_running (cache_state (shm_objs s i))" and "locked (st_lock (cache_state (shm_objs s i))) = 0"
    and "st_count (cache_state (shm_objs s i)) = 0" and "worker_ok (cache_map (shm_objs s i))"
  shows "\<exists>p' s' w'. exit_ssd_cache (logged S) E others users p s w = Some (0, p', s', w') \<and> shared_cache p' = None \<and>
    shm_name s' = None \<and> shm_next s' = shm_next s \<and>
    (join_rc E = 0 \<and> mg_worker (shm_objs s i) \<noteq> 0 \<and> users = (\<lambda>n m. m) \<longrightarrow>
      (\<exists>oks. length oks = length (v_work (view_of (cache_map (shm_objs s i)))) \<and>
      view_of (cache_map (shm_objs s' i)) = fold (\<lambda>ok v. snd (a_migrate ok v)) oks (view_of (cache_map (shm_objs s i)))))"
proof -
  have wait: "exit_wait others (shm_objs s i) = Some (shm_objs s i)"
    using exit_wait_step [OF assms(7), of others] assms(8) by simp
  obtain rc c' w' where c': "shutdown_mg_worker (logged S) E users (Some (shm_objs s i)) w = Some (rc, Some c', w')"
      "join_rc E = 0 \<and> mg_worker (shm_objs s i) \<noteq> 0 \<and> users = (\<lambda>n m. m) \<longrightarrow>
        (\<exists>oks. length oks = length (v_work (view_of (cache_map (shm_objs s i)))) \<and>
        view_of (cache_map c') = fold (\<lambda>ok v. snd (a_migrate ok v)) oks (view_of (cache_map (shm_objs s i))))"
    using shutdown_law [OF assms(1,9,2), of E w] by blast
  obtain j where "shm_name s = Some j" using assms(5) by blast
  then show ?thesis
    using assms(3,4,6) wait c'
    by (simp add: exit_ssd_cache_def unmap_shm_def unlink_shm_def put_cache_def)
qed

subsection \<open>A platform to apply the properties to\<close>

definition good_ns :: nvme_ns where
  "good_ns = \<lparr>ns_active = True, ns_sector_size = 2 ^ 9, ns_size = 2 ^ 30\<rparr>"

definition good_platform :: platform where
  "good_platform = \<lparr>shm_open_ok = True, ftruncate_ok = True, mmap_ok = True, munmap_ok = True, env_init_rc = 0,
     probe_rc = 0, probed = [\<lparr>traddr = ''0000:05:00.0'', namespaces = [Some good_ns]\<rparr>,
       \<lparr>traddr = NVME_ADDR, namespaces = [None, Some good_ns]\<rparr>],
     qpair_ok = (\<lambda>_. True), thread_id = 7, thread_rc = 0, join_rc = 0,
     mg_buffer = 1048576\<rparr>"

definition new_process :: process where
  "new_process = \<lparr>shared_cache = None, proc_target = reset_ctrlr_and_ns\<rparr>"

definition no_shm :: shm where
  "no_shm = \<lparr>shm_objs = (\<lambda>_. zero_cache), shm_name = None, shm_next = 0\<rparr>"

lemma good_platform_works: "shm_works good_platform" "usable_device good_platform good_ns" "munmap_ok good_platform"
  by (simp_all add: shm_works_def good_platform_def usable_device_def attach_cb_def strcmp_zero_def
      register_ns_def good_ns_def reset_ctrlr_and_ns_def NVME_ADDR_def)

lemma good_ns_works: "ns_sector_size good_ns = 2 ^ 9" "(9 :: nat) \<le> 12" "2 ^ 30 \<le> ns_size good_ns"
  by (simp_all add: good_ns_def)

subsection \<open>Properties\<close>

text \<open>
  C34: on a platform whose calls succeed, with a namespace of at least 1 GiB and sectors of a
  power of two up to 4096 bytes, the first \<open>init_ssd_cache\<close> returns 0 and leaves in shared memory a
  cache with no block in use, all 32768 blocks free in order, the shifts that make a cache block
  eight pages, a worker, no user and every invariant that requests and the worker rely on.
\<close>

theorem init_builds_cache:
  assumes "shm_works E" and "usable_device E ns" and "ns_sector_size ns = 2 ^ k" and "k \<le> 12"
    and "2 ^ 30 \<le> ns_size ns" and "shm_name s = None"
  shows "\<exists>p' s'. init_ssd_cache E p s = Some (0, p', s') \<and> shared_cache p' = Some (shm_next s) \<and>
    shm_name s' = Some (shm_next s) \<and> built E k (shm_objs s' (shm_next s))"
  using init_law [OF assms] by blast

theorem init_builds_cache_witness:
  "\<exists>p s. init_ssd_cache good_platform new_process no_shm = Some (0, p, s) \<and> shared_cache p = Some 0 \<and>
    built good_platform 9 (shm_objs s 0)"
  using init_builds_cache [OF good_platform_works(1,2) good_ns_works, of no_shm new_process]
  by (auto simp: no_shm_def)

lemma good_init:
  "\<exists>p s. init_ssd_cache good_platform new_process no_shm = Some (0, p, s) \<and> shared_cache p = Some 0 \<and>
    shm_name s = Some 0 \<and> cache_state (shm_objs s 0) = \<lparr>st_running = True, st_count = 0, st_lock = \<lparr>locked = 0\<rparr>\<rparr> \<and>
    built good_platform 9 (shm_objs s 0)"
  using init_law [OF good_platform_works(1,2) good_ns_works, of no_shm new_process]
  by (auto simp: no_shm_def built_def)

text \<open>
  A user who links and unlinks leaves the user count, the mapping and the name of
  the shared memory as they were; in between the user is counted once.
\<close>

theorem link_unlink_restores:
  assumes "shm_works E" and "munmap_ok E" and "shm_name s = Some i" and "st_running (cache_state (shm_objs s i))"
    and "locked (st_lock (cache_state (shm_objs s i))) = 0" and "fst (init_spdk E (proc_target p)) = 0"
  shows "\<exists>p1 s1 p2 s2. link_ssd_cache E p s = Some (0, p1, s1) \<and>
    st_count (cache_state (shm_objs s1 i)) = st_count (cache_state (shm_objs s i)) + 1 \<and>
    unlink_ssd_cache E p1 s1 = Some (0, p2, s2) \<and> cache_state (shm_objs s2 i) = cache_state (shm_objs s i) \<and>
    cache_map (shm_objs s2 i) = cache_map (shm_objs s i) \<and> shm_name s2 = Some i \<and> shared_cache p2 = None"
proof -
  obtain p1 s1 where 1: "link_ssd_cache E p s = Some (0, p1, s1)" "shared_cache p1 = Some i"
      "cache_state (shm_objs s1 i) = (cache_state (shm_objs s i))\<lparr>st_count := st_count (cache_state (shm_objs s i)) + 1\<rparr>"
      "cache_map (shm_objs s1 i) = cache_map (shm_objs s i)" "shm_name s1 = Some i"
    using join_law [OF assms(1,3-6)] by blast
  have run: "st_running (cache_state (shm_objs s1 i))" "locked (st_lock (cache_state (shm_objs s1 i))) = 0"
    using assms(4,5) by (simp_all add: 1(3))
  obtain p2 s2 where 2: "unlink_ssd_cache E p1 s1 = Some (0, p2, s2)" "shared_cache p2 = None"
      "cache_state (shm_objs s2 i) = (cache_state (shm_objs s1 i))\<lparr>st_count := st_count (cache_state (shm_objs s1 i)) - 1\<rparr>"
      "cache_map (shm_objs s2 i) = cache_map (shm_objs s1 i)" "shm_name s2 = shm_name s1"
    using leave_law [OF assms(2) 1(2) run] by blast
  have "cache_state (shm_objs s2 i) = cache_state (shm_objs s i)"
    unfolding 2(3) 1(3) by simp
  then show ?thesis using 1 2 by auto
qed

theorem link_unlink_restores_witness:
  "\<exists>p s p1 s1 p2 s2. init_ssd_cache good_platform new_process no_shm = Some (0, p, s) \<and>
    link_ssd_cache good_platform new_process s = Some (0, p1, s1) \<and> st_count (cache_state (shm_objs s1 0)) = 1 \<and>
    unlink_ssd_cache good_platform p1 s1 = Some (0, p2, s2) \<and> st_count (cache_state (shm_objs s2 0)) = 0"
proof -
  obtain p s where i: "init_ssd_cache good_platform new_process no_shm = Some (0, p, s)" "shm_name s = Some 0"
      "cache_state (shm_objs s 0) = \<lparr>st_running = True, st_count = 0, st_lock = \<lparr>locked = 0\<rparr>\<rparr>"
    using good_init by auto
  have run: "st_running (cache_state (shm_objs s 0))" "locked (st_lock (cache_state (shm_objs s 0))) = 0"
    by (simp_all add: i(3))
  have dev: "fst (init_spdk good_platform (proc_target new_process)) = 0"
    by (simp add: init_spdk_usable(1) [OF good_platform_works(2)])
  from link_unlink_restores [OF good_platform_works(1,3) i(2) run dev] obtain p1 s1 p2 s2 where
      "link_ssd_cache good_platform new_process s = Some (0, p1, s1)" "st_count (cache_state (shm_objs s1 0)) = 0 + 1"
      "unlink_ssd_cache good_platform p1 s1 = Some (0, p2, s2)" "cache_state (shm_objs s2 0) = cache_state (shm_objs s 0)"
    unfolding i(3) by auto
  with i show ?thesis by auto
qed

text \<open>
  While the administrator waits in \<open>exit_ssd_cache\<close> and nobody holds the lock in the
  seconds between, the wait ends exactly when the user count is at some time zero: a user that
  never unlinks keeps the administrator waiting for ever.
\<close>

theorem exit_waits_for_users:
  assumes "\<forall>i. locked (st_lock (cache_state ((others ^^ i) c))) = 0"
  shows "exit_wait others c \<noteq> None \<longleftrightarrow> (\<exists>n. st_count (cache_state ((others ^^ n) c)) = 0)"
proof
  assume "exit_wait others c \<noteq> None"
  then obtain c' where "exit_wait others c = Some c'" by blast
  from exit_wait_only_if [OF this] assms show "\<exists>n. st_count (cache_state ((others ^^ n) c)) = 0" by blast
next
  let ?Z = "\<lambda>n. st_count (cache_state ((others ^^ n) c)) = 0"
  assume ex: "\<exists>n. ?Z n"
  have "exit_wait others c = Some ((others ^^ (LEAST n. ?Z n)) c)"
    by (rule exit_wait_returns) (use assms LeastI_ex [OF ex] not_less_Least [of _ ?Z] in blast)+
  then show "exit_wait others c \<noteq> None" by simp
qed

theorem exit_waits_for_users_witness:
  "exit_wait (\<lambda>c. c\<lparr>cache_state := (cache_state c)\<lparr>st_count := 0\<rparr>\<rparr>) small_cache \<noteq> None"
proof -
  let ?leave = "\<lambda>c :: cache. c\<lparr>cache_state := (cache_state c)\<lparr>st_count := 0\<rparr>\<rparr>"
  have "st_lock (cache_state ((?leave ^^ i) small_cache)) = \<lparr>locked = 0\<rparr>" for i
    by (induction i) (simp_all add: small_cache_def)
  then have free: "\<forall>i. locked (st_lock (cache_state ((?leave ^^ i) small_cache))) = 0" by simp
  have "st_count (cache_state ((?leave ^^ 1) small_cache)) = 0" by simp
  with exit_waits_for_users [OF free] show ?thesis by blast
qed

text \<open>
  A pass of the worker thread calls \<open>pthread_testcancel\<close> exactly when the promotion
  queue was empty, and otherwise does one work. (The file operations of a move are cancellation
  points of POSIX too; cancellation there is not modelled.)
\<close>

theorem worker_cancels_when_idle:
  assumes "answers S" and "map_inv {} m" and "geometry_ok m" and "head_promotable (view_of m)"
  shows "\<exists>ok m' w' cs'. migration_pass (logged S) m dma (w, cs) =
      Some (v_work (view_of m) \<noteq> [], v_work (view_of m) = [], m', (w', cs @ cs')) \<and>
    map_inv {} m' \<and> view_of m' = snd (a_migrate ok (view_of m))"
  using migration_pass_law [OF assms] by blast

theorem worker_cancels_when_idle_witness:
  "\<exists>m w cs. migration_pass (logged fifo_device) small_map 4096 (idle_device, []) = Some (False, True, m, (w, cs))"
proof -
  have geo: "geometry_ok small_map" "head_promotable (view_of small_map)"
    by (simp_all add: geometry_ok_def view_shift head_promotable_def small_map_law(2) empty_view_def)
  have "v_work (view_of small_map) = []" by (simp add: small_map_law(2) empty_view_def)
  with worker_cancels_when_idle [OF fifo_answers small_map_law(1) geo, of 4096 idle_device "[]"] show ?thesis by auto
qed

end
