(* ===== verification/Printing.thy ===== *)
theory Printing
  imports Lifecycle
begin

text \<open>
  What the library prints: \<open>print_pio\<close> of \<^verbatim>\<open>lib/pio.c\<close>, \<open>info_mapping\<close> of
  \<^verbatim>\<open>lib/ssd_cache_mapping.c\<close>, \<open>info_ssd_cache\<close> of \<^verbatim>\<open>lib/ssd_cache_api.c\<close>, and the program
  \<^verbatim>\<open>examples/1_create_pio.c\<close>. Output is a list of lines. The text of a pointer is
  implementation defined and that of a quotient of doubles depends on rounding: both are
  parameters.
\<close>

subsection \<open>Requests\<close>

definition rule_line :: cstring where
  "rule_line = replicate 30 (CHR ''-'')"

definition print_node :: "(addr \<Rightarrow> cstring) \<Rightarrow> pio_node \<Rightarrow> cstring list" where
  "print_node show_ptr x =
     [rule_line,
      ''full path name = '' @ pio_path x,
      ''file descriptor = '' @ signed_decimal (pio_fd x),
      ''page index = '' @ signed_decimal (sint (pio_page_index x)),
      (case pio_operation x of
         READ \<Rightarrow> ''operation = READ''
       | WRITE \<Rightarrow> ''operation = WRITE''
       | _ \<Rightarrow> ''operation = UNKNOWN''),
      ''buf = '' @ show_ptr (pio_buffer x),
      ''pio count = '' @ signed_decimal (sint (pio_cnt x)),
      rule_line]"

fun print_pio :: "(addr \<Rightarrow> cstring) \<Rightarrow> pio \<Rightarrow> cstring list" where
  "print_pio show_ptr [] = []"
| "print_pio show_ptr (x # ps) = print_node show_ptr x @ print_pio show_ptr ps"

text \<open>
  \<open>main\<close> of \<^verbatim>\<open>1_create_pio.c\<close>: \<open>alloc\<close> says whether \<open>malloc\<close> finds memory for a node. The
  result is the output and the nodes freed.
\<close>

definition create_pio_main :: "(addr \<Rightarrow> cstring) \<Rightarrow> bool \<Rightarrow> addr \<Rightarrow> addr \<Rightarrow> addr \<Rightarrow> (cstring list \<times> pio_node list) option" where
  "create_pio_main show_ptr alloc buffer1 buffer2 buffer3 = do {
     p \<leftarrow> Some (create_pio alloc ''test'' 0 0 READ buffer1 3);
     p \<leftarrow> append_pio alloc p buffer2;
     p \<leftarrow> append_pio alloc p buffer3;
     Some (print_pio show_ptr p, free_pio p)
   }"

subsection \<open>The mapping and the cache\<close>

text \<open>
  \<open>safe_div(hit_time, hit_time + miss_time) * 100\<close> with two decimals: \<open>percent a b\<close> is the
  text of the quotient when the divisor is not 0.
\<close>

definition hit_ratio :: "(u32 \<Rightarrow> u32 \<Rightarrow> cstring) \<Rightarrow> mapping \<Rightarrow> cstring" where
  "hit_ratio percent m = (let b = hit_time m + miss_time m in
     if b \<noteq> 0 then percent (hit_time m) b else ''0.00'')"

definition print_u32 :: "u32 \<Rightarrow> cstring" where
  "print_u32 x = decimal (unat x)"

definition info_mapping :: "(u32 \<Rightarrow> u32 \<Rightarrow> cstring) \<Rightarrow> mapping \<Rightarrow> (cstring list \<times> mapping) option" where
  "info_mapping percent m = do {
     m \<leftarrow> lock_map m;
     out \<leftarrow> Some
       [''---> Information of mapping table <---'',
        ''/ free  entry = '' @ print_u32 (nr_elts (ea_free (m_ea m))),
        ''/ clean entry = '' @ print_u32 (nr_elts (m_clean m)),
        ''/ dirty entry = '' @ print_u32 (nr_elts (m_dirty m)),
        ''/ promotion time = '' @ print_u32 (promotion_time m),
        ''/ demotion  time = '' @ print_u32 (demotion_time m),
        ''/ writeback time = '' @ print_u32 (writeback_time m),
        ''/ hit time = '' @ print_u32 (hit_time m) @ '', miss time = '' @ print_u32 (miss_time m) @
          '', hit ratio = '' @ hit_ratio percent m @ ''%''];
     Some (out, unlock_map m)
   }"

definition info_ssd_cache :: "(u32 \<Rightarrow> u32 \<Rightarrow> cstring) \<Rightarrow> process \<Rightarrow> shm \<Rightarrow> (cstring list \<times> shm) option" where
  "info_ssd_cache percent p s = (case shared_cache p of
     None \<Rightarrow> Some ([''Error: info_udm_cache - shared cache uninitialized''], s)
   | Some i \<Rightarrow> let c = shm_objs s i; d = cache_dev c in
       if \<not> st_running (cache_state c) then Some ([''Error: info_udm_cache - shared cache uninitialized''], s)
       else do {
         (out, m) \<leftarrow> info_mapping percent (cache_map c);
         Some ([''---> Information of cache device <---'',
             ''/ block size = '' @ print_u32 (dev_block_size d) @ '' Bytes'',
             ''/ device size = '' @ decimal (unat (dev_device_size d div 1000000000)) @ '' GB'',
             ''/ cache block num = '' @ print_u32 (dev_cache_block_num d)] @ out,
           put_cache i (c\<lparr>cache_map := m\<rparr>) s)
       })"

subsection \<open>Properties\<close>

text \<open>The three pages of the example are pages 0, 1 and 2, and each node is freed once.\<close>

lemma example_pages:
  "\<exists>out x y z. create_pio_main show_ptr True b1 b2 b3 = Some (out, [z, y, x]) \<and>
    map pio_page_index [x, y, z] = [0, 1, 2] \<and> map pio_buffer [x, y, z] = [b1, b2, b3] \<and>
    out = print_node show_ptr x @ print_node show_ptr y @ print_node show_ptr z"
  by (simp add: create_pio_main_def create_pio_def)

lemma example_without_memory: "create_pio_main show_ptr False b1 b2 b3 = None"
  by (simp add: create_pio_main_def create_pio_def)

lemma print_u32_value: "read_decimal (print_u32 x) = unat x"
  by (simp add: print_u32_def read_decimal)

text \<open>The counts of the lists, as the words that the structures hold.\<close>

lemma counts_law:
  assumes "map_inv P m"
  defines "v \<equiv> view_of m"
  shows "unat (nr_elts (ea_free (m_ea m))) = length (v_free v)" and "unat (nr_elts (m_clean m)) = length (v_clean v)"
    and "unat (nr_elts (m_dirty m)) = length (v_dirty v)"
    and "length (v_free v) + length (v_clean v) + length (v_dirty v) + card {x. in_flight x m} = unat (cache_block_num m)"
proof -
  obtain F C D T where inv: "minv m F C D T P" using assms(1) by (auto elim: map_invE)
  note core = minv_core(1) [OF inv]
  have lists: "v_free v = F" "v_clean v = C" "v_dirty v = D" by (simp_all add: v_def view_fields [OF core])
  have d: "distinct (F @ C @ D)" and disj: "T \<inter> set (F @ C @ D) = {}"
      and all: "T \<union> set (F @ C @ D) = {i. i < cache_block_num m}" and le: "cache_block_num m \<le> CACHE_BLOCK_NUMBER"
    using core by (simp_all only: mcore_def)
  have T: "{x. in_flight x m} = T" using in_flight_iff [OF inv] by auto
  have "card T + card (set (F @ C @ D)) = card (T \<union> set (F @ C @ D))"
    using disj by (intro card_Un_disjoint [symmetric]) simp_all
  also have "\<dots> = unat (cache_block_num m)" unfolding all by (rule card_below)
  finally have sum: "card T + length (F @ C @ D) = unat (cache_block_num m)"
    using distinct_card [OF d] by simp
  then show "length (v_free v) + length (v_clean v) + length (v_dirty v) + card {x. in_flight x m} = unat (cache_block_num m)"
    by (simp add: lists T)
  have "unat (cache_block_num m) < 2 ^ 32" using unat_lt [of "cache_block_num m"] by simp
  then have "length F < 2 ^ 32" "length C < 2 ^ 32" "length D < 2 ^ 32" using sum by simp_all
  moreover have "nr_elts (ea_free (m_ea m)) = of_nat (length F)" "nr_elts (m_clean m) = of_nat (length C)"
      "nr_elts (m_dirty m) = of_nat (length D)"
    using mcore_dll(1-3) [OF core] by (simp_all add: dll_def)
  ultimately show "unat (nr_elts (ea_free (m_ea m))) = length (v_free v)" "unat (nr_elts (m_clean m)) = length (v_clean v)"
    "unat (nr_elts (m_dirty m)) = length (v_dirty v)"
    by (simp_all only: lists unat_of_nat_lt_len)
qed

text \<open>
  \<open>info_mapping\<close> returns in every state that satisfies the invariant, leaves the mapping as
  it was with the lock free, and the numbers it prints for free, clean and dirty entries are the
  lengths of the three lists: with the blocks in transit they make the number of cache blocks.
\<close>

theorem info_adds_up:
  assumes "map_inv P m"
  shows "\<exists>title f c d rest. info_mapping percent m = Some
      (title # (''/ free  entry = '' @ f) # (''/ clean entry = '' @ c) # (''/ dirty entry = '' @ d) # rest, m) \<and>
    read_decimal f = length (v_free (view_of m)) \<and> read_decimal c = length (v_clean (view_of m)) \<and>
    read_decimal d = length (v_dirty (view_of m)) \<and>
    read_decimal f + read_decimal c + read_decimal d + card {x. in_flight x m} = unat (cache_block_num m)"
proof -
  have l: "locked (mapping_lock m) = 0" using assms by (auto elim: map_invE)
  note n = counts_law [OF assms]
  let ?f = "print_u32 (nr_elts (ea_free (m_ea m)))" and ?c = "print_u32 (nr_elts (m_clean m))"
    and ?d = "print_u32 (nr_elts (m_dirty m))"
  have "\<exists>title rest. info_mapping percent m = Some
      (title # (''/ free  entry = '' @ ?f) # (''/ clean entry = '' @ ?c) # (''/ dirty entry = '' @ ?d) # rest, m)"
    using l by (simp add: info_mapping_def lock_map_def)
  moreover have "read_decimal ?f = length (v_free (view_of m))" "read_decimal ?c = length (v_clean (view_of m))"
      "read_decimal ?d = length (v_dirty (view_of m))"
    by (simp_all add: print_u32_value n(1-3))
  ultimately show ?thesis using n(4) by auto
qed

theorem info_adds_up_witness:
  "\<exists>title rest. info_mapping (\<lambda>a b. ''100.00'') small_map =
    Some (title # ''/ free  entry = 8'' # ''/ clean entry = 0'' # ''/ dirty entry = 0'' # rest, small_map)"
proof -
  have v: "length (v_free (view_of small_map)) = 8" "v_clean (view_of small_map) = []" "v_dirty (view_of small_map) = []"
    using small_free [of 6] by (simp_all add: small_map_law(2)) (simp_all add: empty_view_def)
  note c = counts_law [OF small_map_law(1)]
  have digits: "decimal 8 = ''8''" "decimal 0 = ''0''" by code_simp+
  have nums: "print_u32 (nr_elts (ea_free (m_ea small_map))) = ''8''" "print_u32 (nr_elts (m_clean small_map)) = ''0''"
      "print_u32 (nr_elts (m_dirty small_map)) = ''0''"
    using c(1-3) v digits by (simp_all add: print_u32_def)
  obtain title f c d rest where i: "info_mapping (\<lambda>a b. ''100.00'') small_map =
      Some (title # (''/ free  entry = '' @ f) # (''/ clean entry = '' @ c) # (''/ dirty entry = '' @ d) # rest, small_map)"
    using info_adds_up [OF small_map_law(1), of "\<lambda>a b. ''100.00''"] by blast
  have "locked (mapping_lock small_map) = 0" using small_map_law(1) by (auto elim: map_invE)
  then have "f = ''8''" "c = ''0''" "d = ''0''"
    using i nums by (auto simp: info_mapping_def lock_map_def)
  with i show ?thesis by simp
qed

text \<open>\<open>info_ssd_cache\<close> of a running cache prints the device first and changes nothing.\<close>

lemma info_cache_returns:
  assumes "shared_cache p = Some i" and "st_running (cache_state (shm_objs s i))" and "map_inv P (cache_map (shm_objs s i))"
  shows "\<exists>out. info_ssd_cache percent p s = Some (out, s) \<and> length out = 12"
proof -
  have l: "locked (mapping_lock (cache_map (shm_objs s i))) = 0" using assms(3) by (auto elim: map_invE)
  show ?thesis
    using l assms(1,2) by (simp add: info_ssd_cache_def info_mapping_def lock_map_def Let_def put_cache_def)
qed

end
