(* ===== verification/Queue_Test.thy ===== *)
theory Queue_Test
  imports Work_Queue
begin

text \<open>
  The test of the work queue, \<^verbatim>\<open>examples/2_work_queue.c\<close>: ten producers and one consumer as
  threads that take steps in any order. A call of the queue is one step, because it holds the
  lock of the queue from beginning to end (\<open>Atomic\<close>). The field \<open>inserted\<close> is a history of the
  accepted works that no thread reads.
\<close>

subsection \<open>The threads\<close>

definition MAX_WORKS :: nat where "MAX_WORKS = 10"
definition NUM_PRODUCERS :: nat where "NUM_PRODUCERS = 10"

datatype producer_pc = Making nat | Finishing | P_Ended

datatype consumer_pc = C_Test | C_Peek | C_Remove | C_Ended

record queue_test =
  test_wq :: work_queue
  producers :: "nat \<Rightarrow> producer_pc"
  consumer_at :: consumer_pc
  producer_done_count :: int
  isdone :: bool
  printed :: "work list"
  inserted :: "work list"

text \<open>\<open>gen\<close> with the results of \<open>rand\<close>.\<close>

definition gen :: "nat list \<Rightarrow> cstring" where
  "gen rs = map (\<lambda>r. char_of (65 + r mod 26)) rs"

abbreviation set_producer :: "nat \<Rightarrow> producer_pc \<Rightarrow> queue_test \<Rightarrow> queue_test" where
  "set_producer i pc s \<equiv> s\<lparr>producers := (producers s)(i := pc)\<rparr>"

text \<open>\<open>producer\<close> number \<open>i\<close>; \<open>Making n\<close>: \<open>n\<close> works were accepted.\<close>

inductive producer :: "nat \<Rightarrow> queue_test \<Rightarrow> queue_test \<Rightarrow> bool" for i :: nat and s :: queue_test where
  refused: "producers s i = Making n \<Longrightarrow> length rs = 3 \<Longrightarrow>
    insert_work (test_wq s) (gen rs) (of_nat (r mod 5)) = Some (False, q) \<Longrightarrow> producer i s (s\<lparr>test_wq := q\<rparr>)"
| accepted: "producers s i = Making n \<Longrightarrow> length rs = 3 \<Longrightarrow>
    insert_work (test_wq s) (gen rs) (of_nat (r mod 5)) = Some (True, q) \<Longrightarrow>
    producer i s (set_producer i (if n + 1 = MAX_WORKS then Finishing else Making (n + 1))
      (s\<lparr>test_wq := q, inserted := inserted s @ [\<lparr>work_path = gen rs, work_index = of_nat (r mod 5)\<rparr>]\<rparr>))"
| finish: "producers s i = Finishing \<Longrightarrow>
    producer i s (set_producer i P_Ended (s\<lparr>producer_done_count := producer_done_count s + 1,
      isdone := (producer_done_count s + 1 = int NUM_PRODUCERS \<or> isdone s)\<rparr>))"

text \<open>\<open>consumer\<close>: it looks at \<open>isdone\<close> before each work; a work is printed when it is peaked.\<close>

inductive consumer :: "queue_test \<Rightarrow> queue_test \<Rightarrow> bool" for s :: queue_test where
  go_on: "consumer_at s = C_Test \<Longrightarrow> \<not> isdone s \<Longrightarrow> consumer s (s\<lparr>consumer_at := C_Peek\<rparr>)"
| stop: "consumer_at s = C_Test \<Longrightarrow> isdone s \<Longrightarrow> consumer s (s\<lparr>consumer_at := C_Ended\<rparr>)"
| nothing: "consumer_at s = C_Peek \<Longrightarrow> peak_work (test_wq s) (MAX_PATH_SIZE + 1) buf j = Some (False, p, c, q) \<Longrightarrow>
    consumer s (s\<lparr>test_wq := q, consumer_at := C_Test\<rparr>)"
| print: "consumer_at s = C_Peek \<Longrightarrow> peak_work (test_wq s) (MAX_PATH_SIZE + 1) buf j = Some (True, p, c, q) \<Longrightarrow>
    consumer s (s\<lparr>test_wq := q, consumer_at := C_Remove, printed := printed s @ [\<lparr>work_path = p, work_index = c\<rparr>]\<rparr>)"
| remove: "consumer_at s = C_Remove \<Longrightarrow> remove_work (test_wq s) = Some (b, q) \<Longrightarrow>
    consumer s (s\<lparr>test_wq := q, consumer_at := C_Test\<rparr>)"

inductive queue_test_step :: "queue_test \<Rightarrow> queue_test \<Rightarrow> bool" where
  producer: "i < NUM_PRODUCERS \<Longrightarrow> producer i s t \<Longrightarrow> queue_test_step s t"
| consumer: "consumer s t \<Longrightarrow> queue_test_step s t"

definition queue_test_start :: "queue_test \<Rightarrow> bool" where
  "queue_test_start s \<longleftrightarrow> (\<exists>wq. test_wq s = init_work_queue wq) \<and> producers s = (\<lambda>i. Making 0) \<and>
     consumer_at s = C_Test \<and> producer_done_count s = 0 \<and> \<not> isdone s \<and> printed s = [] \<and> inserted s = []"

text \<open>\<open>main\<close> has joined all threads.\<close>

definition joined :: "queue_test \<Rightarrow> bool" where
  "joined s \<longleftrightarrow> (\<forall>i < NUM_PRODUCERS. producers s i = P_Ended) \<and> consumer_at s = C_Ended"

inductive_cases producerE: "producer i s t"
inductive_cases consumerE: "consumer s t"

subsection \<open>The invariant\<close>

fun made :: "producer_pc \<Rightarrow> nat" where
  "made (Making n) = n" | "made pc = MAX_WORKS"

fun ended :: "producer_pc \<Rightarrow> nat" where
  "ended P_Ended = 1" | "ended pc = 0"

fun to_do :: "producer_pc \<Rightarrow> nat" where
  "to_do (Making n) = 5 * (MAX_WORKS - n) + 1" | "to_do Finishing = 1" | "to_do P_Ended = 0"

definition per_producer :: "(producer_pc \<Rightarrow> nat) \<Rightarrow> queue_test \<Rightarrow> nat" where
  "per_producer f s = (\<Sum>i<NUM_PRODUCERS. f (producers s i))"

lemma per_producer_set:
  "i < NUM_PRODUCERS \<Longrightarrow> per_producer f (set_producer i pc s) + f (producers s i) = per_producer f s + f pc"
  unfolding per_producer_def using sum_upd [of i NUM_PRODUCERS f "producers s" pc] by simp

lemma per_producer_other [simp]:
  "per_producer f (s\<lparr>test_wq := q\<rparr>) = per_producer f s" "per_producer f (s\<lparr>consumer_at := c\<rparr>) = per_producer f s"
  "per_producer f (s\<lparr>printed := ws\<rparr>) = per_producer f s" "per_producer f (s\<lparr>inserted := ws\<rparr>) = per_producer f s"
  "per_producer f (s\<lparr>producer_done_count := k\<rparr>) = per_producer f s" "per_producer f (s\<lparr>isdone := b\<rparr>) = per_producer f s"
  by (simp_all add: per_producer_def)

lemma all_ended: "per_producer ended s = NUM_PRODUCERS \<longleftrightarrow> (\<forall>i < NUM_PRODUCERS. producers s i = P_Ended)"
proof
  assume all: "per_producer ended s = NUM_PRODUCERS"
  show "\<forall>i < NUM_PRODUCERS. producers s i = P_Ended"
  proof (intro allI impI)
    fix i
    assume i: "i < NUM_PRODUCERS"
    have "ended pc \<le> 1" for pc by (cases pc) simp_all
    then have "per_producer ended (set_producer i P_Ended s) \<le> NUM_PRODUCERS"
      unfolding per_producer_def by (rule sum_le_count)
    then have "1 \<le> ended (producers s i)"
      using per_producer_set [OF i, of ended s P_Ended] all by simp
    then show "producers s i = P_Ended" by (cases "producers s i") simp_all
  qed
qed (simp add: per_producer_def)

definition queue_test_inv :: "queue_test \<Rightarrow> bool" where
  "queue_test_inv s \<longleftrightarrow> wq_inv (test_wq s) \<and>
     inserted s = printed s @ (if consumer_at s = C_Remove then tl else (\<lambda>ws. ws)) (items (test_wq s)) \<and>
     (consumer_at s = C_Remove \<longrightarrow> items (test_wq s) \<noteq> []) \<and>
     length (inserted s) = per_producer made s \<and>
     (\<forall>i n. producers s i = Making n \<longrightarrow> n < MAX_WORKS) \<and>
     producer_done_count s = int (per_producer ended s) \<and>
     (isdone s \<longleftrightarrow> per_producer ended s = NUM_PRODUCERS) \<and> (consumer_at s = C_Ended \<longrightarrow> isdone s)"

lemma queue_test_inv_start: "queue_test_start s \<Longrightarrow> queue_test_inv s"
  by (auto simp: queue_test_start_def queue_test_inv_def init_work_queue_inv per_producer_def
      MAX_WORKS_def NUM_PRODUCERS_def)

lemma gen_length: "length (gen rs) = length rs"
  by (simp add: gen_def)

lemma gen_fits: "length rs = 3 \<Longrightarrow> length (gen rs) \<le> MAX_PATH_SIZE"
  by (simp add: gen_length consts_simps)

lemma insert_cases:
  assumes "wq_inv wq" and "length p \<le> MAX_PATH_SIZE" and "insert_work wq p c = Some (b, q)"
  shows "wq_inv q \<and> items q = (if b then items wq @ [\<lparr>work_path = p, work_index = c\<rparr>] else items wq)"
  using insert_work_law [OF assms(1,2), of c] assms(3) by auto

lemma peak_cases:
  assumes "wq_inv wq" and "peak_work wq (Suc MAX_PATH_SIZE) buf j = Some (b, p, c, q)"
  shows "q = wq \<and> b = (items wq \<noteq> []) \<and> (b \<longrightarrow> \<lparr>work_path = p, work_index = c\<rparr> = hd (items wq))"
  using assms peak_work_empty [OF assms(1)] peak_work_front [OF assms(1)]
  by (cases "items wq") (auto split: if_splits)

lemma remove_cases:
  assumes "wq_inv wq" and "remove_work wq = Some (b, q)"
  shows "wq_inv q \<and> items q = tl (items wq)"
  using remove_work_law [OF assms(1)] assms(2) by auto

lemma queue_test_inv_producer:
  assumes "queue_test_inv s" and "i < NUM_PRODUCERS" and "producer i s t"
  shows "queue_test_inv t"
  using assms(3)
proof (cases rule: producer.cases)
  case (refused n rs r q)
  then show ?thesis
    using insert_cases [OF _ gen_fits [OF refused(3)] refused(4)] assms(1) by (auto simp: queue_test_inv_def)
next
  case (accepted n rs r q)
  let ?pc = "if n + 1 = MAX_WORKS then Finishing else Making (n + 1)"
    and ?s = "s\<lparr>test_wq := q, inserted := inserted s @ [\<lparr>work_path = gen rs, work_index = of_nat (r mod 5)\<rparr>]\<rparr>"
  have q: "wq_inv q" "items q = items (test_wq s) @ [\<lparr>work_path = gen rs, work_index = of_nat (r mod 5)\<rparr>]"
    using insert_cases [OF _ gen_fits [OF accepted(3)] accepted(4)] assms(1) by (auto simp: queue_test_inv_def)
  have "n < MAX_WORKS" using assms(1) accepted(2) by (auto simp: queue_test_inv_def)
  then have n: "n + 1 \<noteq> MAX_WORKS \<Longrightarrow> n + 1 < MAX_WORKS" by simp
  have m: "made ?pc = n + 1" "ended ?pc = 0" by simp_all
  have "per_producer made t = per_producer made s + 1" "per_producer ended t = per_producer ended s"
    using per_producer_set [OF assms(2), of made ?s ?pc]
      per_producer_set [OF assms(2), of ended ?s ?pc] m accepted(1,2)
    by simp_all
  then show ?thesis
    using assms(1) q n accepted(1,2) by (auto simp: queue_test_inv_def)
next
  case finish
  let ?s = "s\<lparr>producer_done_count := producer_done_count s + 1,
      isdone := (producer_done_count s + 1 = int NUM_PRODUCERS \<or> isdone s)\<rparr>"
  have "per_producer made t = per_producer made s" "per_producer ended t = per_producer ended s + 1"
    using per_producer_set [OF assms(2), of made ?s P_Ended] per_producer_set [OF assms(2), of ended ?s P_Ended] finish
    by simp_all
  moreover have "\<not> isdone s"
    using assms(1,2) finish(2) by (auto simp: queue_test_inv_def all_ended)
  ultimately show ?thesis
    using assms(1) finish by (auto simp: queue_test_inv_def)
qed

lemma queue_test_inv_consumer:
  assumes "queue_test_inv s" and "consumer s t"
  shows "queue_test_inv t"
proof -
  have wq: "wq_inv (test_wq s)" using assms(1) by (simp add: queue_test_inv_def)
  show ?thesis
    using assms(2) by (rule consumerE)
      (use assms(1) in \<open>auto simp: queue_test_inv_def dest!: peak_cases [OF wq] remove_cases [OF wq]\<close>)
qed

interpretation queue_test: step_invariant queue_test_start queue_test_step queue_test_inv
  by unfold_locales (auto intro: queue_test_inv_start queue_test_inv_producer queue_test_inv_consumer
      elim: queue_test_step.cases)

subsection \<open>Progress\<close>

text \<open>Steps of a run in which the consumer goes first whenever there is a work.\<close>

definition consumer_rank :: "queue_test \<Rightarrow> nat" where
  "consumer_rank s = (case consumer_at s of
     C_Test \<Rightarrow> 2
   | C_Peek \<Rightarrow> if items (test_wq s) = [] then 3 else 1
   | C_Remove \<Rightarrow> 0
   | C_Ended \<Rightarrow> 0)"

definition queue_test_rank :: "queue_test \<Rightarrow> nat" where
  "queue_test_rank s = per_producer to_do s + 4 * length (items (test_wq s)) + consumer_rank s"

definition descends :: "queue_test \<Rightarrow> bool" where
  "descends s \<longleftrightarrow> (\<exists>t. queue_test_step s t \<and> queue_test_rank t < queue_test_rank s)"

lemma descendsI: "queue_test_step s t \<Longrightarrow> queue_test_rank t < queue_test_rank s \<Longrightarrow> descends s"
  by (auto simp: descends_def)

lemma producer_descends:
  assumes "queue_test_inv s" and "items (test_wq s) = []" and "\<not> isdone s"
  shows "descends s"
proof -
  obtain i where i: "i < NUM_PRODUCERS" "producers s i \<noteq> P_Ended"
    using assms(1,3) by (auto simp: queue_test_inv_def all_ended)
  show ?thesis
  proof (cases "producers s i")
    case (Making n)
    let ?w = "\<lparr>work_path = gen [0, 0, 0], work_index = of_nat (0 mod 5)\<rparr>"
    have wq: "wq_inv (test_wq s)" and n: "n < MAX_WORKS" using assms(1) Making by (auto simp: queue_test_inv_def)
    obtain q where q: "insert_work (test_wq s) (gen [0, 0, 0]) (of_nat (0 mod 5)) = Some (True, q)" "items q = [?w]"
      using insert_work_law [OF wq gen_fits [of "[0, 0, 0]"], of "of_nat (0 mod 5)"] assms(2) by auto
    let ?pc = "if n + 1 = MAX_WORKS then Finishing else Making (n + 1)"
      and ?s = "s\<lparr>test_wq := q, inserted := inserted s @ [?w]\<rparr>"
    have len: "length [0 :: nat, 0, 0] = 3" by simp
    have step: "queue_test_step s (set_producer i ?pc ?s)"
      by (rule queue_test_step.producer [OF i(1) producer.accepted [OF Making len q(1)]])
    have "to_do ?pc + 5 = to_do (Making n)" using n by auto
    define u where "u = set_producer i ?pc ?s"
    have "per_producer to_do u + 5 = per_producer to_do s"
      using per_producer_set [OF i(1), of to_do ?s ?pc] Making \<open>to_do ?pc + 5 = _\<close> by (simp add: u_def)
    moreover have "items (test_wq u) = [?w]" "consumer_at u = consumer_at s" by (simp_all add: u_def q(2))
    ultimately have "queue_test_rank u < queue_test_rank s"
      using assms(2) by (simp add: queue_test_rank_def consumer_rank_def split: consumer_pc.split)
    with step show ?thesis unfolding u_def by (rule descendsI)
  next
    case Finishing
    let ?s = "s\<lparr>producer_done_count := producer_done_count s + 1,
      isdone := (producer_done_count s + 1 = int NUM_PRODUCERS \<or> isdone s)\<rparr>"
    have step: "queue_test_step s (set_producer i P_Ended ?s)"
      by (rule queue_test_step.producer [OF i(1) producer.finish [OF Finishing]])
    have "per_producer to_do (set_producer i P_Ended ?s) + 1 = per_producer to_do s"
      using per_producer_set [OF i(1), of to_do ?s P_Ended] Finishing by simp
    then have "queue_test_rank (set_producer i P_Ended ?s) < queue_test_rank s"
      by (simp add: queue_test_rank_def consumer_rank_def split: consumer_pc.split)
    with step show ?thesis by (rule descendsI)
  qed (use i(2) in simp)
qed

lemma run_descends:
  assumes "queue_test_inv s" and "\<not> joined s"
  shows "descends s"
proof -
  have wq: "wq_inv (test_wq s)" using assms(1) by (simp add: queue_test_inv_def)
  note down = descendsI [OF queue_test_step.consumer]
  note rank = queue_test_rank_def consumer_rank_def
  show ?thesis
  proof (cases "consumer_at s")
    case C_Test
    show ?thesis
    proof (cases "isdone s")
      case True
      show ?thesis by (rule down [OF consumer.stop [OF C_Test True]]) (simp add: rank C_Test)
    next
      case False
      then show ?thesis
        using producer_descends [OF assms(1)] down [OF consumer.go_on [OF C_Test False]]
        by (cases "items (test_wq s) = []") (simp_all add: rank C_Test)
    qed
  next
    case C_Peek
    show ?thesis
    proof (cases "items (test_wq s)")
      case Nil
      then have "peak_work (test_wq s) (MAX_PATH_SIZE + 1) [] 0 = Some (False, [], 0, test_wq s)"
        by (rule peak_work_empty [OF wq])
      from down [OF consumer.nothing [OF C_Peek this]] producer_descends [OF assms(1) Nil]
      show ?thesis by (cases "isdone s") (simp_all add: rank C_Peek Nil)
    next
      case (Cons w ws)
      then have "length (work_path w) < MAX_PATH_SIZE + 1" using wq by (auto simp: wq_inv_def)
      then have "peak_work (test_wq s) (MAX_PATH_SIZE + 1) [] 0 = Some (True, work_path w, work_index w, test_wq s)"
        using peak_work_front [OF wq Cons] by simp
      from down [OF consumer.print [OF C_Peek this]] show ?thesis by (simp add: rank C_Peek Cons)
    qed
  next
    case C_Remove
    obtain b q where q: "remove_work (test_wq s) = Some (b, q)" "items q = tl (items (test_wq s))"
      using remove_work_law [OF wq] by blast
    have "items (test_wq s) \<noteq> []" using assms(1) C_Remove by (simp add: queue_test_inv_def)
    with down [OF consumer.remove [OF C_Remove q(1)]] q(2) show ?thesis
      by (cases "items (test_wq s)") (simp_all add: rank C_Remove)
  next
    case C_Ended
    then have "joined s" using assms(1) by (auto simp: queue_test_inv_def joined_def all_ended)
    with assms(2) show ?thesis by simp
  qed
qed

lemma run_can_end:
  assumes "queue_test_inv s"
  shows "\<exists>t. queue_test_step\<^sup>*\<^sup>* s t \<and> joined t"
  using assms
proof (induction "queue_test_rank s" arbitrary: s rule: less_induct)
  case less
  show ?case
  proof (cases "joined s")
    case False
    obtain t where t: "queue_test_step s t" "queue_test_rank t < queue_test_rank s"
      using run_descends [OF less.prems False] by (auto simp: descends_def)
    have "queue_test_inv t" by (rule queue_test.inv_step [OF less.prems t(1)])
    from less.hyps [OF t(2) this] t(1) show ?thesis by (blast intro: converse_rtranclp_into_rtranclp)
  qed blast
qed

lemma reach_steps: "step\<^sup>*\<^sup>* s t \<Longrightarrow> reach start step s \<Longrightarrow> reach start step t"
  by (induction rule: rtranclp_induct) (auto intro: reach.intros)

subsection \<open>Properties\<close>

text \<open>
  C29: in the producer and consumer test, however the threads interleave, the consumer prints
  exactly the works that were accepted, in the order in which they were, and runs behind by at
  most 15; from every reachable state a run to the end exists, and when all threads have ended
  ten works of each producer were accepted. Works still in the queue at that moment, at most 15,
  are never printed: the consumer stops on \<open>isdone\<close> without emptying the queue.
\<close>

theorem queue_test_delivers:
  assumes "reach queue_test_start queue_test_step s"
  shows "(\<exists>rest. inserted s = printed s @ rest \<and> length rest \<le> 15) \<and>
    (\<exists>t. queue_test_step\<^sup>*\<^sup>* s t \<and> joined t) \<and>
    (joined s \<longrightarrow> length (inserted s) = NUM_PRODUCERS * MAX_WORKS \<and> inserted s = printed s @ items (test_wq s))"
proof (intro conjI)
  have inv: "queue_test_inv s" by (rule queue_test.reach_inv [OF assms])
  then have "length (items (test_wq s)) \<le> 15" using items_bound by (simp add: queue_test_inv_def)
  then show "\<exists>rest. inserted s = printed s @ rest \<and> length rest \<le> 15"
    using inv by (auto simp: queue_test_inv_def split: if_splits)
  show "\<exists>t. queue_test_step\<^sup>*\<^sup>* s t \<and> joined t" by (rule run_can_end [OF inv])
  show "joined s \<longrightarrow> length (inserted s) = NUM_PRODUCERS * MAX_WORKS \<and> inserted s = printed s @ items (test_wq s)"
    using inv by (auto simp: queue_test_inv_def joined_def per_producer_def)
qed

definition first_state :: queue_test where
  "first_state = \<lparr>test_wq = sample_queue, producers = (\<lambda>i. Making 0), consumer_at = C_Test, producer_done_count = 0,
     isdone = False, printed = [], inserted = []\<rparr>"

theorem queue_test_delivers_witness:
  "\<exists>t. queue_test_step\<^sup>*\<^sup>* first_state t \<and> joined t \<and> length (inserted t) = 100 \<and> 85 \<le> length (printed t)"
proof -
  have start: "reach queue_test_start queue_test_step first_state"
    by (rule reach.reach_start) (auto simp: queue_test_start_def first_state_def sample_queue_def)
  obtain t where t: "queue_test_step\<^sup>*\<^sup>* first_state t" "joined t"
    using queue_test_delivers [OF start] by blast
  have "reach queue_test_start queue_test_step t" by (rule reach_steps [OF t(1) start])
  from queue_test_delivers [OF this] t(2) obtain rest where
    "inserted t = printed t @ rest" "length rest \<le> 15" "length (inserted t) = NUM_PRODUCERS * MAX_WORKS"
    by blast
  then have "length (inserted t) = 100" "85 \<le> length (printed t)"
    by (simp_all add: NUM_PRODUCERS_def MAX_WORKS_def)
  with t show ?thesis by blast
qed

end
