(* ===== verification/Fio.thy ===== *)
theory Fio
  imports Printing
begin

text \<open>
  The fio engines of \<^verbatim>\<open>fio/\<close>, the clients that ship with the cache: how an I/O unit of
  fio becomes a page request. \<open>fio_tester\<close> is \<^verbatim>\<open>fio/ssd-cache-tester\<close>, whose loop over
  the pages starts at the second page; \<open>fio_manager\<close> is \<^verbatim>\<open>fio/ssd-cache-manager\<close>, whose
  loop starts at the first; \<open>myspdk_queue\<close> is \<^verbatim>\<open>fio/myspdk\<close>, which goes to the device
  directly. Memory allocation is assumed to succeed.
\<close>

unbundle bit_operations_syntax

datatype ddir = DDIR_READ | DDIR_WRITE | DDIR_OTHER

record io_u =
  io_ddir :: ddir
  io_file_name :: cstring
  io_fd :: int
  io_offset :: u64
  io_buflen :: u64
  io_xfer_buf :: addr

text \<open>The loop \<open>for (; offset < buflen; offset += PAGE_SIZE) append_pio(head, xfer_buf + offset)\<close>.\<close>

partial_function (option) append_pages :: "pio \<Rightarrow> addr \<Rightarrow> u64 \<Rightarrow> u64 \<Rightarrow> pio option" where
  "append_pages p buf offset buflen =
     (if offset < buflen
      then do {
        p \<leftarrow> append_pio True p (buf + offset);
        append_pages p buf (offset + ucast PAGE_SIZE) buflen
      }
      else Some p)"

definition fio_request :: "u64 \<Rightarrow> operate \<Rightarrow> io_u \<Rightarrow> pio option" where
  "fio_request start op u =
     append_pages (create_pio True (io_file_name u) (io_fd u) (ucast (drop_bit 12 (io_offset u))) op
       (io_xfer_buf u) (if io_buflen u = 4096 then 1 else 8)) (io_xfer_buf u) start (io_buflen u)"

text \<open>Both engines: the queue function returns 0 whatever \<open>submit_pio\<close> returns.\<close>

definition fio_queue :: "u64 \<Rightarrow> 'w driver \<Rightarrow> process \<Rightarrow> shm \<Rightarrow> io_u \<Rightarrow> 'w \<Rightarrow> (int \<times> shm \<times> 'w) option" where
  "fio_queue start S p s u w = (case io_ddir u of
     DDIR_READ \<Rightarrow> do {
       head \<leftarrow> fio_request start READ u;
       (rc, s, w) \<leftarrow> submit_pio S p s head w;
       Some (0, s, w)
     }
   | DDIR_WRITE \<Rightarrow> do {
       head \<leftarrow> fio_request start WRITE u;
       (rc, s, w) \<leftarrow> submit_pio S p s head w;
       Some (0, s, w)
     }
   | DDIR_OTHER \<Rightarrow> None)"

definition fio_tester :: "'w driver \<Rightarrow> process \<Rightarrow> shm \<Rightarrow> io_u \<Rightarrow> 'w \<Rightarrow> (int \<times> shm \<times> 'w) option" where
  "fio_tester = fio_queue (ucast PAGE_SIZE)"

definition fio_manager :: "'w driver \<Rightarrow> process \<Rightarrow> shm \<Rightarrow> io_u \<Rightarrow> 'w \<Rightarrow> (int \<times> shm \<times> 'w) option" where
  "fio_manager = fio_queue 0"

definition myspdk_queue :: "'w driver \<Rightarrow> io_u \<Rightarrow> 'w \<Rightarrow> (int \<times> 'w) option" where
  "myspdk_queue S u w = (case io_ddir u of
     DDIR_READ \<Rightarrow> do { (rc, w) \<leftarrow> read_spdk S (io_xfer_buf u) (drop_bit 9 (io_offset u)) 8 IO_QUEUE w; Some (0, w) }
   | DDIR_WRITE \<Rightarrow> do { (rc, w) \<leftarrow> write_spdk S (io_xfer_buf u) (drop_bit 9 (io_offset u)) 8 IO_QUEUE w; Some (0, w) }
   | DDIR_OTHER \<Rightarrow> None)"

subsection \<open>Set-up and tear-down\<close>

text \<open>
  The tester joins the cache and leaves it, printing the state of the cache before it does.
  Memory for the requests of a job is a buffer of eight pages; \<open>alloc\<close> is
  \<open>alloc_dma_buffer\<close>, whose null result is reported as 1.
\<close>

definition tester_setup :: int where
  "tester_setup = 0"

definition tester_init :: "platform \<Rightarrow> process \<Rightarrow> shm \<Rightarrow> (int \<times> process \<times> shm) option" where
  "tester_init E p s = link_ssd_cache E p s"

definition tester_cleanup :: "(u32 \<Rightarrow> u32 \<Rightarrow> cstring) \<Rightarrow> platform \<Rightarrow> process \<Rightarrow> shm \<Rightarrow>
    (cstring list \<times> process \<times> shm) option" where
  "tester_cleanup percent E p s = do {
     (out, s) \<leftarrow> info_ssd_cache percent p s;
     (rc, p, s) \<leftarrow> unlink_ssd_cache E p s;
     Some (['' --------- cleanup --------- ''] @ out @ [''unlink rc = '' @ signed_decimal rc], p, s)
   }"

definition tester_iomem_alloc :: "(u32 \<Rightarrow> addr) \<Rightarrow> int \<times> addr" where
  "tester_iomem_alloc alloc = (let orig_buffer = alloc (push_bit 3 PAGE_SIZE)
     in (if orig_buffer = 0 then 1 else 0, orig_buffer))"

text \<open>The manager creates the cache once per process, whatever \<open>init_ssd_cache\<close> returns, and never ends it.\<close>

definition manager_setup :: "'w driver \<Rightarrow> platform \<Rightarrow> (nat \<Rightarrow> mapping \<Rightarrow> mapping) \<Rightarrow> process \<Rightarrow> shm \<Rightarrow> 'w \<Rightarrow>
    (int \<times> process \<times> shm \<times> 'w) option" where
  "manager_setup S E users p s w = do { (p, s, w) \<leftarrow> force_exit_ssd_cache S E users p s w; Some (0, p, s, w) }"

definition manager_init :: "platform \<Rightarrow> bool \<Rightarrow> process \<Rightarrow> shm \<Rightarrow> (int \<times> bool \<times> process \<times> shm) option" where
  "manager_init E isinit p s =
     (if \<not> isinit then do { (rc, p, s) \<leftarrow> init_ssd_cache E p s; Some (0, True, p, s) }
      else Some (0, isinit, p, s))"

definition manager_cleanup :: "(u32 \<Rightarrow> u32 \<Rightarrow> cstring) \<Rightarrow> process \<Rightarrow> shm \<Rightarrow> (cstring list \<times> shm) option" where
  "manager_cleanup percent p s = do {
     (out, s) \<leftarrow> info_ssd_cache percent p s;
     Some (['' --------- cleanup --------- ''] @ out, s)
   }"

definition manager_iomem_alloc :: "(u32 \<Rightarrow> addr) \<Rightarrow> int \<times> addr" where
  "manager_iomem_alloc alloc = (let orig_buffer = alloc (push_bit 3 PAGE_SIZE)
     in (if orig_buffer = 0 then 1 else 0, orig_buffer))"

text \<open>The buffer of \<open>myspdk\<close> is one page, whatever size fio asks for.\<close>

definition myspdk_iomem_alloc :: "(u32 \<Rightarrow> addr) \<Rightarrow> int \<times> addr" where
  "myspdk_iomem_alloc alloc = (let orig_buffer = alloc PAGE_SIZE
     in (if orig_buffer = 0 then 1 else 0, orig_buffer))"

definition myspdk_init :: "platform \<Rightarrow> ctrlr_entry \<Rightarrow> int \<times> ctrlr_entry" where
  "myspdk_init E t = (let (rc, t) = init_spdk E t in (0, t))"

definition myspdk_cleanup :: "ctrlr_entry \<Rightarrow> ctrlr_entry" where
  "myspdk_cleanup t = exit_spdk t"

text \<open>An initialisation that failed is not tried again, and its failure is not reported.\<close>

lemma manager_init_once:
  "manager_init E False p s = Some (rc, b, p', s') \<Longrightarrow> rc = 0 \<and> manager_init E b p' s' = Some (0, b, p', s')"
  by (auto simp: manager_init_def split: bind_splits)

subsection \<open>The pages of a request\<close>

lemma unat_of_nat_u64: "n < 2 ^ 64 \<Longrightarrow> unat (of_nat n :: u64) = n"
  by (simp add: unat_of_nat)

lemma append_pages_law:
  assumes "k \<le> n" and "n < 2 ^ 50" and "p \<noteq> []"
  shows "append_pages p buf (of_nat (k * 4096)) (of_nat (n * 4096)) =
    append_all p (map (\<lambda>i. buf + of_nat (i * 4096)) [k..<n])"
  using assms
proof (induction "n - k" arbitrary: k p)
  case 0
  then have "k = n" by simp
  then show ?case by (subst append_pages.simps) simp
next
  case (Suc d)
  then have k: "k < n" by simp
  have bound: "n * 4096 < 2 ^ 64"
  proof -
    have "n * 4096 < 2 ^ 50 * 4096" using Suc.prems(2) by (intro mult_strict_right_mono) auto
    also have "(2 :: nat) ^ 50 * 4096 \<le> 2 ^ 64" by simp
    finally show ?thesis .
  qed
  have "unat (of_nat (i * 4096) :: u64) = i * 4096" if "i \<le> n" for i
  proof -
    have "i * 4096 < 2 ^ 64" using that bound by (meson le_less_trans mult_le_mono1)
    then show ?thesis by (rule unat_of_nat_u64)
  qed
  then have lt: "(of_nat (k * 4096) :: u64) < of_nat (n * 4096)"
    using k by (simp add: word_less_nat_alt del: of_nat_mult)
  have upd: "(of_nat (k * 4096) :: u64) + ucast PAGE_SIZE = of_nat (Suc k * 4096)"
    by (simp add: consts_simps)
  obtain p' where p': "append_pio True p (buf + of_nat (k * 4096)) = Some p'" "p' \<noteq> []"
    using Suc.prems(3) by (simp add: append_pio_law)
  have "append_pages p buf (of_nat (k * 4096)) (of_nat (n * 4096)) =
      append_pages p' buf (of_nat (Suc k * 4096)) (of_nat (n * 4096))"
    using lt p'(1) upd by (subst append_pages.simps) (simp add: add.commute)
  also have "\<dots> = append_all p' (map (\<lambda>i. buf + of_nat (i * 4096)) [Suc k..<n])"
    using Suc.hyps(1) [of "Suc k" p'] Suc.hyps(2) k Suc.prems(2) p'(2) by simp
  also have "\<dots> = append_all p (map (\<lambda>i. buf + of_nat (i * 4096)) [k..<n])"
    using p'(1) k by (simp add: upt_conv_Cons)
  finally show ?case .
qed

text \<open>The request that the loop builds: one node per append behind the head.\<close>

lemma fio_request_law:
  assumes "k \<le> n" and "n < 2 ^ 50" and "io_buflen u = of_nat (n * 4096)"
  shows "\<exists>p. fio_request (of_nat (k * 4096)) op u = Some p \<and> length p = 1 + (n - k) \<and>
    map pio_buffer p = io_xfer_buf u # map (\<lambda>i. io_xfer_buf u + of_nat (i * 4096)) [k..<n] \<and>
    pio_path (hd p) = io_file_name u \<and> pio_page_index (hd p) = ucast (drop_bit 12 (io_offset u)) \<and>
    pio_operation (hd p) = op \<and> pio_cnt (hd p) = (if io_buflen u = 4096 then 1 else 8)"
proof -
  let ?x = "\<lparr>pio_path = io_file_name u, pio_fd = io_fd u, pio_page_index = ucast (drop_bit 12 (io_offset u)),
    pio_operation = op, pio_buffer = io_xfer_buf u, pio_cnt = (if io_buflen u = 4096 then 1 else 8)\<rparr>"
  let ?bs = "map (\<lambda>i. io_xfer_buf u + of_nat (i * 4096)) [k..<n]"
  have "fio_request (of_nat (k * 4096)) op u = append_all [?x] ?bs"
    using append_pages_law [OF assms(1,2), of "[?x]" "io_xfer_buf u"] assms(3)
    by (simp add: fio_request_def create_pio_def)
  moreover have "map pio_buffer ([?x] @ map (\<lambda>i. ?x\<lparr>pio_page_index := pio_page_index ?x + 1 + of_nat i,
      pio_buffer := ?bs ! i\<rparr>) [0..<length ?bs]) = io_xfer_buf u # ?bs"
    by (auto simp: comp_def intro: nth_equalityI)
  ultimately show ?thesis
    using append_all_law [of "[?x]" ?bs] by simp
qed

subsection \<open>Properties\<close>

definition sample_unit :: "u64 \<Rightarrow> io_u" where
  "sample_unit n = \<lparr>io_ddir = DDIR_WRITE, io_file_name = ''f'', io_fd = 3, io_offset = 32768,
     io_buflen = n, io_xfer_buf = 65536\<rparr>"

text \<open>
  The tester engine turns an I/O unit of \<open>n \<ge> 1\<close> pages into a request whose nodes are
  exactly the \<open>n\<close> pages of the transfer buffer, in order, for the file and page of the unit.
\<close>

theorem tester_request_covers:
  assumes "1 \<le> n" and "n < 2 ^ 50" and "io_buflen u = of_nat (n * 4096)"
  shows "\<exists>p. fio_request (ucast PAGE_SIZE) op u = Some p \<and>
    map pio_buffer p = map (\<lambda>i. io_xfer_buf u + of_nat (i * 4096)) [0..<n] \<and>
    pio_path (hd p) = io_file_name u \<and> pio_page_index (hd p) = ucast (drop_bit 12 (io_offset u)) \<and>
    pio_operation (hd p) = op"
proof -
  have start: "(ucast PAGE_SIZE :: u64) = of_nat (1 * 4096)" by (simp add: consts_simps)
  have "map (\<lambda>i. io_xfer_buf u + of_nat (i * 4096)) [0..<n] =
      io_xfer_buf u # map (\<lambda>i. io_xfer_buf u + of_nat (i * 4096)) [1..<n]"
    using assms(1) by (simp add: upt_conv_Cons)
  then show ?thesis
    using fio_request_law [OF assms, of op] unfolding start by auto
qed

theorem tester_request_covers_witness:
  "\<exists>p. fio_request (ucast PAGE_SIZE) WRITE (sample_unit 8192) = Some p \<and> map pio_buffer p = [65536, 69632]"
  using tester_request_covers [of 2 "sample_unit 8192" WRITE] by (auto simp: sample_unit_def upt_rec)

text \<open>
  The manager engine starts its loop at offset 0, so a unit of 32 KiB becomes a
  request whose I/O vector has the first page of the buffer twice and lacks the last: a write puts
  every page but the first one page too far into the cache block, and the last is lost.
\<close>

theorem manager_repeats_first_page:
  assumes "io_buflen u = 32768"
  shows "\<exists>p. fio_request 0 op u = Some p \<and> pio_cnt (hd p) = 8 \<and>
    pio_to_iovec 8 p = Some (page_vec (io_xfer_buf u) # map (\<lambda>i. page_vec (io_xfer_buf u + of_nat (i * 4096))) [0..<7])"
proof -
  have "io_buflen u = of_nat (8 * 4096)" by (simp add: assms)
  then obtain p where p: "fio_request (of_nat (0 * 4096)) op u = Some p" "length p = 1 + (8 - 0)"
      "map pio_buffer p = io_xfer_buf u # map (\<lambda>i. io_xfer_buf u + of_nat (i * 4096)) [0..<8]"
      "pio_cnt (hd p) = (if io_buflen u = 4096 then 1 else 8)"
    using fio_request_law [of 0 8 u op] by auto
  have "map (page_vec \<circ> pio_buffer) (take 8 p) = map page_vec (take 8 (map pio_buffer p))"
    by (simp only: take_map list.map_comp)
  also have "\<dots> = page_vec (io_xfer_buf u) # map (\<lambda>i. page_vec (io_xfer_buf u + of_nat (i * 4096))) [0..<7]"
    unfolding p(3) by (simp add: upt_rec)
  finally show ?thesis
    using p(1,2,4) assms by (simp add: pio_to_iovec_law)
qed

theorem manager_repeats_first_page_witness:
  "\<exists>p. fio_request 0 WRITE (sample_unit 32768) = Some p \<and>
    (\<exists>vs. pio_to_iovec 8 p = Some (page_vec 65536 # page_vec 65536 # vs))"
proof -
  have "io_buflen (sample_unit 32768) = 32768" by (simp add: sample_unit_def)
  from manager_repeats_first_page [OF this, of WRITE] show ?thesis
    by (auto simp: sample_unit_def upt_rec)
qed

end
