(* ===== verification/Clients.thy ===== *)
theory Clients
  imports Printing
begin

text \<open>
  The client programs that come with the library: the command line client and server of
  \<^verbatim>\<open>examples/8_command_line.c\<close>, of which \<^verbatim>\<open>testing.c\<close> is a copy, and the stress tests
  \<^verbatim>\<open>examples/5_submit_pio_4k.c\<close> and \<^verbatim>\<open>examples/6_submit_pio_32k.c\<close>. \<open>R n\<close> is the result of
  call \<open>n\<close> of \<open>rand\<close>; the bytes that \<open>memset\<close> puts into the buffer and the output
  are not modelled. DMA buffers are given. \<open>others\<close> is what the worker, in whole passes, and other
  users do to the cache between two requests or commands; \<open>users\<close> is what users do to the mapping
  while an exiting administrator waits for its worker.
\<close>

subsection \<open>The command line\<close>

text \<open>\<open>send_pio\<close> of \<^verbatim>\<open>8_command_line.c\<close>; the third number is drawn for the pattern of a write.\<close>

definition send_pio :: "'w driver \<Rightarrow> process \<Rightarrow> addr \<Rightarrow> (nat \<Rightarrow> nat) \<Rightarrow> nat \<Rightarrow> shm \<Rightarrow> 'w \<Rightarrow> (nat \<times> shm \<times> 'w) option" where
  "send_pio S p buffer R n s w = (let
     page_index = of_nat (R n mod 24);
     operation = (if R (n + 1) mod 2 \<noteq> 0 then READ else WRITE);
     n = (if operation = WRITE then n + 3 else n + 2)
   in do {
     (rc, s, w) \<leftarrow> submit_pio S p s (create_pio True ''testfile'' 0 page_index operation buffer 1) w;
     Some (n, s, w)
   })"

text \<open>
  \<open>fgets\<close> with room for \<open>n\<close> characters reads at most \<open>n - 1\<close>, up to the end of the line, which it
  keeps. At the end of the input it leaves the buffer alone; at first the buffer has no value.
\<close>

fun get_line :: "nat \<Rightarrow> cstring \<Rightarrow> cstring \<times> cstring" where
  "get_line 0 s = ([], s)"
| "get_line (Suc n) [] = ([], [])"
| "get_line (Suc n) (c # s) = (if c = CHR 0x0A then ([c], s) else let (l, r) = get_line n s in (c # l, r))"

definition fgets :: "cstring option \<Rightarrow> nat \<Rightarrow> cstring \<Rightarrow> cstring option \<times> cstring" where
  "fgets input n stdin = (if stdin = [] then (input, []) else let (l, r) = get_line (n - 1) stdin in (Some l, r))"

text \<open>\<open>char input[100]\<close>\<close>

definition INPUT_SIZE :: nat where "INPUT_SIZE = 100"

text \<open>\<open>input[strcspn(input, "\n")] = 0\<close>; the string also ends at a zero that was read.\<close>

definition chomp :: "cstring \<Rightarrow> cstring" where
  "chomp l = takeWhile (\<lambda>c. c \<noteq> CHR 0x0A \<and> c \<noteq> CHR 0x00) l"

text \<open>What the worker and other users do to the cache of a process.\<close>

definition meanwhile :: "(cache \<Rightarrow> cache) \<Rightarrow> process \<Rightarrow> shm \<Rightarrow> shm" where
  "meanwhile others p s = (case shared_cache p of None \<Rightarrow> s | Some i \<Rightarrow> put_cache i (others (shm_objs s i)) s)"

partial_function (option) console_loop :: "'w driver \<Rightarrow> (cache \<Rightarrow> cache) \<Rightarrow> process \<Rightarrow> addr \<Rightarrow> (nat \<Rightarrow> nat) \<Rightarrow> nat \<Rightarrow>
    cstring option \<Rightarrow> cstring \<Rightarrow> shm \<Rightarrow> 'w \<Rightarrow> (shm \<times> 'w) option" where
  "console_loop S others p buf R n input stdin s w = do {
     (input, stdin) \<leftarrow> Some (fgets input INPUT_SIZE stdin);
     line \<leftarrow> map_option chomp input;
     s \<leftarrow> Some (meanwhile others p s);
     if line = ''exit'' then Some (s, w)
     else if line = ''send'' then do {
       (n, s, w) \<leftarrow> send_pio S p buf R n s w;
       console_loop S others p buf R n (Some line) stdin s w
     }
     else if line = ''info'' then do {
       (out, s) \<leftarrow> info_ssd_cache (\<lambda>a b. []) p s;
       console_loop S others p buf R n (Some line) stdin s w
     }
     else console_loop S others p buf R n (Some line) stdin s w
   }"

definition client :: "'w driver \<Rightarrow> platform \<Rightarrow> (cache \<Rightarrow> cache) \<Rightarrow> addr \<Rightarrow> (nat \<Rightarrow> nat) \<Rightarrow> cstring \<Rightarrow> process \<Rightarrow> shm \<Rightarrow> 'w \<Rightarrow>
    (process \<times> shm \<times> 'w) option" where
  "client S E others buf R stdin p s w = do {
     (rc, p, s) \<leftarrow> link_ssd_cache E p s;
     if rc \<noteq> 0 then Some (p, s, w)
     else do {
       (s, w) \<leftarrow> console_loop S others p buf R 0 None stdin s w;
       (rc, p, s) \<leftarrow> unlink_ssd_cache E p s;
       Some (p, s, w)
     }
   }"

definition server :: "'w driver \<Rightarrow> platform \<Rightarrow> (cache \<Rightarrow> cache) \<Rightarrow> (nat \<Rightarrow> mapping \<Rightarrow> mapping) \<Rightarrow> addr \<Rightarrow> (nat \<Rightarrow> nat) \<Rightarrow>
    cstring \<Rightarrow> process \<Rightarrow> shm \<Rightarrow> 'w \<Rightarrow> (process \<times> shm \<times> 'w) option" where
  "server S E others users buf R stdin p s w = do {
     (p, s, w) \<leftarrow> force_exit_ssd_cache S E users p s w;
     (rc, p, s) \<leftarrow> init_ssd_cache E p s;
     if rc \<noteq> 0 then Some (p, s, w)
     else do {
       (s, w) \<leftarrow> console_loop S others p buf R 0 None stdin s w;
       (rc, p, s, w) \<leftarrow> exit_ssd_cache S E others users p s w;
       Some (p, s, w)
     }
   }"

definition command_line_main :: "'w driver \<Rightarrow> platform \<Rightarrow> (cache \<Rightarrow> cache) \<Rightarrow> (nat \<Rightarrow> mapping \<Rightarrow> mapping) \<Rightarrow> addr \<Rightarrow>
    (nat \<Rightarrow> nat) \<Rightarrow> cstring list \<Rightarrow> cstring \<Rightarrow> process \<Rightarrow> shm \<Rightarrow> 'w \<Rightarrow> (int \<times> process \<times> shm \<times> 'w) option" where
  "command_line_main S E others users buf R argv stdin p s w =
     (if length argv < 2 then Some (1, p, s, w)
      else if argv ! 1 = ''client'' then do { r \<leftarrow> client S E others buf R stdin p s w; Some (0, r) }
      else if argv ! 1 = ''server'' then do { r \<leftarrow> server S E others users buf R stdin p s w; Some (0, r) }
      else Some (1, p, s, w))"

subsection \<open>The stress tests\<close>

definition EXCEPT_HIT_RATIO :: nat where "EXCEPT_HIT_RATIO = 200"

text \<open>\<open>(CACHE_BLOCK_NUMBER * CACHE_BLOCK_SIZE * 100ull) / (1024 * EXCEPT_HIT_RATIO * 4ull)\<close>\<close>

definition MAX_PAGE_INDEX :: nat where
  "MAX_PAGE_INDEX = unat CACHE_BLOCK_NUMBER * unat CACHE_BLOCK_SIZE * 100 div (1024 * EXCEPT_HIT_RATIO * 4)"

definition send_pio_4k :: "'w driver \<Rightarrow> process \<Rightarrow> addr \<Rightarrow> (nat \<Rightarrow> nat) \<Rightarrow> nat \<Rightarrow> shm \<Rightarrow> 'w \<Rightarrow> (nat \<times> shm \<times> 'w) option" where
  "send_pio_4k S p buffer R n s w = (let
     page_index = of_nat (R n mod MAX_PAGE_INDEX);
     operation = (if R (n + 1) mod 2 \<noteq> 0 then READ else WRITE);
     n = (if operation = WRITE then n + 3 else n + 2)
   in do {
     (rc, s, w) \<leftarrow> submit_pio S p s (create_pio True ''testfile'' 0 page_index operation buffer 1) w;
     Some (n, s, w)
   })"








subsection \<open>What requests keep\<close>

text \<open>The geometry and what the worker relies on between two of its passes.\<close>

definition sound :: "cache \<Rightarrow> bool" where
  "sound c \<longleftrightarrow> cache_geometry c \<and> worker_ok (cache_map c)"

text \<open>From \<open>s\<close> to \<open>s'\<close> only the mapping of cache \<open>i\<close> changed, and it is still sound.\<close>

definition kept :: "nat \<Rightarrow> shm \<Rightarrow> shm \<Rightarrow> bool" where
  "kept i s s' \<longleftrightarrow> shm_name s' = shm_name s \<and> shm_next s' = shm_next s \<and>
     cache_state (shm_objs s' i) = cache_state (shm_objs s i) \<and> (sound (shm_objs s i) \<longrightarrow> sound (shm_objs s' i))"

lemma kept_refl [simp]: "kept i s s"
  by (simp add: kept_def)

lemma kept_trans: "kept i s s' \<Longrightarrow> kept i s' s'' \<Longrightarrow> kept i s s''"
  by (simp add: kept_def)

lemma submit_kept:
  assumes "answers S" and "shared_cache p = Some i" and "st_running (cache_state (shm_objs s i))"
    and "sound (shm_objs s i)" and "request_ok io" and "pio_operation (hd io) \<noteq> DISCARD"
    and "length (pio_path (hd io)) < MAX_PATH_SIZE"
  shows "\<exists>rc s' w'. submit_pio (logged S) p s io w = Some (rc, s', w') \<and> kept i s s'"
proof -
  let ?c = "shm_objs s i"
  have inv: "cache_geometry ?c" "map_inv {} (cache_map ?c)" "worker_ok (cache_map ?c)"
    using assms(4) by (simp_all add: sound_def worker_ok_def)
  obtain rc m' w' where r: "submit_to_target (logged S) ?c io w = Some (rc, ?c\<lparr>cache_map := m'\<rparr>, w')" "map_inv {} m'"
      "view_of m' = a_serve (hd io) (rc = 0) (view_of (cache_map ?c))"
    using submit_law [OF assms(1) inv(1,2) assms(5,6), of "fst w" "snd w"] by auto
  have "v_shift (view_of m') = v_shift (view_of (cache_map ?c))" by (simp only: r(3) a_serve_shift)
  then have "cache_geometry (?c\<lparr>cache_map := m'\<rparr>)"
    using inv(1) by (simp add: cache_geometry_def view_shift)
  then have "sound (?c\<lparr>cache_map := m'\<rparr>)"
    using serve_worker_ok [OF inv(3) r(2,3) assms(7)] by (simp add: sound_def)
  then have "kept i s (put_cache i (?c\<lparr>cache_map := m'\<rparr>) s)" by (simp add: kept_def put_cache_def)
  moreover have "io \<noteq> []" using assms(5) by (auto simp: request_ok_def)
  ultimately show ?thesis using assms(2,3) r(1) by (simp add: submit_pio_def)
qed

lemma page_request_ok: "request_ok (create_pio True ''testfile'' 0 page op buf 1)"
  using page_in_block [of page] by (simp add: request_ok_def create_pio_def check_pio_law consts_simps)

lemma send_kept:
  assumes "answers S" and "shared_cache p = Some i" and "st_running (cache_state (shm_objs s i))"
    and "sound (shm_objs s i)"
  shows "\<exists>n' s' w'. send_pio (logged S) p buf R n s w = Some (n', s', w') \<and> kept i s s'"
    and "\<exists>n' s' w'. send_pio_4k (logged S) p buf R n s w = Some (n', s', w') \<and> kept i s s'"
proof -
  have one: "\<exists>rc s' w'. submit_pio (logged S) p s (create_pio True ''testfile'' 0 page (if b then READ else WRITE) buf 1) w =
      Some (rc, s', w') \<and> kept i s s'" for page b
    by (rule submit_kept [OF assms page_request_ok]) (simp_all add: create_pio_def consts_simps)
  show "\<exists>n' s' w'. send_pio (logged S) p buf R n s w = Some (n', s', w') \<and> kept i s s'"
    using one [of "of_nat (R n mod 24)" "R (n + 1) mod 2 \<noteq> 0"] by (auto simp: send_pio_def Let_def)
  show "\<exists>n' s' w'. send_pio_4k (logged S) p buf R n s w = Some (n', s', w') \<and> kept i s s'"
    using one [of "of_nat (R n mod MAX_PAGE_INDEX)" "R (n + 1) mod 2 \<noteq> 0"] by (auto simp: send_pio_4k_def Let_def)
qed




lemma kept_running: "kept i s s' \<Longrightarrow> st_running (cache_state (shm_objs s' i)) = st_running (cache_state (shm_objs s i))"
  by (simp add: kept_def)

lemma kept_sound: "kept i s s' \<Longrightarrow> sound (shm_objs s i) \<Longrightarrow> sound (shm_objs s' i)"
  by (simp add: kept_def)

text \<open>Between two requests the worker and others may do what keeps the cache sound and its state.\<close>

definition quiet :: "(cache \<Rightarrow> cache) \<Rightarrow> bool" where
  "quiet others \<longleftrightarrow> (\<forall>c. cache_state (others c) = cache_state c \<and> (sound c \<longrightarrow> sound (others c)))"

lemma meanwhile_kept: "quiet others \<Longrightarrow> shared_cache p = Some i \<Longrightarrow> kept i s (meanwhile others p s)"
  by (simp add: quiet_def kept_def meanwhile_def put_cache_def)

lemma info_returns:
  assumes "shared_cache p = Some i" and "st_running (cache_state (shm_objs s i))" and "sound (shm_objs s i)"
  shows "\<exists>out. info_ssd_cache percent p s = Some (out, s)"
  using info_cache_returns [OF assms(1,2)] assms(3) by (auto simp: sound_def worker_ok_def)

subsection \<open>The console\<close>

lemma get_line_shorter: "s \<noteq> [] \<Longrightarrow> n \<noteq> 0 \<Longrightarrow> length (snd (get_line n s)) < length s"
proof (induction n s rule: get_line.induct)
  case (3 n c s)
  have "length (snd (get_line n s)) \<le> length s" for n and s :: cstring
    by (induction n s rule: get_line.induct) (auto simp: case_prod_beta Let_def)
  then show ?case by (auto simp: case_prod_beta Let_def less_Suc_eq_le)
qed simp_all

text \<open>The pieces in which the loop reads its input: lines, and of long lines at most 99 characters at a time.\<close>

function pieces :: "cstring \<Rightarrow> cstring list" where
  "pieces s = (if s = [] then [] else fst (get_line (INPUT_SIZE - 1) s) # pieces (snd (get_line (INPUT_SIZE - 1) s)))"
  by auto
termination
  by (relation "measure length") (auto simp: INPUT_SIZE_def intro: get_line_shorter)

declare pieces.simps [simp del]

lemma fgets_law:
  "pieces stdin = l # ls \<Longrightarrow> \<exists>r. fgets input INPUT_SIZE stdin = (Some l, r) \<and> pieces r = ls"
  "pieces stdin = [] \<Longrightarrow> fgets input INPUT_SIZE stdin = (input, stdin)"
  using pieces.simps [of stdin] by (auto simp: fgets_def case_prod_beta split: if_splits)

lemma console_returns:
  assumes "answers S" and "quiet others" and "shared_cache p = Some i" and "st_running (cache_state (shm_objs s i))"
    and "sound (shm_objs s i)" and "\<exists>l \<in> set (pieces stdin). chomp l = ''exit''"
  shows "\<exists>s' w'. console_loop (logged S) others p buf R n input stdin s w = Some (s', w') \<and> kept i s s'"
  using assms(4-6)
proof (induction "pieces stdin" arbitrary: n input stdin s w)
  case (Cons l ls)
  let ?s = "meanwhile others p s"
  have k: "kept i s ?s" by (rule meanwhile_kept [OF assms(2,3)])
  have ok: "st_running (cache_state (shm_objs ?s i))" "sound (shm_objs ?s i)"
    using kept_running [OF k] kept_sound [OF k Cons.prems(2)] Cons.prems(1) by simp_all
  obtain r where get: "fgets input INPUT_SIZE stdin = (Some l, r)" and rest: "ls = pieces r"
    using fgets_law(1) [OF Cons.hyps(2) [symmetric]] by blast
  note unfold = console_loop.simps [of "logged S" others p buf R n input stdin s w]
  show ?case
  proof (cases "chomp l = ''exit''")
    case True
    then show ?thesis using k by (subst unfold) (simp add: get)
  next
    case False
    then have more: "\<exists>l \<in> set (pieces r). chomp l = ''exit''"
      using Cons.prems(3) by (simp add: Cons.hyps(2) [symmetric] rest [symmetric])
    show ?thesis
    proof (cases "chomp l = ''send''")
      case True
      obtain n1 s1 w1 where 1: "send_pio (logged S) p buf R n ?s w = Some (n1, s1, w1)" "kept i ?s s1"
        using send_kept(1) [OF assms(1,3) ok] by blast
      have ok1: "st_running (cache_state (shm_objs s1 i))" "sound (shm_objs s1 i)"
        using kept_running [OF 1(2)] kept_sound [OF 1(2) ok(2)] ok(1) by simp_all
      obtain s2 w2 where "console_loop (logged S) others p buf R n1 (Some (chomp l)) r s1 w1 = Some (s2, w2)" "kept i s1 s2"
        using Cons.hyps(1) [OF rest ok1 more] by blast
      moreover have "kept i s s2" by (rule kept_trans [OF k kept_trans [OF 1(2) \<open>kept i s1 s2\<close>]])
      ultimately show ?thesis using True 1(1) by (subst unfold) (simp add: get)
    next
      case other: False
      obtain out where "info_ssd_cache (\<lambda>a b. []) p ?s = Some (out, ?s)"
        using info_returns [OF assms(3) ok] by blast
      moreover obtain s2 w2 where "console_loop (logged S) others p buf R n (Some (chomp l)) r ?s w = Some (s2, w2)" "kept i ?s s2"
        using Cons.hyps(1) [OF rest ok more] by blast
      moreover have "kept i s s2" by (rule kept_trans [OF k \<open>kept i ?s s2\<close>])
      ultimately show ?thesis
        using False other by (cases "chomp l = ''info''"; subst unfold) (simp_all add: get)
    qed
  qed
qed (simp add: pieces.simps)

lemma chomp_chomp: "chomp (chomp l) = chomp l"
  by (simp add: chomp_def takeWhile_idem)

lemma console_needs_exit:
  assumes "console_loop S others p buf R n input stdin s w = Some r"
  shows "\<exists>l \<in> set (pieces stdin) \<union> set_option input. chomp l = ''exit''"
  using assms
proof (rule console_loop.raw_induct [where P = "\<lambda>S others p buf R n input stdin s w r.
    \<exists>l \<in> set (pieces stdin) \<union> set_option input. chomp l = ''exit''", rotated])
  fix f and S :: "'a driver" and others p buf R n input stdin s and w :: 'a and r
  assume IH: "\<And>S others p buf R n input stdin s w r. f S others p buf R n input stdin s w = Some r \<Longrightarrow>
      \<exists>l \<in> set (pieces stdin) \<union> set_option input. chomp l = ''exit''"
    and eq: "do {
       (input, stdin) \<leftarrow> Some (fgets input INPUT_SIZE stdin);
       line \<leftarrow> map_option chomp input;
       s \<leftarrow> Some (meanwhile others p s);
       if line = ''exit'' then Some (s, w)
       else if line = ''send'' then do {
         (n, s, w) \<leftarrow> send_pio S p buf R n s w;
         f S others p buf R n (Some line) stdin s w
       }
       else if line = ''info'' then do {
         (out, s) \<leftarrow> info_ssd_cache (\<lambda>a b. []) p s;
         f S others p buf R n (Some line) stdin s w
       }
       else f S others p buf R n (Some line) stdin s w
     } = Some r"
  obtain i rest where i: "fgets input INPUT_SIZE stdin = (i, rest)" by (cases "fgets input INPUT_SIZE stdin")
  then obtain l where l: "fgets input INPUT_SIZE stdin = (Some l, rest)" using eq by (cases i) simp_all
  then have mem: "l \<in> set (pieces stdin) \<union> set_option input" "set (pieces rest) \<subseteq> set (pieces stdin)"
    using fgets_law(1) [of stdin _ _ input] fgets_law(2) [of stdin input] by (cases "pieces stdin"; fastforce)+
  show "\<exists>l \<in> set (pieces stdin) \<union> set_option input. chomp l = ''exit''"
  proof (cases "chomp l = ''exit''")
    case True
    then show ?thesis using mem(1) by blast
  next
    case False
    then have "\<exists>n s w. f S others p buf R n (Some (chomp l)) rest s w = Some r"
      using eq l by (cases "chomp l = ''send''"; cases "chomp l = ''info''") (auto split: bind_splits)
    then have "\<exists>l' \<in> set (pieces rest) \<union> {chomp l}. chomp l' = ''exit''"
      using IH by fastforce
    then show ?thesis using False mem by (auto simp: chomp_chomp)
  qed
qed

subsection \<open>The stress runs\<close>



lemma built_sound: "built E k c \<Longrightarrow> sound c"
  by (auto simp: built_def sound_def worker_ok_def view_inv_def short_paths_def) (simp_all add: empty_view_def)


subsection \<open>Properties\<close>

text \<open>
  C36: on a running cache with a device that answers, on a platform where joining succeeds (the
  shared memory can be opened and mapped, \<open>init_spdk\<close> returns 0) and so does unmapping, and with a
  worker and other users that keep the cache sound and its user count, the command line client
  returns exactly when one of the pieces in which \<open>fgets\<close> reads its input, lines or at most 99
  characters of a longer line, is \<open>exit\<close>: at the end of the input \<open>fgets\<close> fails, the buffer keeps the
  last piece, and the loop repeats that command for ever. When it returns, the cache is still sound,
  and its user has been counted and uncounted.
\<close>

theorem client_session:
  assumes "answers S" and "shm_works E" and "munmap_ok E" and "shm_name s = Some i"
    and "st_running (cache_state (shm_objs s i))" and "locked (st_lock (cache_state (shm_objs s i))) = 0"
    and "fst (init_spdk E (proc_target p)) = 0" and "sound (shm_objs s i)" and "quiet others"
  shows "if \<exists>l \<in> set (pieces stdin). chomp l = ''exit''
    then \<exists>p' s' w'. client (logged S) E others buf R stdin p s w = Some (p', s', w') \<and> shared_cache p' = None \<and>
      shm_name s' = Some i \<and> cache_state (shm_objs s' i) = cache_state (shm_objs s i) \<and> sound (shm_objs s' i)
    else client (logged S) E others buf R stdin p s w = None"
proof -
  obtain p1 s1 where 1: "link_ssd_cache E p s = Some (0, p1, s1)" "shared_cache p1 = Some i"
      "cache_state (shm_objs s1 i) = (cache_state (shm_objs s i))\<lparr>st_count := st_count (cache_state (shm_objs s i)) + 1\<rparr>"
      "cache_map (shm_objs s1 i) = cache_map (shm_objs s i)" "cache_dev (shm_objs s1 i) = cache_dev (shm_objs s i)"
      "shm_name s1 = Some i"
    using join_law [OF assms(2,4-7)] by blast
  have snd1: "sound (shm_objs s1 i)" and run1: "st_running (cache_state (shm_objs s1 i))"
    using assms(5,8) 1(3-5) by (simp_all add: sound_def cache_geometry_def)
  show ?thesis
  proof (cases "\<exists>l \<in> set (pieces stdin). chomp l = ''exit''")
    case True
    obtain s2 w2 where 2: "console_loop (logged S) others p1 buf R 0 None stdin s1 w = Some (s2, w2)" "kept i s1 s2"
      using console_returns [OF assms(1,9) 1(2) run1 snd1 True] by blast
    have state2: "cache_state (shm_objs s2 i) = cache_state (shm_objs s1 i)" "shm_name s2 = shm_name s1"
      using 2(2) by (simp_all add: kept_def)
    have run2: "st_running (cache_state (shm_objs s2 i))" "locked (st_lock (cache_state (shm_objs s2 i))) = 0"
      using assms(5,6) by (simp_all add: state2 1(3))
    obtain p3 s3 where 3: "unlink_ssd_cache E p1 s2 = Some (0, p3, s3)" "shared_cache p3 = None"
        "cache_state (shm_objs s3 i) = (cache_state (shm_objs s2 i))\<lparr>st_count := st_count (cache_state (shm_objs s2 i)) - 1\<rparr>"
        "cache_map (shm_objs s3 i) = cache_map (shm_objs s2 i)" "cache_dev (shm_objs s3 i) = cache_dev (shm_objs s2 i)"
        "shm_name s3 = shm_name s2"
      using leave_law [OF assms(3) 1(2) run2] by blast
    have "sound (shm_objs s3 i)"
      using kept_sound [OF 2(2) snd1] 3(4,5) by (simp add: sound_def cache_geometry_def)
    moreover have "cache_state (shm_objs s3 i) = cache_state (shm_objs s i)"
      by (simp add: 3(3) state2 1(3))
    moreover have "client (logged S) E others buf R stdin p s w = Some (p3, s3, w2)"
      by (simp add: client_def 1(1) 2(1) 3(1))
    moreover have "shm_name s3 = Some i" by (simp only: 3(6) state2(2) 1(6))
    ultimately have "client (logged S) E others buf R stdin p s w = Some (p3, s3, w2) \<and> shared_cache p3 = None \<and>
        shm_name s3 = Some i \<and> cache_state (shm_objs s3 i) = cache_state (shm_objs s i) \<and> sound (shm_objs s3 i)"
      using 3(2) by (simp only: simp_thms)
    then show ?thesis unfolding if_P [OF True] by blast
  next
    case False
    have "console_loop (logged S) others p1 buf R 0 None stdin s1 w = None"
    proof (cases "console_loop (logged S) others p1 buf R 0 None stdin s1 w")
      case (Some r)
      then show ?thesis using console_needs_exit [OF Some] False by simp
    qed
    then show ?thesis
      unfolding if_not_P [OF False] by (simp add: client_def 1(1))
  qed
qed

text \<open>The line \<open>send\<close>, then 99 other characters and \<open>exit\<close> without an end of the line.\<close>

definition sample_input :: cstring where
  "sample_input = ''send'' @ [CHR 0x0A] @ replicate 99 (CHR ''x'') @ ''exit''"

lemma pieces_simps:
  "pieces [] = []" "s \<noteq> [] \<Longrightarrow> pieces s = fst (get_line 99 s) # pieces (snd (get_line 99 s))"
  by (simp_all add: pieces.simps [of s] pieces.simps [of "[]"] INPUT_SIZE_def)

lemma sample_pieces: "pieces sample_input = [''send'' @ [CHR 0x0A], replicate 99 (CHR ''x''), ''exit'']"
proof -
  have long: "get_line n (replicate n c @ s) = (replicate n c, s)" if "c \<noteq> CHR 0x0A" for n c s
    using that by (induction n) simp_all
  have "get_line 99 sample_input = (''send'' @ [CHR 0x0A], replicate 99 (CHR ''x'') @ ''exit'')"
    by (simp add: sample_input_def numeral_eq_Suc)
  moreover have "get_line 99 (replicate 99 (CHR ''x'') @ ''exit'') = (replicate 99 (CHR ''x''), ''exit'')"
    by (rule long) simp
  moreover have "get_line 99 ''exit'' = (''exit'', [])" by (simp add: numeral_eq_Suc)
  ultimately show ?thesis
    using pieces_simps(2) [of sample_input] pieces_simps(2) [of "replicate 99 (CHR ''x'') @ ''exit''"]
      pieces_simps(2) [of "''exit''"] pieces_simps(1) by (simp add: sample_input_def)
qed

theorem client_session_witness:
  "\<exists>p s. init_ssd_cache good_platform new_process no_shm = Some (0, p, s) \<and>
    (\<exists>p' s' w'. client (logged fifo_device) good_platform (\<lambda>c. c) 4096 (\<lambda>n. n) sample_input new_process s
      (idle_device, []) = Some (p', s', w') \<and> st_count (cache_state (shm_objs s' 0)) = 0) \<and>
    client (logged fifo_device) good_platform (\<lambda>c. c) 4096 (\<lambda>n. n) ''send'' new_process s (idle_device, []) = None"
proof -
  obtain p s where i: "init_ssd_cache good_platform new_process no_shm = Some (0, p, s)" "shm_name s = Some 0"
      "cache_state (shm_objs s 0) = \<lparr>st_running = True, st_count = 0, st_lock = \<lparr>locked = 0\<rparr>\<rparr>" "sound (shm_objs s 0)"
    using good_init built_sound by blast
  have run: "st_running (cache_state (shm_objs s 0))" "locked (st_lock (cache_state (shm_objs s 0))) = 0"
    by (simp_all add: i(3))
  have dev: "fst (init_spdk good_platform (proc_target new_process)) = 0"
    by (simp add: init_spdk_usable(1) [OF good_platform_works(2)])
  have alone: "quiet (\<lambda>c. c)" by (simp add: quiet_def)
  note session = client_session [OF fifo_answers good_platform_works(1,3) i(2) run dev i(4) alone, where buf = 4096
      and R = "\<lambda>n. n" and w = "(idle_device, [])"]
  have "pieces ''send'' = [''send'']"
    using pieces_simps(2) [of "''send''"] pieces_simps(1) by (simp add: numeral_eq_Suc)
  then have ends: "\<exists>l \<in> set (pieces sample_input). chomp l = ''exit''"
      and ends_not: "\<not> (\<exists>l \<in> set (pieces ''send''). chomp l = ''exit'')"
    by (simp_all add: sample_pieces chomp_def)
  obtain p' s' w' where "client (logged fifo_device) good_platform (\<lambda>c. c) 4096 (\<lambda>n. n) sample_input new_process s
      (idle_device, []) = Some (p', s', w')" "cache_state (shm_objs s' 0) = cache_state (shm_objs s 0)"
    using session [of sample_input, unfolded if_P [OF ends]] by blast
  moreover have "client (logged fifo_device) good_platform (\<lambda>c. c) 4096 (\<lambda>n. n) ''send'' new_process s (idle_device, []) = None"
    by (rule session [of "''send''", unfolded if_not_P [OF ends_not]])
  moreover have "st_count (cache_state (shm_objs s 0)) = 0" by (simp add: i(3))
  ultimately show ?thesis using i(1) by metis
qed






text \<open>
  A server that starts while another one runs is meant to end it, but its pointer
  to the cache is null, so it only removes the name of the shared memory: the first cache and its
  worker go on, and a second cache with a second worker starts on the same device, each unaware
  of the blocks that the other uses.
\<close>

theorem second_server_second_worker:
  assumes "shm_works E" and "usable_device E ns" and "ns_sector_size ns = 2 ^ k" and "k \<le> 12"
    and "2 ^ 30 \<le> ns_size ns" and "shm_name s = Some i" and "i \<noteq> shm_next s" and "shared_cache q = None"
  shows "\<exists>q1 s1 q2 s2. force_exit_ssd_cache S E users q s w = Some (q1, s1, w) \<and> init_ssd_cache E q1 s1 = Some (0, q2, s2) \<and>
    shared_cache q2 = Some (shm_next s) \<and> built E k (shm_objs s2 (shm_next s)) \<and> shm_objs s2 i = shm_objs s i"
proof -
  let ?s1 = "s\<lparr>shm_name := None\<rparr>"
  have force: "force_exit_ssd_cache S E users q s w = Some (q, ?s1, w)"
    using assms(6,8) by (simp add: force_exit_ssd_cache_def shutdown_mg_worker_def unlink_shm_def)
  have "shm_name ?s1 = None" by simp
  from init_law [OF assms(1-5) this, of q] obtain q2 s2 where "init_ssd_cache E q ?s1 = Some (0, q2, s2)"
      "shared_cache q2 = Some (shm_next s)" "built E k (shm_objs s2 (shm_next s))" "shm_objs s2 i = shm_objs s i"
    using assms(7) by auto
  with force show ?thesis by blast
qed

theorem second_server_second_worker_witness:
  "\<exists>p s q1 s1 q2 s2. init_ssd_cache good_platform new_process no_shm = Some (0, p, s) \<and>
    force_exit_ssd_cache fifo_device good_platform (\<lambda>n m. m) new_process s idle_device = Some (q1, s1, idle_device) \<and>
    init_ssd_cache good_platform q1 s1 = Some (0, q2, s2) \<and>
    mg_worker (shm_objs s2 0) = 7 \<and> mg_worker (shm_objs s2 (shm_next s)) = 7"
proof -
  obtain p s where i: "init_ssd_cache good_platform new_process no_shm = Some (0, p, s)" "shm_name s = Some 0"
      "built good_platform 9 (shm_objs s 0)"
    using good_init by blast
  have next1: "0 \<noteq> shm_next s"
    using i(1) by (auto simp: init_ssd_cache_def alloc_shm_def no_shm_def put_cache_def Let_def split: if_splits prod.splits bind_splits)
  have q: "shared_cache new_process = None" by (simp add: new_process_def)
  obtain q1 s1 q2 s2 where "force_exit_ssd_cache fifo_device good_platform (\<lambda>n m. m) new_process s idle_device = Some (q1, s1, idle_device)"
      "init_ssd_cache good_platform q1 s1 = Some (0, q2, s2)" "built good_platform 9 (shm_objs s2 (shm_next s))"
      "shm_objs s2 0 = shm_objs s 0"
    using second_server_second_worker [OF good_platform_works(1,2) good_ns_works i(2) next1 q, of fifo_device "\<lambda>n m. m" idle_device] by blast
  moreover have "thread_id good_platform = 7" by (simp add: good_platform_def)
  ultimately show ?thesis using i(1,3) by (auto simp: built_def)
qed

end
