(* ===== verification/Spdk_Share.thy ===== *)
theory Spdk_Share
  imports Prelude
begin

text \<open>
  The multi-process test \<^verbatim>\<open>examples/7_spdk_share.c\<close>: a parent forks an administrator and
  three users and waits for them; they share a lock, a counter and two semaphores. One step is
  one access to the shared memory or to the device, a fork or the end of a wait; any process
  may take the next. The administrator leaves the device after all users have left it.

  The mutex in the shared memory has the default attributes, for which POSIX leaves its use by several
  processes undefined. The parameter \<open>works\<close> of the steps says whether the platform's mutex works
  all the same; if it does not, a lock may be taken while it is held, and nobody relies on getting it.
\<close>

subsection \<open>The processes\<close>

definition user_number :: nat where "user_number = 3"
definition test_time :: nat where "test_time = 30000"

datatype admin_pc = A_New | A_Link | A_Init | A_Post nat | A_Wait | A_Exit | A_Done

datatype user_pc = U_New | U_Link | U_Wait | U_Init | U_IO nat | U_Exit | U_Lock | U_Count | U_Store int | U_Check | U_Unlock | U_Done

datatype main_pc = M_Fork nat | M_Wait nat | M_Done

record share_lock =
  share_mutex :: bool
  sem_admin :: nat
  sem_user :: nat
  user_count :: int

record share = share_lock +
  main_at :: main_pc
  admin :: admin_pc
  users :: "nat \<Rightarrow> user_pc"

definition init_lock :: "'a share_lock_scheme \<Rightarrow> 'a share_lock_scheme" where
  "init_lock l = l\<lparr>share_mutex := False, user_count := 0, sem_admin := 0, sem_user := 0\<rparr>"

abbreviation set_user :: "nat \<Rightarrow> user_pc \<Rightarrow> share \<Rightarrow> share" where
  "set_user u pc s \<equiv> s\<lparr>users := (users s)(u := pc)\<rparr>"

text \<open>\<open>admin_func\<close>: after \<open>init_spdk\<close> a post for every user, then it waits for the last of them.\<close>

inductive admin_func :: "share \<Rightarrow> share \<Rightarrow> bool" for s :: share where
  link: "admin s = A_Link \<Longrightarrow> admin_func s (s\<lparr>admin := A_Init\<rparr>)"
| init: "admin s = A_Init \<Longrightarrow> admin_func s (s\<lparr>admin := A_Post 0\<rparr>)"
| post: "admin s = A_Post i \<Longrightarrow> i < user_number \<Longrightarrow>
    admin_func s (s\<lparr>sem_user := sem_user s + 1, admin := A_Post (i + 1)\<rparr>)"
| posted: "admin s = A_Post i \<Longrightarrow> \<not> i < user_number \<Longrightarrow> admin_func s (s\<lparr>admin := A_Wait\<rparr>)"
| wait: "admin s = A_Wait \<Longrightarrow> sem_admin s > 0 \<Longrightarrow> admin_func s (s\<lparr>sem_admin := sem_admin s - 1, admin := A_Exit\<rparr>)"
| exit: "admin s = A_Exit \<Longrightarrow> admin_func s (s\<lparr>admin := A_Done\<rparr>)"

text \<open>
  \<open>user_func\<close> of user \<open>u\<close>; a round of \<open>U_IO\<close> writes a block and reads it back, and the increment of the
  counter loads it (\<open>U_Count\<close>) and stores it (\<open>U_Store\<close>).
\<close>

inductive user_func :: "bool \<Rightarrow> nat \<Rightarrow> share \<Rightarrow> share \<Rightarrow> bool" for works :: bool and u :: nat and s :: share where
  link: "users s u = U_Link \<Longrightarrow> user_func works u s (set_user u U_Wait s)"
| wait: "users s u = U_Wait \<Longrightarrow> sem_user s > 0 \<Longrightarrow> user_func works u s (set_user u U_Init (s\<lparr>sem_user := sem_user s - 1\<rparr>))"
| init: "users s u = U_Init \<Longrightarrow> user_func works u s (set_user u (U_IO 0) s)"
| io: "users s u = U_IO i \<Longrightarrow> i < test_time \<Longrightarrow> user_func works u s (set_user u (U_IO (i + 1)) s)"
| io_end: "users s u = U_IO i \<Longrightarrow> \<not> i < test_time \<Longrightarrow> user_func works u s (set_user u U_Exit s)"
| exit: "users s u = U_Exit \<Longrightarrow> user_func works u s (set_user u U_Lock s)"
| lock: "users s u = U_Lock \<Longrightarrow> (works \<longrightarrow> \<not> share_mutex s) \<Longrightarrow> user_func works u s (set_user u U_Count (s\<lparr>share_mutex := True\<rparr>))"
| count: "users s u = U_Count \<Longrightarrow> user_func works u s (set_user u (U_Store (user_count s)) s)"
| store: "users s u = U_Store n \<Longrightarrow> user_func works u s (set_user u U_Check (s\<lparr>user_count := n + 1\<rparr>))"
| last: "users s u = U_Check \<Longrightarrow> user_count s = int user_number \<Longrightarrow>
    user_func works u s (set_user u U_Unlock (s\<lparr>sem_admin := sem_admin s + 1\<rparr>))"
| not_last: "users s u = U_Check \<Longrightarrow> user_count s \<noteq> int user_number \<Longrightarrow> user_func works u s (set_user u U_Unlock s)"
| unlock: "users s u = U_Unlock \<Longrightarrow> user_func works u s (set_user u U_Done (s\<lparr>share_mutex := False\<rparr>))"

text \<open>The children that have ended: \<open>wait\<close> returns once for each.\<close>

definition ended_children :: "share \<Rightarrow> nat" where
  "ended_children s = (if admin s = A_Done then 1 else 0) + (\<Sum>u<user_number. if users s u = U_Done then 1 else 0)"

text \<open>
  \<open>main\<close>, after it has allocated and initialised the lock: it forks the administrator and the
  users, waits for as many children, and destroys the lock and its shared memory. Forks are
  taken to succeed.
\<close>

inductive main_func :: "share \<Rightarrow> share \<Rightarrow> bool" for s :: share where
  fork_admin: "main_at s = M_Fork 0 \<Longrightarrow> main_func s (s\<lparr>admin := A_Link, main_at := M_Fork 1\<rparr>)"
| fork_user: "main_at s = M_Fork (Suc u) \<Longrightarrow> u < user_number \<Longrightarrow>
    main_func s (set_user u U_Link (s\<lparr>main_at := M_Fork (Suc (Suc u))\<rparr>))"
| forked: "main_at s = M_Fork (Suc user_number) \<Longrightarrow> main_func s (s\<lparr>main_at := M_Wait 0\<rparr>)"
| reap: "main_at s = M_Wait i \<Longrightarrow> i < user_number + 1 \<Longrightarrow> i < ended_children s \<Longrightarrow> main_func s (s\<lparr>main_at := M_Wait (i + 1)\<rparr>)"
| destroy: "main_at s = M_Wait i \<Longrightarrow> \<not> i < user_number + 1 \<Longrightarrow> main_func s (s\<lparr>main_at := M_Done\<rparr>)"

inductive share_step :: "bool \<Rightarrow> share \<Rightarrow> share \<Rightarrow> bool" for works :: bool where
  main: "main_func s t \<Longrightarrow> share_step works s t"
| admin: "admin_func s t \<Longrightarrow> share_step works s t"
| user: "u < user_number \<Longrightarrow> user_func works u s t \<Longrightarrow> share_step works s t"

definition share_start :: "share \<Rightarrow> bool" where
  "share_start s \<longleftrightarrow> init_lock s = s \<and> main_at s = M_Fork 0 \<and> admin s = A_New \<and> users s = (\<lambda>u. U_New)"


inductive_cases admin_funcE: "admin_func s t"
inductive_cases main_funcE: "main_func s t"

subsection \<open>The invariant\<close>

fun started :: "user_pc \<Rightarrow> nat" where
  "started U_New = 0" | "started U_Link = 0" | "started U_Wait = 0" | "started pc = 1"

fun counted :: "user_pc \<Rightarrow> nat" where
  "counted U_Check = 1" | "counted U_Unlock = 1" | "counted U_Done = 1" | "counted pc = 0"

fun critical :: "user_pc \<Rightarrow> nat" where
  "critical U_Count = 1" | "critical (U_Store n) = 1" | "critical U_Check = 1" | "critical U_Unlock = 1" | "critical pc = 0"

fun in_check :: "user_pc \<Rightarrow> nat" where
  "in_check U_Check = 1" | "in_check pc = 0"

text \<open>Steps that a process still has to take at most.\<close>

fun user_rank :: "user_pc \<Rightarrow> nat" where
  "user_rank U_New = test_time + 11" | "user_rank U_Link = test_time + 10" | "user_rank U_Wait = test_time + 9" | "user_rank U_Init = test_time + 8"
| "user_rank (U_IO i) = test_time - i + 7" | "user_rank U_Exit = 6" | "user_rank U_Lock = 5" | "user_rank U_Count = 4"
| "user_rank (U_Store n) = 3" | "user_rank U_Check = 2" | "user_rank U_Unlock = 1" | "user_rank U_Done = 0"

fun admin_rank :: "admin_pc \<Rightarrow> nat" where
  "admin_rank A_New = user_number + 6" | "admin_rank A_Link = user_number + 5" | "admin_rank A_Init = user_number + 4"
| "admin_rank (A_Post i) = user_number - i + 3" | "admin_rank A_Wait = 2" | "admin_rank A_Exit = 1" | "admin_rank A_Done = 0"

fun main_rank :: "main_pc \<Rightarrow> nat" where
  "main_rank (M_Fork k) = 2 * user_number + 6 - k" | "main_rank (M_Wait i) = user_number + 2 - i" | "main_rank M_Done = 0"

fun posts :: "admin_pc \<Rightarrow> nat" where
  "posts A_New = 0" | "posts A_Link = 0" | "posts A_Init = 0" | "posts (A_Post i) = i" | "posts pc = user_number"

fun left_wait :: "admin_pc \<Rightarrow> nat" where
  "left_wait A_Exit = 1" | "left_wait A_Done = 1" | "left_wait pc = 0"

definition tally :: "(user_pc \<Rightarrow> nat) \<Rightarrow> share \<Rightarrow> nat" where
  "tally f s = (\<Sum>u<user_number. f (users s u))"

text \<open>Who has been forked, and how many children were waited for.\<close>

definition main_inv :: "share \<Rightarrow> bool" where
  "main_inv s \<longleftrightarrow> (case main_at s of
     M_Fork k \<Rightarrow> k \<le> Suc user_number \<and> (admin s = A_New \<longleftrightarrow> k = 0) \<and> (\<forall>u < user_number. users s u = U_New \<longleftrightarrow> k \<le> Suc u)
   | M_Wait i \<Rightarrow> i \<le> ended_children s \<and> admin s \<noteq> A_New \<and> (\<forall>u < user_number. users s u \<noteq> U_New)
   | M_Done \<Rightarrow> ended_children s = Suc user_number)"

text \<open>With a mutex that works, one user at most is in the critical section, and the counter is exact.\<close>

definition lock_inv :: "share \<Rightarrow> bool" where
  "lock_inv s \<longleftrightarrow> user_count s = int (tally counted s) \<and> tally critical s = of_bool (share_mutex s) \<and>
     sem_user s + tally started s = posts (admin s) \<and> posts (admin s) \<le> user_number \<and>
     sem_admin s + left_wait (admin s) = of_bool (tally counted s = user_number \<and> tally in_check s = 0)"

definition stores_inv :: "share \<Rightarrow> bool" where
  "stores_inv s \<longleftrightarrow> (\<forall>u < user_number. \<forall>n. users s u = U_Store n \<longrightarrow> n = user_count s)"

text \<open>Without exclusion increments may get lost, but none is invented: the counter is a lower bound.\<close>

definition safe_inv :: "share \<Rightarrow> bool" where
  "safe_inv s \<longleftrightarrow> user_count s \<le> int (tally counted s) \<and>
     (\<forall>u < user_number. \<forall>n. users s u = U_Store n \<longrightarrow> n \<le> int (tally counted s)) \<and>
     (sem_admin s > 0 \<or> left_wait (admin s) > 0 \<longrightarrow> tally counted s = user_number)"

definition share_inv :: "bool \<Rightarrow> share \<Rightarrow> bool" where
  "share_inv works s \<longleftrightarrow> main_inv s \<and> safe_inv s \<and> (works \<longrightarrow> lock_inv s \<and> stores_inv s)"

definition share_rank :: "share \<Rightarrow> nat" where
  "share_rank s = main_rank (main_at s) + admin_rank (admin s) + tally user_rank s"

lemma tally_set_user:
  "u < user_number \<Longrightarrow> tally f (set_user u pc s) + f (users s u) = tally f s + f pc"
  unfolding tally_def using sum_upd [of u user_number f "users s" pc] by simp

lemma tally_other [simp]:
  "tally f (s\<lparr>sem_user := a\<rparr>) = tally f s" "tally f (s\<lparr>sem_admin := a\<rparr>) = tally f s"
  "tally f (s\<lparr>share_mutex := b\<rparr>) = tally f s" "tally f (s\<lparr>user_count := c\<rparr>) = tally f s"
  "tally f (s\<lparr>admin := d\<rparr>) = tally f s" "tally f (s\<lparr>main_at := e\<rparr>) = tally f s"
  by (simp_all add: tally_def)

lemma tally_member: "u < user_number \<Longrightarrow> f (users s u) \<le> tally f s"
  unfolding tally_def by (rule member_le_sum) simp_all

lemma tally_le: "(\<And>pc. f pc \<le> 1) \<Longrightarrow> tally f s \<le> user_number"
  unfolding tally_def by (rule sum_le_count)

lemma tally_two:
  assumes "u < user_number" and "v < user_number" and "u \<noteq> v"
  shows "f (users s u) + f (users s v) \<le> tally f s + f U_Done"
  using tally_set_user [OF assms(1), of f s U_Done] tally_member [OF assms(2), of f "set_user u U_Done s"] assms(3) by simp

lemma in_check_le: "in_check pc \<le> critical pc" "in_check pc \<le> counted pc"
  by (cases pc; simp)+

lemma counted_le: "counted pc \<le> 1" "started pc \<le> 1"
  by (cases pc; simp)+

lemma tally_mono: "(\<And>pc. f pc \<le> g pc) \<Longrightarrow> tally f s \<le> tally g s"
  unfolding tally_def by (rule sum_mono)

lemma lock_inv_start: "share_start s \<Longrightarrow> lock_inv s"
proof -
  assume "share_start s"
  then have l: "init_lock s = s" "admin s = A_New" "users s = (\<lambda>u. U_New)" by (simp_all add: share_start_def)
  have "share_mutex s = share_mutex (init_lock s)" "user_count s = user_count (init_lock s)"
      "sem_admin s = sem_admin (init_lock s)" "sem_user s = sem_user (init_lock s)"
    unfolding l(1) by (rule refl)+
  with l(2,3) show ?thesis by (simp add: lock_inv_def init_lock_def tally_def user_number_def)
qed

lemma lock_inv_admin: "lock_inv s \<Longrightarrow> admin_func s t \<Longrightarrow> lock_inv t"
  by (erule admin_funcE) (auto simp: lock_inv_def split: if_splits)

lemma lock_inv_user:
  assumes "lock_inv s" and "u < user_number" and "user_func True u s t" and "stores_inv s"
  shows "lock_inv t"
proof -
  note up = tally_set_user [OF assms(2), of counted] tally_set_user [OF assms(2), of critical]
    tally_set_user [OF assms(2), of started] tally_set_user [OF assms(2), of in_check]
  note le = tally_member [OF assms(2), of counted s] tally_member [OF assms(2), of critical s]
    tally_mono [of in_check critical s, OF in_check_le(1)]
  note inv = assms(1) [unfolded lock_inv_def]
  have full: "tally counted t \<le> user_number" by (rule tally_le) (rule counted_le)
  show ?thesis
    using assms(3)
  proof (cases rule: user_func.cases)
    case link
    then show ?thesis using inv up [of s U_Wait] by (simp add: lock_inv_def)
  next
    case wait
    then show ?thesis using inv up [of "s\<lparr>sem_user := sem_user s - 1\<rparr>" U_Init] by (simp add: lock_inv_def)
  next
    case init
    then show ?thesis using inv up [of s "U_IO 0"] by (simp add: lock_inv_def)
  next
    case (io i)
    then show ?thesis using inv up [of s "U_IO (i + 1)"] by (simp add: lock_inv_def)
  next
    case (io_end i)
    then show ?thesis using inv up [of s U_Exit] by (simp add: lock_inv_def)
  next
    case exit
    then show ?thesis using inv up [of s U_Lock] by (simp add: lock_inv_def)
  next
    case lock
    then show ?thesis using inv up [of "s\<lparr>share_mutex := True\<rparr>" U_Count] by (simp add: lock_inv_def)
  next
    case count
    then show ?thesis using inv up [of s "U_Store (user_count s)"] by (simp add: lock_inv_def)
  next
    case (store n)
    then have "n = user_count s" using assms(2,4) by (simp add: stores_inv_def)
    with store show ?thesis
      using inv up [of "s\<lparr>user_count := user_count s + 1\<rparr>" U_Check] le full by (auto simp: lock_inv_def)
  next
    case last
    then show ?thesis
      using inv up [of "s\<lparr>sem_admin := sem_admin s + 1\<rparr>" U_Unlock] le
      by (cases "share_mutex s") (auto simp: lock_inv_def)
  next
    case not_last
    then show ?thesis using inv up [of s U_Unlock] le by (auto simp: lock_inv_def)
  next
    case unlock
    then show ?thesis
      using inv up [of "s\<lparr>share_mutex := False\<rparr>" U_Done] le
      by (cases "share_mutex s") (auto simp: lock_inv_def)
  qed
qed

text \<open>A stored value is the current one, as nobody else is in the critical section.\<close>

lemma stores_inv_user:
  assumes "lock_inv s" and "u < user_number" and "user_func True u s t" and "stores_inv s"
  shows "stores_inv t"
  using assms(3)
proof (cases rule: user_func.cases)
  case (store n)
  have "users s v \<noteq> U_Store k" if "v < user_number" "v \<noteq> u" for v k
    using tally_two [OF assms(2) that(1), of critical s] that(2) store(2) assms(1)
    by (cases "share_mutex s") (auto simp: lock_inv_def)
  then show ?thesis using store by (auto simp: stores_inv_def)
qed (use assms(4) in \<open>auto simp: stores_inv_def\<close>)

lemma safe_inv_user:
  assumes "safe_inv s" and "u < user_number" and "user_func works u s t"
  shows "safe_inv t"
proof -
  note up = tally_set_user [OF assms(2), of counted]
  have one: "counted pc \<le> 1" for pc by (rule counted_le)
  have full: "tally counted s \<le> user_number" "tally counted t \<le> user_number" by (rule tally_le [OF one])+
  note inv = assms(1) [unfolded safe_inv_def]
  show ?thesis
    using assms(3)
  proof (cases rule: user_func.cases)
    case wait
    then show ?thesis using inv up [of "s\<lparr>sem_user := sem_user s - 1\<rparr>" U_Init] by (auto simp: safe_inv_def)
  next
    case lock
    then show ?thesis using inv up [of "s\<lparr>share_mutex := True\<rparr>" U_Count] by (auto simp: safe_inv_def)
  next
    case count
    then show ?thesis using inv up [of s "U_Store (user_count s)"] by (auto simp: safe_inv_def)
  next
    case (store n)
    then have n: "n \<le> int (tally counted s)" using inv assms(2) by blast
    have more: "tally counted t = Suc (tally counted s)"
      using up [of "s\<lparr>user_count := n + 1\<rparr>" U_Check] store by simp
    have "k \<le> int (tally counted t)" if "v < user_number" "users t v = U_Store k" for v k
    proof -
      have "users s v = U_Store k" using that(2) store(1) by (auto split: if_splits)
      then show ?thesis using inv that(1) more by fastforce
    qed
    moreover have "user_count t = n + 1" "sem_admin t = sem_admin s" "admin t = admin s" by (simp_all add: store(1))
    ultimately show ?thesis using inv n more full(2) by (auto simp: safe_inv_def)
  next
    case last
    then show ?thesis
      using inv up [of "s\<lparr>sem_admin := sem_admin s + 1\<rparr>" U_Unlock] full by (auto simp: safe_inv_def)
  next
    case unlock
    then show ?thesis using inv up [of "s\<lparr>share_mutex := False\<rparr>" U_Done] by (auto simp: safe_inv_def)
  next
    case link
    then show ?thesis using inv up [of s U_Wait] by (auto simp: safe_inv_def)
  next
    case init
    then show ?thesis using inv up [of s "U_IO 0"] by (auto simp: safe_inv_def)
  next
    case (io i)
    then show ?thesis using inv up [of s "U_IO (i + 1)"] by (auto simp: safe_inv_def)
  next
    case io_end
    then show ?thesis using inv up [of s U_Exit] by (auto simp: safe_inv_def)
  next
    case exit
    then show ?thesis using inv up [of s U_Lock] by (auto simp: safe_inv_def)
  next
    case not_last
    then show ?thesis using inv up [of s U_Unlock] by (auto simp: safe_inv_def)
  qed
qed

lemma safe_inv_admin: "safe_inv s \<Longrightarrow> admin_func s t \<Longrightarrow> safe_inv t"
  by (erule admin_funcE) (auto simp: safe_inv_def)

text \<open>A fork changes no count; the other processes do not undo a fork or the end of a child.\<close>

lemma fork_user_tally:
  assumes "main_inv s" and "main_at s = M_Fork (Suc u)" and "u < user_number"
  shows "tally f (set_user u U_Link (s\<lparr>main_at := k\<rparr>)) + f U_New = tally f s + f U_Link"
proof -
  have "users s u = U_New" using assms by (simp add: main_inv_def)
  then show ?thesis using tally_set_user [OF assms(3), of f "s\<lparr>main_at := k\<rparr>" U_Link] by simp
qed

lemma lock_inv_main:
  assumes "lock_inv s" and "main_inv s" and "main_func s t"
  shows "lock_inv t"
  using assms(3)
proof (cases rule: main_func.cases)
  case (fork_user u)
  note tl = fork_user_tally [OF assms(2) fork_user(2,3)]
  show ?thesis
    using assms(1) tl [of counted] tl [of critical] tl [of started] tl [of in_check]
    by (simp add: lock_inv_def fork_user(1))
qed (use assms(1,2) in \<open>simp_all add: lock_inv_def main_inv_def\<close>)

lemma safe_inv_main:
  assumes "safe_inv s" and "main_inv s" and "main_func s t"
  shows "safe_inv t"
  using assms(3)
proof (cases rule: main_func.cases)
  case (fork_user u)
  show ?thesis
    using assms(1) fork_user_tally [OF assms(2) fork_user(2,3), of counted] by (auto simp: safe_inv_def fork_user(1))
qed (use assms(1,2) in \<open>auto simp: safe_inv_def main_inv_def\<close>)

lemma stores_inv_other:
  assumes "stores_inv s"
  shows "admin_func s t \<Longrightarrow> stores_inv t" and "main_func s t \<Longrightarrow> stores_inv t"
proof -
  show "stores_inv t" if "admin_func s t"
    using that by (rule admin_funcE) (use assms in \<open>auto simp: stores_inv_def\<close>)
  show "stores_inv t" if "main_func s t"
    using that by (rule main_funcE) (use assms in \<open>auto simp: stores_inv_def split: if_splits\<close>)
qed

abbreviation user_done :: "user_pc \<Rightarrow> nat" where
  "user_done pc \<equiv> if pc = U_Done then 1 else 0"

lemma ended_tally: "ended_children s = (if admin s = A_Done then 1 else 0) + tally user_done s"
  by (simp add: ended_children_def tally_def)

lemma ended_le: "ended_children s \<le> Suc user_number"
proof -
  have "tally user_done s \<le> user_number" by (rule tally_le) simp
  then show ?thesis by (simp add: ended_tally)
qed

lemma main_inv_other:
  assumes "main_inv s" and "main_at t = main_at s" and "admin t = A_New \<longleftrightarrow> admin s = A_New"
    and "\<forall>u < user_number. users t u = U_New \<longleftrightarrow> users s u = U_New" and "ended_children s \<le> ended_children t"
  shows "main_inv t"
  using assms ended_le [of t] by (auto simp: main_inv_def split: main_pc.splits)

lemma admin_func_children:
  assumes "admin_func s t"
  shows "main_at t = main_at s \<and> (admin t = A_New \<longleftrightarrow> admin s = A_New) \<and> users t = users s \<and> ended_children s \<le> ended_children t"
  using assms by (rule admin_funcE) (auto simp: ended_tally tally_def)

lemma user_func_children:
  assumes "user_func works u s t" and "u < user_number"
  shows "main_at t = main_at s \<and> admin t = admin s \<and> (\<forall>v. users t v = U_New \<longleftrightarrow> users s v = U_New) \<and>
    ended_children s \<le> ended_children t"
proof -
  obtain pc s' where t: "t = set_user u pc s'" "users s' = users s" "main_at s' = main_at s" "admin s' = admin s"
      "pc \<noteq> U_New" "users s u \<noteq> U_New" "users s u \<noteq> U_Done"
    using assms(1) by (rule user_func.cases) auto
  have same: "tally user_done s' = tally user_done s" by (simp add: tally_def t(2))
  have "tally user_done s \<le> tally user_done t"
    using tally_set_user [OF assms(2), of user_done s' pc] t by (simp add: same)
  then show ?thesis using t by (auto simp: ended_tally)
qed

lemma main_inv_main:
  assumes "main_inv s" and "main_func s t"
  shows "main_inv t"
  using assms(2)
proof (cases rule: main_func.cases)
  case (destroy i)
  then have "ended_children t = Suc user_number"
    using assms(1) ended_le [of s] by (simp add: main_inv_def ended_tally)
  then show ?thesis using destroy by (simp add: main_inv_def)
next
  case (reap i)
  then have "ended_children t = ended_children s" by (simp add: ended_tally)
  then show ?thesis using assms(1) reap by (simp add: main_inv_def)
qed (use assms(1) in \<open>auto simp: main_inv_def\<close>)

lemma share_inv_start: "share_start s \<Longrightarrow> share_inv works s"
  using lock_inv_start [of s]
  by (auto simp: share_inv_def share_start_def main_inv_def stores_inv_def safe_inv_def lock_inv_def)

lemma share_inv_step:
  assumes "share_inv works s" and "share_step works s t"
  shows "share_inv works t"
proof -
  note inv = assms(1) [unfolded share_inv_def]
  show ?thesis
    using assms(2)
  proof (cases rule: share_step.cases)
    case main
    from inv lock_inv_main [OF _ _ main] main_inv_main [OF _ main] safe_inv_main [OF _ _ main] stores_inv_other(2) [OF _ main]
    show ?thesis unfolding share_inv_def by blast
  next
    case admin
    note kids = admin_func_children [OF admin]
    have "main_inv t" by (rule main_inv_other [of s]) (use inv kids in simp_all)
    with inv lock_inv_admin [OF _ admin] safe_inv_admin [OF _ admin] stores_inv_other(1) [OF _ admin]
    show ?thesis unfolding share_inv_def by blast
  next
    case (user u)
    note kids = user_func_children [OF user(2,1)]
    have "main_inv t" by (rule main_inv_other [of s]) (use inv kids in simp_all)
    moreover have "safe_inv t" using safe_inv_user [OF _ user] inv by blast
    moreover have "lock_inv t \<and> stores_inv t" if w: works
    proof -
      have "user_func True u s t" using user(2) w by simp
      then show ?thesis using lock_inv_user [OF _ user(1)] stores_inv_user [OF _ user(1)] inv w by blast
    qed
    ultimately show ?thesis unfolding share_inv_def by blast
  qed
qed

interpretation share: step_invariant share_start "share_step works" "share_inv works" for works
  by unfold_locales (auto intro: share_inv_start share_inv_step)

subsection \<open>Progress\<close>



lemma rank_other [simp]:
  "share_rank (s\<lparr>sem_user := a\<rparr>) = share_rank s" "share_rank (s\<lparr>sem_admin := a\<rparr>) = share_rank s"
  "share_rank (s\<lparr>share_mutex := b\<rparr>) = share_rank s" "share_rank (s\<lparr>user_count := c\<rparr>) = share_rank s"
  by (simp_all add: share_rank_def)









subsection \<open>Properties\<close>




end
