(* ===== verification/Spec2Isabelle.thy ===== *)
theory Spec2Isabelle
  imports System Well_Typed Discard_Race Storage_Spec Reuse_Race Coherence Device_Tests Printing Queue_Test Fio Clients Spdk_Share
begin

text \<open>
  A verification of the user-level SSD cache: a library that keeps 32 KiB pages of files on an
  NVMe device, shared by an administrator process, whose worker thread moves data, and user
  processes, which submit page requests.

  Parts of the program and how they interact. A user builds a request with
  \<^verbatim>\<open>lib/pio.c\<close> and hands it to \<open>submit_pio\<close> of \<^verbatim>\<open>lib/ssd_cache_api.c\<close>.
  \<^verbatim>\<open>lib/ssd_cache_target.c\<close> checks it, asks the mapping of
  \<^verbatim>\<open>lib/ssd_cache_mapping.c\<close> for a cache block, and serves it from the device through
  \<^verbatim>\<open>lib/spdk.c\<close> or from the file. A miss leaves a work in the queue of
  \<^verbatim>\<open>lib/work_queue.c\<close>; the worker takes works from it, moves data between file and device
  (promotion, demotion, writeback) and tells the mapping. All of this state is one
  \<open>struct cache\<close> of \<^verbatim>\<open>inc/cache.h\<close> in the shared memory of \<^verbatim>\<open>lib/shm.c\<close>, its
  parts guarded by the spinlocks of \<^verbatim>\<open>lib/atomic.c\<close>.

  Conventions. \<open>unsigned\<close> is a 32 bit word and wraps; \<open>unsigned long\<close> a 64 bit word; \<open>int\<close> an
  integer whose overflow is undefined (\<open>c_int\<close>). A function that C leaves undefined somewhere
  (null dereference, index out of range, buffer overflow, bad shift) or that may not return
  (a spin or polling loop) has an \<open>option\<close> result: \<open>None\<close> is both, so a theorem that
  gives \<open>Some\<close> says the call is defined and returns. What a function writes through its
  pointers is part of its result. Names are those of the code, except \<open>entry_ptr\<close> for a
  pointer to an entry (null or an index), \<open>raw_h_insert\<close> for \<^verbatim>\<open>__h_insert\<close> and so on,
  \<open>get_entry\<close> for \<^verbatim>\<open>__get_entry\<close>, and \<open>submit_to_target\<close> for
  \<^verbatim>\<open>_submit_pio\<close>.

  Theories, in the order in which they build on each other.

  \<^item> \<open>Prelude\<close>: words, C integers and strings, generic lemmas, and the locale
    \<open>step_invariant\<close> of invariants of step relations.
  \<^item> \<open>Config\<close>: \<^verbatim>\<open>inc/config.h\<close>.
  \<^item> \<open>Atomic\<close>: the spinlock; locale \<open>lock_contract\<close>, interpreted on it, and the step
    relation \<open>spin_step\<close> of threads that compete for it, with mutual exclusion.
  \<^item> \<open>Work_Queue\<close>: the ring of works. \<open>items\<close> is the list it stands for; locale
    \<open>bounded_queue\<close> turns the laws of the operations into a refinement of whole runs.
  \<^item> \<open>Entry_List\<close>: the array of entries and the intrusive lists over it. \<open>dll es l xs\<close>
    says that list \<open>l\<close> consists of \<open>xs\<close>; locale \<open>intrusive_list\<close> derives from
    the laws of single operations what sequences on several lists do.
  \<^item> \<open>Entry_Alloc\<close>: flags of an entry and the allocator with its free list.
  \<^item> \<open>Hash_Table\<close>: \<open>htab\<close> says which entries the table holds, \<open>table_find\<close> is
    the map from keys to entries it stands for.
  \<^item> \<open>Cache_Mapping\<close>: every operation of \<^verbatim>\<open>lib/ssd_cache_mapping.c\<close> but the I/O.
    \<open>Mapping_Steps\<close> proves what one call inside an operation does to the invariant,
    \<open>Mapping_Ops\<close> and \<open>Mapping_Moves\<close> that each operation returns, keeps the
    invariant \<open>map_inv\<close> and does to the abstract cache \<open>view_of m\<close> what the one-line
    functions \<open>a_lookup\<close>, \<open>a_insert\<close> and so on say. \<open>Mapping_Spec\<close> has the
    properties.
  \<^item> \<open>Discard_Race\<close>: what a discard does to a block in transit, which the refinement of
    \<open>remove_mapping\<close> has to exclude.
  \<^item> \<open>Reuse_Race\<close>: a request between its lookup and its transfer, while the worker gives the
    block it found to another page.
  \<^item> \<open>Spdk\<close>: commands to the device, polling, scatter lists, over the parameter
    \<open>driver\<close>; \<open>logged\<close> records what is sent and \<open>answers\<close> is what the code relies
    on: an accepted command completes after finitely many polls. A completion sets the flag of
    the call that polls by the kind of the callback: one transfer at most is under way per queue.
  \<^item> \<open>Migration\<close>: the worker's moves with their I/O, refined to \<open>a_migrate\<close> together
    with the commands they send: \<open>sends\<close> goes through a script of commands up to the first that
    \<open>failed\<close>, and \<open>move_sends\<close> says which script belongs to which move.
  \<^item> \<open>Pio\<close>, \<open>Target\<close>, \<open>Target_Spec\<close>: requests and their service, refined to
    \<open>a_serve\<close> together with the commands sent.
  \<^item> \<open>Storage\<close>, \<open>Storage_Spec\<close>: the contents of device, memory and files, over the parameter
    \<open>V\<close> that reads them off the external world and the hypothesis \<open>obeys\<close> on what each
    accepted command does to them. The code ignores the status of completions, so on a device
    that fails a transfer after accepting it these properties say nothing. Requests change the bytes of their block only, reads return what was
    written, promotions load the file and writebacks save it. \<open>disk_device\<close> is a concrete
    world with all these hypotheses.
  \<^item> \<open>Cache_Api\<close>, \<open>Lifecycle\<close>: the controller, the shared memory, creation, joining,
    leaving and shutdown, over the parameter \<open>platform\<close>, with the loop \<open>migration\<close> of the worker
    thread, which a shutdown waits for; initialisation establishes the
    invariants that the other theories assume (\<open>built\<close>).
  \<^item> \<open>System\<close>: users and the worker on one mapping as the step relation \<open>sys_step\<close>,
    one step per critical section, labelled with its operation; \<open>permitted\<close> says which calls users
    may make, \<open>orderly\<close> are the permitted steps, and \<open>sys_inv\<close> holds in every state that these reach.
  \<^item> \<open>Well_Typed\<close>: the ranges of all links, ends, counters and positions that follow from it.
  \<^item> \<open>Worker\<close>: the endless loop of the worker thread with users in between, and how a cancel
    request ends it: \<open>passes\<close> is the run of the loop without its end, \<open>works_off\<close> says that it
    takes one work per pass, \<open>polite\<close> what is expected of users.
  \<^item> \<open>Coherence\<close>: for requests and rounds of the worker one after the other, the cache is
    transparent: \<open>contents\<close> is a file as seen through the cache, \<open>coherent\<close> the invariant
    that a cached page which is not dirty equals its file, and every event acts on the contents as
    \<open>plain_request\<close> acts on plain files. The devices are \<open>reliable\<close> and \<open>trims_keep\<close>:
    deallocated blocks keep their data, which is needed because a demotion deallocates the wrong
    ones. \<open>Reuse_Race\<close> shows what is lost when a round falls inside a request.
  \<^item> \<open>Printing\<close>: what the library prints, as lists of lines, and \<^verbatim>\<open>examples/1_create_pio.c\<close>.
  \<^item> \<open>Queue_Test\<close>: the producers and the consumer of \<^verbatim>\<open>examples/2_work_queue.c\<close> as the step
    relation \<open>queue_test_step\<close>, with the accepted works as a history variable.
  \<^item> \<open>Device_Tests\<close>: the programs \<^verbatim>\<open>examples/3_spdk_rw.c\<close> and
    \<^verbatim>\<open>examples/4_spdk_iovec.c\<close>, over the storage of \<open>Storage\<close> and a record \<open>cpu\<close> of
    loads and stores with the contract \<open>runs_on\<close>. The first does not wait for its trims; on
    \<open>late_device\<close>, which carries them out later, it fails.
  \<^item> \<open>Fio\<close>: the fio engines, clients of the library.
  \<^item> \<open>Clients\<close>: the command line client and server and the two stress tests, whole
    programs over the library; \<open>sound\<close> is what they need of a cache and \<open>kept\<close> what they leave;
    \<open>pieces\<close> are the lines, or parts of long lines, in which \<open>fgets\<close> reads the input; the worker and
    other users act on the cache between requests (\<open>meanwhile\<close>).
  \<^item> \<open>Spdk_Share\<close>: the test of several processes on one device, its parent included, as the
    step relation \<open>share_step\<close>, with invariant, rank and progress. The parameter \<open>works\<close> says
    whether the mutex, which has default attributes, excludes between processes.

  The abstract cache. \<open>cache_view\<close> has the free, clean and dirty blocks from the least to the most
  recently used, the key of each used block, the blocks in transit with the dirty bit they
  carry, the map from keys to blocks, the promotion queue and the counters. \<open>map_inv P m\<close> says
  that the lists are disjoint and with the blocks in transit make up the cache, that flags,
  lists and table agree, that keys are not shared, and that the locks are free; \<open>P\<close> are the
  blocks under promotion, which have a key and are not in the table yet.

  Bounds. There is no fuel: loops are structural recursion, \<open>function\<close> with a measure, or
  \<open>partial_function (option)\<close> with a theorem that says when they return. A path has at most
  \<open>MAX_PATH_SIZE\<close> characters where an entry or a work holds it, and fewer where the worker
  copies it to its own buffer; longer paths overflow, as a property of \<open>Migration\<close> shows.
  Sectors are \<open>2 ^ k\<close> bytes with \<open>k \<le> 12\<close>.

  Assumptions of \<open>System\<close>. Operations of the mapping are atomic: each runs under
  \<open>mapping_lock\<close>, for which \<open>Atomic\<close> proves mutual exclusion; the work queue operations
  that the worker runs outside of it are atomic under their own lock. The step relation itself lets
  users call with any argument. The invariants hold for the \<open>permitted\<close> calls: paths of at most
  \<open>MAX_PATH_SIZE\<close> characters, and no discard of a page whose block is in transit. The code guards
  against neither; \<open>Discard_Race\<close> shows that the lists break without the second. A queued
  path of exactly \<open>MAX_PATH_SIZE\<close> characters is permitted, and the worker cannot start a round on it.

  Not modelled. The messages that operations print besides \<open>info_mapping\<close>,
  \<open>info_ssd_cache\<close> and \<open>print_pio\<close>; memory allocation of I/O vectors and DMA buffers, taken to
  succeed; data of commands in flight, as \<open>obeys\<close> lets a command act when it is submitted (the exception is
  \<open>late_device\<close>); transfers that the device fails after it accepted them; the
  weak memory model, as all atomics are sequentially consistent; the writeback worker, which is
  commented out in the source; cancellation of the worker inside a move (a shutdown
  ends it at \<open>pthread_testcancel\<close>); users that act inside a move of \<open>migration\<close>, which are steps of
  \<open>System\<close> only; the random seeds of
  \<^verbatim>\<open>examples/2_work_queue.c\<close>; failing forks; what the programs of \<open>Clients\<close> write
  into their buffers.
\<close>

end
